(* ===== verification/Prelude.thy ===== *)
theory Prelude
  imports Main "HOL-Library.Word"
begin

text \<open>
  Shared vocabulary of the development: the fixed-width integer types of the C and C++ sources,
  the arithmetic right shift and the integer conversions of C, and generic lemmas on signed words
  and on lists that several components use.

  \<^item> \<open>uint8_t\<close> .. \<open>uint64_t\<close> are \<open>8 word\<close> .. \<open>64 word\<close>; \<open>int32_t\<close> and \<open>int64_t\<close> are the
    same bit patterns read with \<open>sint\<close>.
  \<^item> \<open>cshr\<close> is the \<open>>>\<close> of C on a signed operand (arithmetic shift, as gcc defines it);
    on an unsigned operand \<open>>>\<close> is \<open>drop_bit\<close> and \<open><<\<close> is \<open>push_bit\<close>.
  \<^item> A conversion to a wider signed type is \<open>scast\<close>, to an unsigned or narrower type \<open>ucast\<close>.
\<close>

unbundle bit_operations_syntax

type_synonym u8 = "8 word"
type_synonym u16 = "16 word"
type_synonym u32 = "32 word"
type_synonym u64 = "64 word"
type_synonym i32 = "32 word"
type_synonym i64 = "64 word"
type_synonym bytes = "u8 list"

named_theorems sint_arith \<open>signed reading of a word operation that does not overflow\<close>
named_theorems list_laws \<open>laws of indexed lists used by the array models\<close>

abbreviation cshr :: "'a::len word \<Rightarrow> nat \<Rightarrow> 'a word" where
  "cshr x n \<equiv> signed_drop_bit n x"

section \<open>Signed words\<close>

definition fits :: "nat \<Rightarrow> int \<Rightarrow> bool" where
  "fits w x \<longleftrightarrow> - (2 ^ (w - 1)) \<le> x \<and> x < 2 ^ (w - 1)"

lemma fits32: "fits 32 x \<longleftrightarrow> -2147483648 \<le> x \<and> x < 2147483648"
  by (simp add: fits_def)

lemma fits64: "fits 64 x \<longleftrightarrow> -9223372036854775808 \<le> x \<and> x < 9223372036854775808"
  by (simp add: fits_def)

lemma signed_take_bit_fits:
  "0 < w \<Longrightarrow> fits w x \<Longrightarrow> signed_take_bit (w - Suc 0) x = x"
  by (simp add: fits_def signed_take_bit_int_eq_self)

lemma sint_fits: "fits LENGTH('a::len) (sint (x :: 'a word))"
  using sint_range_size [of x] by (simp add: fits_def word_size)

lemma sint32_bounds: "-2147483648 \<le> sint (x :: 32 word)" "sint (x :: 32 word) < 2147483648"
  using sint_range_size [of x] by (simp_all add: word_size)

lemma sint64_bounds:
  "-9223372036854775808 \<le> sint (x :: 64 word)" "sint (x :: 64 word) < 9223372036854775808"
  using sint_range_size [of x] by (simp_all add: word_size)

lemma sint_add_fits [sint_arith]:
  "fits LENGTH('a::len) (sint a + sint b) \<Longrightarrow> sint (a + b :: 'a word) = sint a + sint b"
  by (simp add: sint_word_add signed_take_bit_fits)

lemma sint_sub_fits [sint_arith]:
  "fits LENGTH('a::len) (sint a - sint b) \<Longrightarrow> sint (a - b :: 'a word) = sint a - sint b"
  by (simp add: sint_word_diff signed_take_bit_fits)

lemma sint_mult_fits [sint_arith]:
  "fits LENGTH('a::len) (sint a * sint b) \<Longrightarrow> sint (a * b :: 'a word) = sint a * sint b"
  by (simp add: sint_word_mult signed_take_bit_fits)

lemma sint_of_int_fits [sint_arith]:
  "fits LENGTH('a::len) x \<Longrightarrow> sint (word_of_int x :: 'a word) = x"
  by (simp add: sint_sbintrunc' signed_take_bit_fits)

lemma sint_cshr [sint_arith]: "sint (cshr x n) = sint x div 2 ^ n"
  by (simp add: sint_signed_drop_bit_eq drop_bit_eq_div)

lemma sint_scast64 [sint_arith]: "sint (scast (x :: 32 word) :: 64 word) = sint x"
  using sint32_bounds [of x]
  by (simp add: signed_scast_eq signed_take_bit_int_eq_self)

text \<open>The low half of a 64-bit product, reread as a signed 32-bit value.\<close>

lemma sint_ucast_down32:
  "\<exists>k. sint (ucast (x :: 64 word) :: 32 word) = sint x + k * 2 ^ 32"
proof -
  have "sint (ucast x :: 32 word) = signed_take_bit 31 (uint x)"
    by (simp add: signed_ucast_eq)
  moreover have "signed_take_bit 31 (uint x) mod 2 ^ 32 = uint x mod 2 ^ 32"
    using take_bit_signed_take_bit [of 32 31 "uint x"] by (simp add: take_bit_eq_mod)
  moreover have "uint x = sint x mod 2 ^ 64"
    by (simp add: uint_sint take_bit_eq_mod)
  then have "uint x mod 2 ^ 32 = sint x mod 2 ^ 32"
    by (simp add: mod_mod_cancel)
  ultimately have "sint (ucast x :: 32 word) mod 2 ^ 32 = sint x mod 2 ^ 32"
    by simp
  then obtain k where "sint (ucast x :: 32 word) = sint x + 2 ^ 32 * k"
    by (metis mod_eqE)
  then show ?thesis by (metis mult.commute)
qed

lemma sint_ucast_fits [sint_arith]:
  "fits 32 (sint x) \<Longrightarrow> sint (ucast (x :: 64 word) :: 32 word) = sint x"
  using sint_ucast_down32 [of x] sint32_bounds [of "ucast x"] by (auto simp: fits32)

lemma sint_mult64_mod:
  "sint (a * b :: 64 word) mod 4294967296 = (sint a * sint b) mod 4294967296"
proof -
  have "sint (a * b) mod 2 ^ 64 = (sint a * sint b) mod 2 ^ 64"
    using take_bit_signed_take_bit [of 64 63 "sint a * sint b"]
    by (simp add: sint_word_mult take_bit_eq_mod)
  then have "sint (a * b) mod 2 ^ 64 mod 4294967296 = (sint a * sint b) mod 2 ^ 64 mod 4294967296"
    by simp
  then show ?thesis by (simp add: mod_mod_cancel)
qed

lemma sint_push_bit_fits [sint_arith]:
  fixes x :: "'a::len word"
  assumes "fits LENGTH('a) (sint x * 2 ^ n)"
  shows "sint (push_bit n x) = sint x * 2 ^ n"
proof -
  have "push_bit n x = word_of_int (sint x * 2 ^ n)"
    by (simp add: push_bit_eq_mult)
  with assms show ?thesis by (simp only: sint_of_int_fits)
qed

lemma sint_eqI: "sint x = sint y \<Longrightarrow> x = y"
  by (rule signed_word_eqI)

section \<open>Division with a rounding bound\<close>

lemma le_div_int: "0 < c \<Longrightarrow> (k :: int) \<le> x div c \<longleftrightarrow> k * c \<le> x"
proof
  assume c: "0 < c" and "k \<le> x div c"
  then have "k * c \<le> x div c * c" by simp
  also have "\<dots> \<le> x" using c by (metis div_mult_mod_eq le_add_same_cancel1 pos_mod_sign)
  finally show "k * c \<le> x" .
next
  assume c: "0 < c" and "k * c \<le> x"
  then show "k \<le> x div c" using zdiv_mono1 [of "k * c" x c] by simp
qed

lemma div_less_int: "0 < c \<Longrightarrow> (x :: int) div c < k \<longleftrightarrow> x < k * c"
  using le_div_int [of c k x] by linarith

lemma div_eq_int: "0 < c \<Longrightarrow> (k :: int) * c \<le> x \<Longrightarrow> x < (k + 1) * c \<Longrightarrow> x div c = k"
  using le_div_int [of c k x] div_less_int [of c x "k + 1"] by linarith

text \<open>The sign mask \<open>x >> 31\<close> of an \<open>int32_t\<close>.\<close>

lemma cshr31: "cshr x 31 = (if sint (x :: 32 word) < 0 then - 1 else 0)"
  using sint32_bounds [of x] by (intro sint_eqI) (auto simp: sint_cshr intro: div_eq_int)

section \<open>Bits of small words\<close>

lemma bit_imp_small: "x < 2 ^ k \<Longrightarrow> bit (x :: 'a::len word) n \<Longrightarrow> n < k"
proof (rule ccontr)
  assume x: "x < 2 ^ k" and b: "bit x n" and n: "\<not> n < k"
  have "unat (2 ^ k :: 'a word) = take_bit LENGTH('a) (2 ^ k)"
    using unsigned_of_nat [of "2 ^ k", where ?'b = 'a and ?'a = nat] by simp
  also have "\<dots> \<le> 2 ^ k" by (rule take_bit_nat_less_eq_self)
  finally have "unat x < 2 ^ k"
    using x by (simp add: word_less_nat_alt)
  then have "take_bit k (unat x) = unat x" by (rule take_bit_nat_eq_self)
  moreover have "bit (unat x) n" using b by (simp add: bit_unsigned_iff)
  ultimately have "bit (take_bit k (unat x)) n" by simp
  with n show False by (simp add: bit_take_bit_iff)
qed

section \<open>Bytes of a word\<close>

lemma unat_or_disjoint:
  "x AND y = 0 \<Longrightarrow> unat (x OR y) = unat x + unat y" for x y :: "'a::len word"
proof -
  assume "x AND y = 0"
  then have "unat x AND unat y = 0" by (metis unsigned_and_eq unsigned_0)
  then show ?thesis by (simp add: unsigned_or_eq disjunctive_add_eq_or)
qed

lemma shifted_bytes_disjoint:
  "s + 8 \<le> t \<Longrightarrow> push_bit t (ucast (b :: u8)) AND push_bit s (ucast (a :: u8)) = (0 :: 'a::len word)"
  by (rule bit_word_eqI) (auto simp: bit_simps dest: bit_imp_le_length)

lemma unat_shifted_byte:
  "8 + s \<le> LENGTH('a) \<Longrightarrow> unat (push_bit s (ucast (b :: u8)) :: 'a::len word) = unat b * 2 ^ s"
proof -
  assume l: "8 + s \<le> LENGTH('a)"
  have b: "unat b < 2 ^ 8" using unsigned_less [of b, where ?'a = nat] by simp
  then have "unat b * 2 ^ s < 2 ^ 8 * 2 ^ s" by simp
  also have "\<dots> = (2 :: nat) ^ (8 + s)" by (simp add: power_add)
  also have "\<dots> \<le> 2 ^ LENGTH('a)" using l by (intro power_increasing) auto
  finally have m: "unat b * 2 ^ s < 2 ^ LENGTH('a)" .
  have "(2 :: nat) ^ 8 \<le> 2 ^ LENGTH('a)" using l by (intro power_increasing) auto
  then have "unat (ucast b :: 'a word) = unat b"
    using b by (simp add: unsigned_ucast_eq take_bit_nat_eq_self)
  with m show ?thesis
    unfolding unsigned_push_bit_eq by (simp add: push_bit_eq_mult take_bit_nat_eq_self)
qed

lemma unat_be32:
  "unat (push_bit 24 (ucast a) OR push_bit 16 (ucast b) OR push_bit 8 (ucast c) OR ucast d :: u32) =
    unat a * 2 ^ 24 + unat b * 2 ^ 16 + unat c * 2 ^ 8 + unat d" for a b c d :: u8
proof -
  note sh = unat_shifted_byte [where ?'a = 32]
  have "unat (ucast d :: u32) = unat d" using sh [of 0 d] by simp
  moreover have "x AND (y OR z) = 0" if "x AND y = 0" "x AND z = 0" for x y z :: u32
    using that by (simp add: bit.conj_disj_distrib)
  moreover have "push_bit s (ucast x) AND ucast d = (0 :: u32)" if "8 \<le> s" for s and x :: u8
    using shifted_bytes_disjoint [of 0 s x d, where ?'a = 32] that by simp
  ultimately show ?thesis
    by (simp add: unat_or_disjoint shifted_bytes_disjoint sh del: push_bit_eq_mult push_bit_numeral_minus_1 bit.conj_disj_distrib)
qed

lemma and_mask_value: "unat (a AND mask k) = unat a mod 2 ^ k" for a :: "'a::len word"
  using unsigned_take_bit_eq [of k a] unfolding take_bit_eq_mask [of k a, symmetric]
  by (metis take_bit_eq_mod)

lemma small_byte: "n < 256 \<Longrightarrow> unat (of_nat n :: u8) = n"
  by (simp add: unat_of_nat take_bit_nat_eq_self)

section \<open>Lists as arrays\<close>

lemma map2_nth [list_laws]:
  "i < length xs \<Longrightarrow> i < length ys \<Longrightarrow> map2 f xs ys ! i = f (xs ! i) (ys ! i)"
  by simp

lemma length_concat_const:
  "(\<And>x. x \<in> set xss \<Longrightarrow> length x = w) \<Longrightarrow> length (concat xss) = w * length xss"
  by (induction xss) auto

end
