(* ===== verification/Cbor.thy ===== *)
theory Cbor
  imports Prelude "HOL-Library.Monad_Syntax"
begin

text \<open>
  The CBOR engine of the firmware (\<open>include/CborEngine.h\<close>, \<open>src/CborEngine.cpp\<close>): the encoder
  that writes into a caller's buffer and the parser over a received message.

  Every function returns an option. \<open>None\<close> is undefined behaviour of the C++: a read or a write
  outside the buffer (or a loop that ran out of fuel, which the lemmas exclude). \<open>Some (r, s)\<close>
  is a normal return with the result \<open>r\<close> and the new object state \<open>s\<close>. Sizes are \<open>size_t\<close>, 32 bits
  on the ESP32-S3: additions in the bounds checks wrap, written with \<open>sz\<close>.
\<close>

definition sz :: "nat \<Rightarrow> nat" where
  "sz n = unat (of_nat n :: u32)"

lemma sz_small: "n < 2 ^ 32 \<Longrightarrow> sz n = n"
  by (simp add: sz_def unat_of_nat take_bit_nat_eq_self)

lemma sz_le: "sz n \<le> n"
  by (simp add: sz_def unat_of_nat take_bit_nat_less_eq_self)

section \<open>The encoder\<close>

record encoder =
  ebuf :: bytes
  ecap :: nat
  eoff :: nat

definition new_encoder :: "bytes \<Rightarrow> encoder" where
  "new_encoder b = \<lparr>ebuf = b, ecap = length b, eoff = 0\<rparr>"

text \<open>\<open>buffer[offset++] = b\<close>\<close>

definition put :: "u8 \<Rightarrow> encoder \<Rightarrow> encoder option" where
  "put b e = (if eoff e < length (ebuf e)
     then Some (e\<lparr>ebuf := (ebuf e)[eoff e := b], eoff := eoff e + 1\<rparr>) else None)"

text \<open>a run of \<open>buffer[offset++] = ...\<close> and \<open>memcpy(&buffer[offset], data, len); offset += len\<close>\<close>

fun put_all :: "bytes \<Rightarrow> encoder \<Rightarrow> encoder option" where
  "put_all [] e = Some e"
| "put_all (b # bs) e = do { e' \<leftarrow> put b e; put_all bs e' }"

text \<open>The successive bytes \<open>(val >> 8 * (n - 1)) & 0xFF, .., val & 0xFF\<close>.\<close>

definition be_bytes :: "nat \<Rightarrow> u64 \<Rightarrow> bytes" where
  "be_bytes n v = map (\<lambda>i. ucast (drop_bit (8 * i) v AND 255)) (rev [0..<n])"

definition writeUnsignedInt :: "u64 \<Rightarrow> encoder \<Rightarrow> (bool \<times> encoder) option" where
  "writeUnsignedInt val e =
     (if ecap e \<le> eoff e then Some (False, e)
      else if val < 24 then map_option (Pair True) (put_all [ucast val] e)
      else if val \<le> 0xFF then
        (if ecap e \<le> sz (eoff e + 1) then Some (False, e)
         else map_option (Pair True) (put_all [24, ucast val] e))
      else if val \<le> 0xFFFF then
        (if ecap e \<le> sz (eoff e + 2) then Some (False, e)
         else map_option (Pair True) (put_all (25 # be_bytes 2 val) e))
      else if val \<le> 0xFFFFFFFF then
        (if ecap e \<le> sz (eoff e + 4) then Some (False, e)
         else map_option (Pair True) (put_all (26 # be_bytes 4 val) e))
      else
        (if ecap e \<le> sz (eoff e + 8) then Some (False, e)
         else map_option (Pair True) (put_all (27 # be_bytes 8 val) e)))"

definition writeNegativeInt :: "i64 \<Rightarrow> encoder \<Rightarrow> (bool \<times> encoder) option" where
  "writeNegativeInt val e =
     (if 0 \<le>s val then Some (False, e)
      else let uval = - 1 - val in
      if ecap e \<le> eoff e then Some (False, e)
      else if uval < 24 then map_option (Pair True) (put_all [32 OR ucast uval] e)
      else if uval \<le> 0xFF then
        (if ecap e \<le> sz (eoff e + 1) then Some (False, e)
         else map_option (Pair True) (put_all [32 OR 24, ucast uval] e))
      else if uval \<le> 0xFFFF then
        (if ecap e \<le> sz (eoff e + 2) then Some (False, e)
         else map_option (Pair True) (put_all ((32 OR 25) # be_bytes 2 uval) e))
      else if uval \<le> 0xFFFFFFFF then
        (if ecap e \<le> sz (eoff e + 4) then Some (False, e)
         else map_option (Pair True) (put_all ((32 OR 26) # be_bytes 4 uval) e))
      else
        (if ecap e \<le> sz (eoff e + 8) then Some (False, e)
         else map_option (Pair True) (put_all ((32 OR 27) # be_bytes 8 uval) e)))"

definition writeMapHeader :: "nat \<Rightarrow> encoder \<Rightarrow> (bool \<times> encoder) option" where
  "writeMapHeader elements e =
     (let w = of_nat elements :: u64 in
      if ecap e \<le> eoff e then Some (False, e)
      else if elements < 24 then map_option (Pair True) (put_all [160 OR (ucast w AND 0x1F)] e)
      else if elements \<le> 0xFF then
        (if ecap e \<le> sz (eoff e + 1) then Some (False, e)
         else map_option (Pair True) (put_all [160 OR 24, ucast w] e))
      else if elements \<le> 0xFFFF then
        (if ecap e \<le> sz (eoff e + 2) then Some (False, e)
         else map_option (Pair True) (put_all ((160 OR 25) # be_bytes 2 w) e))
      else Some (False, e))"

definition writeArrayHeader :: "nat \<Rightarrow> encoder \<Rightarrow> (bool \<times> encoder) option" where
  "writeArrayHeader elements e =
     (let w = of_nat elements :: u64 in
      if ecap e \<le> eoff e then Some (False, e)
      else if elements < 24 then map_option (Pair True) (put_all [128 OR ucast w] e)
      else if elements \<le> 0xFF then
        (if ecap e \<le> sz (eoff e + 1) then Some (False, e)
         else map_option (Pair True) (put_all [128 OR 24, ucast w] e))
      else Some (False, e))"

definition writeByteString :: "bytes \<Rightarrow> encoder \<Rightarrow> (bool \<times> encoder) option" where
  "writeByteString data e =
     (let len = length data; w = of_nat len :: u64 in
      if ecap e \<le> sz (eoff e + len + 3) then Some (False, e)
      else if len < 24 then
        map_option (Pair True) (put_all ((64 OR (ucast w AND 0x1F)) # data) e)
      else if len \<le> 0xFF then
        map_option (Pair True) (put_all ([64 OR 24, ucast w] @ data) e)
      else if len \<le> 0xFFFF then
        map_option (Pair True) (put_all ((64 OR 25) # be_bytes 2 w @ data) e)
      else Some (False, e))"

text \<open>\<open>text\<close> is the characters before the terminating NUL, so \<open>strlen\<close> is its length.\<close>

definition writeTextString :: "bytes \<Rightarrow> encoder \<Rightarrow> (bool \<times> encoder) option" where
  "writeTextString text e =
     (let len = length text; w = of_nat len :: u64 in
      if ecap e \<le> sz (eoff e + 1 + len + 2) then Some (False, e)
      else if len < 24 then
        map_option (Pair True) (put_all ((96 OR (ucast w AND 0x1F)) # text) e)
      else if len \<le> 0xFF then
        map_option (Pair True) (put_all ([96 OR 24, ucast w] @ text) e)
      else Some (False, e))"

definition writeBoolean :: "bool \<Rightarrow> encoder \<Rightarrow> (bool \<times> encoder) option" where
  "writeBoolean value e =
     (if ecap e \<le> eoff e then Some (False, e)
      else map_option (Pair True) (put_all [224 OR (if value then 21 else 20)] e))"

definition writeNull :: "encoder \<Rightarrow> (bool \<times> encoder) option" where
  "writeNull e =
     (if ecap e \<le> eoff e then Some (False, e)
      else map_option (Pair True) (put_all [224 OR 22] e))"

section \<open>The parser\<close>

record parser =
  pbuf :: bytes
  poff :: nat

definition new_parser :: "bytes \<Rightarrow> parser" where
  "new_parser b = \<lparr>pbuf = b, poff = 0\<rparr>"

abbreviation plen :: "parser \<Rightarrow> nat" where
  "plen p \<equiv> length (pbuf p)"

definition isFinished :: "parser \<Rightarrow> bool" where
  "isFinished p \<longleftrightarrow> plen p \<le> poff p"

text \<open>\<open>buffer[i]\<close>\<close>

definition rd :: "parser \<Rightarrow> nat \<Rightarrow> u8 option" where
  "rd p i = (if i < plen p then Some (pbuf p ! i) else None)"

definition peekMajorType :: "parser \<Rightarrow> u8 option" where
  "peekMajorType p =
     (if plen p \<le> poff p then Some 0xFF
      else map_option (\<lambda>b. drop_bit 5 b AND 7) (rd p (poff p)))"

text \<open>\<open>value = (value << 8) | buffer[offset++]\<close>, \<open>n\<close> times; the 2- and 4-byte cases of the source
  write the same shifts out.\<close>

fun rd_be :: "nat \<Rightarrow> u64 \<Rightarrow> parser \<Rightarrow> (u64 \<times> parser) option" where
  "rd_be 0 v p = Some (v, p)"
| "rd_be (Suc n) v p = do {
     b \<leftarrow> rd p (poff p);
     rd_be n (push_bit 8 v OR ucast b) (p\<lparr>poff := poff p + 1\<rparr>) }"

definition INDEFINITE :: u64 where
  "INDEFINITE = 0xFFFFFFFFFFFFFFFF"

definition readTypeAndValue :: "parser \<Rightarrow> ((u8 \<times> u64) option \<times> parser) option" where
  "readTypeAndValue p =
     (if plen p \<le> poff p then Some (None, p)
      else do {
        initialByte \<leftarrow> rd p (poff p);
        let p = p\<lparr>poff := poff p + 1\<rparr>;
        let majorType = drop_bit 5 initialByte AND 7;
        let additionalInfo = initialByte AND 0x1F;
        if additionalInfo < 24 then Some (Some (majorType, ucast additionalInfo), p)
        else if additionalInfo = 24 then
          (if plen p \<le> poff p then Some (None, p)
           else map_option (\<lambda>(v, q). (Some (majorType, v), q)) (rd_be 1 0 p))
        else if additionalInfo = 25 then
          (if plen p \<le> sz (poff p + 1) then Some (None, p)
           else map_option (\<lambda>(v, q). (Some (majorType, v), q)) (rd_be 2 0 p))
        else if additionalInfo = 26 then
          (if plen p \<le> sz (poff p + 3) then Some (None, p)
           else map_option (\<lambda>(v, q). (Some (majorType, v), q)) (rd_be 4 0 p))
        else if additionalInfo = 27 then
          (if plen p \<le> sz (poff p + 7) then Some (None, p)
           else map_option (\<lambda>(v, q). (Some (majorType, v), q)) (rd_be 8 0 p))
        else if additionalInfo = 0x1F then Some (Some (majorType, INDEFINITE), p)
        else Some (None, p) })"

text \<open>\<open>memcpy(dest, &buffer[offset], n)\<close>\<close>

definition rd_bytes :: "parser \<Rightarrow> nat \<Rightarrow> bytes option" where
  "rd_bytes p n =
     (if poff p + n \<le> plen p then Some (take n (drop (poff p) (pbuf p))) else None)"

text \<open>The \<open>memcpy\<close> into the destination must fit the \<open>maxLen\<close> bytes of it.\<close>

definition readByteString :: "nat \<Rightarrow> parser \<Rightarrow> (bytes option \<times> parser) option" where
  "readByteString maxLen p = do {
     (tv, q) \<leftarrow> readTypeAndValue p;
     case tv of
       None \<Rightarrow> Some (None, q\<lparr>poff := poff p\<rparr>)
     | Some (majorType, strLen) \<Rightarrow>
         if majorType \<noteq> 2 then Some (None, q\<lparr>poff := poff p\<rparr>)
         else if maxLen < unat strLen \<or> plen q - poff q < unat strLen
         then Some (None, q\<lparr>poff := poff p\<rparr>)
         else do {
           s \<leftarrow> rd_bytes q (unat strLen);
           if length s \<le> maxLen then Some (Some s, q\<lparr>poff := poff q + unat strLen\<rparr>) else None } }"

text \<open>\<open>readTextString\<close> appends a NUL, so it needs \<open>strLen + 1\<close> bytes of the destination.\<close>

definition readTextString :: "nat \<Rightarrow> parser \<Rightarrow> (bytes option \<times> parser) option" where
  "readTextString maxLen p =
     (if maxLen = 0 then Some (None, p)
      else do {
     (tv, q) \<leftarrow> readTypeAndValue p;
     case tv of
       None \<Rightarrow> Some (None, q\<lparr>poff := poff p\<rparr>)
     | Some (majorType, strLen) \<Rightarrow>
         if majorType \<noteq> 3 then Some (None, q\<lparr>poff := poff p\<rparr>)
         else if maxLen - 1 < unat strLen \<or> plen q - poff q < unat strLen
         then Some (None, q\<lparr>poff := poff p\<rparr>)
         else do {
           s \<leftarrow> rd_bytes q (unat strLen);
           let s = s @ [0];
           if length s \<le> maxLen then Some (Some s, q\<lparr>poff := poff q + unat strLen\<rparr>) else None } })"

subsection \<open>skipValue\<close>

text \<open>
  The loops of \<open>skipValue\<close>, over the recursive call \<open>f\<close>. \<open>skip_times n\<close> is
  \<open>for (i = 0; i < n; i++) if (!skipValue(depth + 1)) return false;\<close>. \<open>skip_until k\<close> is the loop
  over an indefinite-length item, \<open>while (offset < length && buffer[offset] != 0xFF)\<close>, with \<open>k\<close>
  calls in its body and the test for the break byte after it; each round consumes a byte, so the
  number of bytes left is enough fuel.
\<close>

type_synonym skipper = "parser \<Rightarrow> (bool \<times> parser) option"

fun skip_times :: "skipper \<Rightarrow> nat \<Rightarrow> skipper" where
  "skip_times f 0 p = Some (True, p)"
| "skip_times f (Suc n) p = do {
     (ok, q) \<leftarrow> f p;
     if ok then skip_times f n q else Some (False, q) }"

fun skip_until :: "skipper \<Rightarrow> nat \<Rightarrow> nat \<Rightarrow> skipper" where
  "skip_until f k 0 p = None"
| "skip_until f k (Suc fuel) p =
     (if plen p \<le> poff p then Some (False, p)
      else do {
        b \<leftarrow> rd p (poff p);
        if b = 0xFF then Some (True, p\<lparr>poff := poff p + 1\<rparr>)
        else do {
          (ok, q) \<leftarrow> skip_times f k p;
          if ok then skip_until f k fuel q else Some (False, q) } })"

definition MAX_CBOR_DEPTH :: nat where
  "MAX_CBOR_DEPTH = 16"

definition MAX_CBOR_ELEMENTS :: nat where
  "MAX_CBOR_ELEMENTS = 256"

text \<open>The body of one call, with the recursive call as a parameter.\<close>

definition skip_body :: "skipper \<Rightarrow> skipper" where
  "skip_body f p =
     (if plen p \<le> poff p then Some (False, p)
      else do {
        b \<leftarrow> rd p (poff p);
        if b = 0xFF then Some (True, p\<lparr>poff := poff p + 1\<rparr>)
        else do {
          (tv, q) \<leftarrow> readTypeAndValue p;
          case tv of
            None \<Rightarrow> Some (False, q)
          | Some (majorType, value) \<Rightarrow>
              if majorType \<in> {0, 1, 7} then Some (True, q)
              else if majorType \<in> {2, 3} then
                (if value = INDEFINITE then skip_until f 1 (plen q - poff q + 1) q
                 else if plen q - poff q < unat value then Some (False, q)
                 else Some (True, q\<lparr>poff := poff q + unat value\<rparr>))
              else if majorType = 4 then
                (if value = INDEFINITE then skip_until f 1 (plen q - poff q + 1) q
                 else if MAX_CBOR_ELEMENTS < unat value then Some (False, q)
                 else skip_times f (unat value) q)
              else if majorType = 5 then
                (if value = INDEFINITE then skip_until f 2 (plen q - poff q + 1) q
                 else if MAX_CBOR_ELEMENTS < unat value then Some (False, q)
                 else skip_times f (unat value * 2) q)
              else Some (False, q) } })"

text \<open>\<open>skip_levels n\<close> is \<open>skipValue(depth)\<close> with \<open>n = MAX_CBOR_DEPTH + 1 - depth\<close>: at \<open>n = 0\<close> the
  guard \<open>depth > MAX_CBOR_DEPTH\<close> holds.\<close>

primrec skip_levels :: "nat \<Rightarrow> skipper" where
  "skip_levels 0 = (\<lambda>p. Some (False, p))"
| "skip_levels (Suc n) = skip_body (skip_levels n)"

definition skipValue :: "nat \<Rightarrow> skipper" where
  "skipValue depth = skip_levels (MAX_CBOR_DEPTH + 1 - depth)"

lemma skipValue_rec:
  "skipValue depth p =
     (if MAX_CBOR_DEPTH < depth then Some (False, p) else skip_body (skipValue (depth + 1)) p)"
  by (cases "MAX_CBOR_DEPTH < depth") (auto simp: skipValue_def Suc_diff_le)

section \<open>The parser never leaves its buffer\<close>

definition pwf :: "parser \<Rightarrow> bool" where
  "pwf p \<longleftrightarrow> poff p \<le> plen p \<and> plen p + 8 < 2 ^ 32"

definition advances :: "parser \<Rightarrow> parser \<Rightarrow> bool" where
  "advances p q \<longleftrightarrow> pbuf q = pbuf p \<and> poff p \<le> poff q \<and> poff q \<le> plen p"

lemma advances_refl [intro]: "pwf p \<Longrightarrow> advances p p"
  by (simp add: advances_def pwf_def)

lemma advances_trans: "advances p q \<Longrightarrow> advances q r \<Longrightarrow> advances p r"
  by (auto simp: advances_def)

lemma advances_pwf: "pwf p \<Longrightarrow> advances p q \<Longrightarrow> pwf q"
  by (auto simp: advances_def pwf_def)

lemma rd_be_ok:
  "poff p + n \<le> plen p \<Longrightarrow> \<exists>v'. rd_be n v p = Some (v', p\<lparr>poff := poff p + n\<rparr>)"
proof (induction n arbitrary: v p)
  case (Suc n)
  then show ?case
    using Suc.IH [of "p\<lparr>poff := poff p + 1\<rparr>"] by (simp add: rd_def)
qed simp

lemma readTypeAndValue_ok:
  assumes "pwf p"
  shows "\<exists>tv q. readTypeAndValue p = Some (tv, q) \<and> advances p q \<and> (tv \<noteq> None \<longrightarrow> poff p < poff q)"
proof -
  have rb: "\<exists>v'. rd_be n 0 (p\<lparr>poff := Suc (poff p)\<rparr>) = Some (v', p\<lparr>poff := Suc (poff p) + n\<rparr>)"
    if "sz (poff p + n) < plen p" "n \<le> 8" for n
  proof -
    have "sz (poff p + n) = poff p + n"
      using that assms by (intro sz_small) (simp add: pwf_def)
    with that show ?thesis
      using rd_be_ok [of "p\<lparr>poff := Suc (poff p)\<rparr>" n 0] by simp
  qed
  have w: "poff p < plen p \<Longrightarrow> \<exists>tv q. readTypeAndValue p = Some (tv, q) \<and> advances p q \<and> poff p < poff q"
    using assms rb [of 1] rb [of 2] rb [of 4] rb [of 8]
    by (simp add: readTypeAndValue_def rd_def Let_def advances_def pwf_def Suc_le_eq not_le)
      (auto simp: sz_small)
  then show ?thesis
    using assms by (cases "poff p < plen p") (auto simp: readTypeAndValue_def)
qed

lemma readTypeAndValue_cases:
  assumes "pwf p"
  obtains (fail) q where "readTypeAndValue p = Some (None, q)" "advances p q" "pwf q"
    | (ok) t v q where "readTypeAndValue p = Some (Some (t, v), q)" "advances p q" "pwf q"
        "poff p < poff q"
proof -
  obtain tv q where r: "readTypeAndValue p = Some (tv, q)" "advances p q"
    "tv \<noteq> None \<longrightarrow> poff p < poff q"
    using readTypeAndValue_ok [OF assms] by blast
  moreover have "pwf q" using assms r(2) by (rule advances_pwf)
  ultimately show thesis using fail ok by (cases tv) auto
qed

lemma readByteString_ok:
  assumes "pwf p"
  shows "\<exists>s q. readByteString maxLen p = Some (s, q) \<and> advances p q \<and>
    (s = None \<longrightarrow> q = p) \<and> (\<forall>b. s = Some b \<longrightarrow> length b \<le> maxLen \<and> poff p < poff q)"
  using assms
proof (cases rule: readTypeAndValue_cases)
  case (fail q)
  then show ?thesis using assms by (auto simp: readByteString_def advances_def pwf_def)
next
  case (ok t v q)
  moreover from ok have "unat v \<le> plen q - poff q \<Longrightarrow> poff q + unat v \<le> plen q"
    by (auto simp: pwf_def)
  ultimately show ?thesis
    using assms by (auto simp: readByteString_def rd_bytes_def advances_def pwf_def not_less)
qed

lemma readTextString_ok:
  assumes "pwf p"
  shows "\<exists>s q. readTextString maxLen p = Some (s, q) \<and> advances p q \<and>
    (s = None \<longrightarrow> q = p) \<and> (\<forall>b. s = Some b \<longrightarrow> length b \<le> maxLen \<and> poff p < poff q)"
  using assms
proof (cases rule: readTypeAndValue_cases)
  case (fail q)
  then show ?thesis using assms by (auto simp: readTextString_def advances_def pwf_def)
next
  case (ok t v q)
  moreover from ok have "unat v \<le> plen q - poff q \<Longrightarrow> poff q + unat v \<le> plen q"
    by (auto simp: pwf_def)
  ultimately show ?thesis
    using assms by (auto simp: readTextString_def rd_bytes_def advances_def pwf_def not_less Let_def)
qed

text \<open>What the loops of \<open>skipValue\<close> need from the recursive call.\<close>

locale skip_contract =
  fixes f :: skipper
  assumes returns: "pwf p \<Longrightarrow> \<exists>ok q. f p = Some (ok, q) \<and> advances p q \<and> (ok \<longrightarrow> poff p < poff q)"
begin

lemma skip_times_ok:
  "pwf p \<Longrightarrow> \<exists>ok q. skip_times f n p = Some (ok, q) \<and> advances p q \<and>
     (ok \<longrightarrow> poff p + n \<le> poff q)"
proof (induction n arbitrary: p)
  case 0
  then show ?case by auto
next
  case (Suc n)
  obtain ok q where f: "f p = Some (ok, q)" "advances p q" "ok \<longrightarrow> poff p < poff q"
    using returns [OF Suc.prems] by blast
  show ?case
  proof (cases ok)
    case True
    have "pwf q" using Suc.prems f(2) by (rule advances_pwf)
    then obtain ok' r where "skip_times f n q = Some (ok', r)" "advances q r"
      "ok' \<longrightarrow> poff q + n \<le> poff r"
      using Suc.IH by blast
    with f True show ?thesis by (auto intro: advances_trans)
  next
    case False
    with f show ?thesis by auto
  qed
qed

lemma skip_until_ok:
  assumes k: "0 < k"
  shows "pwf p \<Longrightarrow> plen p - poff p < fuel \<Longrightarrow>
    \<exists>ok q. skip_until f k fuel p = Some (ok, q) \<and> advances p q \<and> (ok \<longrightarrow> poff p < poff q)"
proof (induction fuel arbitrary: p)
  case 0
  then show ?case by simp
next
  case (Suc fuel)
  obtain ok q where f: "skip_times f k p = Some (ok, q)" "advances p q"
    "ok \<longrightarrow> poff p + k \<le> poff q"
    using skip_times_ok [OF Suc.prems(1)] by blast
  have q: "pwf q" using Suc.prems(1) f(2) by (rule advances_pwf)
  show ?case
  proof (cases "poff p < plen p \<and> pbuf p ! poff p \<noteq> 0xFF \<and> ok")
    case True
    have "plen q - poff q < fuel"
      using True Suc.prems(2) f k by (auto simp: advances_def)
    then obtain ok' r where "skip_until f k fuel q = Some (ok', r)" "advances q r"
      "ok' \<longrightarrow> poff q < poff r"
      using Suc.IH [OF q] by blast
    with f True show ?thesis by (auto simp: rd_def not_le intro: advances_trans)
  next
    case False
    with f Suc.prems(1) show ?thesis
      by (auto simp: rd_def not_le advances_def pwf_def)
  qed
qed

lemma skip_body_ok:
  assumes p: "pwf p"
  shows "\<exists>ok q. skip_body f p = Some (ok, q) \<and> advances p q \<and> (ok \<longrightarrow> poff p < poff q)"
proof (cases "plen p \<le> poff p \<or> pbuf p ! poff p = 0xFF")
  case True
  with p show ?thesis by (auto simp: skip_body_def rd_def advances_def pwf_def)
next
  case False
  from p show ?thesis
  proof (cases rule: readTypeAndValue_cases)
    case (fail q)
    with False show ?thesis by (auto simp: skip_body_def rd_def)
  next
    case (ok t v q)
    define R where "R x \<longleftrightarrow> (\<exists>ok r. x = Some (ok, r) \<and> advances p r \<and> (ok \<longrightarrow> poff p < poff r))"
      for x
    have lift: "R x" if "\<exists>ok r. x = Some (ok, r) \<and> advances q r \<and> (ok \<longrightarrow> poff q \<le> poff r)" for x
      using that ok by (auto simp: advances_def R_def)
    have leaves: "R (Some (b, q))" "R (skip_times f n q)" for b n
      by (rule lift; use skip_times_ok [OF ok(3), of n] ok(3) in force)+
    have until: "R (skip_until f k (plen q - poff q + 1) q)" if "0 < k" for k
      by (rule lift) (use skip_until_ok [OF that ok(3), of "plen q - poff q + 1"] in force)
    have str: "R (Some (True, q\<lparr>poff := poff q + unat v\<rparr>))" if "\<not> plen q - poff q < unat v"
      using that ok by (auto simp: R_def advances_def pwf_def)
    have "R (skip_body f p)"
      using False ok leaves until str
      by (simp add: skip_body_def rd_def del: skip_until.simps split: if_split)
    then show ?thesis by (simp add: R_def)
  qed
qed

end

interpretation skip: skip_contract "skip_levels n" for n
proof (induction n)
  case 0
  show ?case by unfold_locales auto
next
  case (Suc n)
  then show ?case
    by unfold_locales (simp add: skip_contract.skip_body_ok)
qed

section \<open>Encoding\<close>

definition head :: "u8 \<Rightarrow> u64 \<Rightarrow> bytes" where
  "head m v =
     (if v < 24 then [push_bit 5 m OR ucast v]
      else if v \<le> 0xFF then [push_bit 5 m OR 24, ucast v]
      else if v \<le> 0xFFFF then (push_bit 5 m OR 25) # be_bytes 2 v
      else if v \<le> 0xFFFFFFFF then (push_bit 5 m OR 26) # be_bytes 4 v
      else (push_bit 5 m OR 27) # be_bytes 8 v)"

lemma length_be_bytes [simp]: "length (be_bytes n v) = n"
  by (simp add: be_bytes_def)

lemma be_bytes_Suc: "be_bytes (Suc n) v = ucast (drop_bit (8 * n) v AND 255) # be_bytes n v"
  by (simp add: be_bytes_def)

lemma major_bits:
  assumes "m < 8" "x < 32"
  shows "drop_bit 5 (push_bit 5 m OR x) AND 7 = (m :: u8)" "(push_bit 5 m OR x) AND 31 = (x :: u8)"
proof -
  have m: "bit m n \<Longrightarrow> n < 3" for n using bit_imp_small [of m 3 n] assms by simp
  have x: "bit x n \<Longrightarrow> n < 5" for n using bit_imp_small [of x 5 n] assms by simp
  have k: "(7 :: u8) = mask 3" "(31 :: u8) = mask 5"
    by (simp_all add: mask_eq_exp_minus_1)
  show "drop_bit 5 (push_bit 5 m OR x) AND 7 = m"
    unfolding k by (rule bit_word_eqI) (use m x in \<open>auto simp: bit_simps\<close>)
  show "(push_bit 5 m OR x) AND 31 = x"
    unfolding k by (rule bit_word_eqI) (use m x in \<open>auto simp: bit_simps\<close>)
qed

lemma rd_be_bytes:
  assumes "pbuf p = pre @ be_bytes n v @ post" "poff p = length pre" "8 * n \<le> 64"
  shows "rd_be n acc p =
    Some (push_bit (8 * n) acc OR take_bit (8 * n) v, p\<lparr>poff := length pre + n\<rparr>)"
  using assms
proof (induction n arbitrary: acc pre p)
  case 0
  then show ?case by simp
next
  case (Suc n)
  have k: "(255 :: u64) = mask 8" by (simp add: mask_eq_exp_minus_1)
  let ?b = "ucast (drop_bit (8 * n) v AND 255) :: u8"
  have r: "rd p (length pre) = Some ?b"
    using Suc.prems by (simp add: rd_def be_bytes_Suc nth_append)
  have "push_bit (8 * n) (push_bit 8 acc OR ucast ?b) OR take_bit (8 * n) v =
    push_bit (8 * Suc n) acc OR take_bit (8 * Suc n) v"
  proof (rule bit_word_eqI)
    fix i assume "i < LENGTH(64)"
    then show "bit (push_bit (8 * n) (push_bit 8 acc OR ucast ?b) OR take_bit (8 * n) v) i =
      bit (push_bit (8 * Suc n) acc OR take_bit (8 * Suc n) v) i"
      unfolding k using Suc.prems(3)
      by (cases "i < 8 * n"; cases "i < 8 * Suc n") (auto simp: bit_simps add.commute)
  qed
  then show ?case
    using Suc.prems Suc.IH [of "p\<lparr>poff := Suc (poff p)\<rparr>" "pre @ [?b]"]
    by (simp add: r be_bytes_Suc)
qed

lemma length_head: "length (head m v) \<le> 9" "0 < length (head m v)"
  by (simp_all add: head_def)

lemma take_bit_small: "unat v < 2 ^ n \<Longrightarrow> take_bit n (v :: u64) = v"
  by (simp add: word_unat_eq_iff unsigned_take_bit_eq take_bit_nat_eq_self)

lemma ucast_small:
  assumes "unat (v :: u64) < 256"
  shows "ucast (ucast v :: u8) = v" "unat (ucast v :: u8) = unat v"
  using take_bit_small [of v 8] assms by (simp_all add: unsigned_ucast_eq take_bit_nat_eq_self)

lemma head_forms:
  obtains (tiny) "v < 24" "head m v = [push_bit 5 m OR ucast v]"
    | (long) x n where "head m v = (push_bit 5 m OR x) # be_bytes n v"
        "(x, n) \<in> {(24, 1), (25, 2), (26, 4), (27, 8 :: nat)}" "take_bit (8 * n) v = v"
proof -
  have one: "be_bytes (Suc 0) v = [ucast v]" if "v \<le> 0xFF"
  proof -
    have "v AND 255 = take_bit 8 v" by (simp add: take_bit_eq_mask mask_eq_exp_minus_1)
    with that show ?thesis
      by (simp add: be_bytes_def take_bit_small word_le_nat_alt)
  qed
  have full: "take_bit 64 v = v" by (simp add: take_bit_word_beyond_length_eq)
  consider "v < 24" | "\<not> v < 24" "v \<le> 0xFF" | "\<not> v < 24" "\<not> v \<le> 0xFF" "v \<le> 0xFFFF"
    | "\<not> v < 24" "\<not> v \<le> 0xFF" "\<not> v \<le> 0xFFFF" "v \<le> 0xFFFFFFFF"
    | "\<not> v < 24" "\<not> v \<le> 0xFF" "\<not> v \<le> 0xFFFF" "\<not> v \<le> 0xFFFFFFFF"
    by blast
  then show thesis
  proof cases
    case 1
    then show ?thesis by (intro tiny) (simp_all add: head_def)
  next
    case 2
    then show ?thesis
      by (intro long [of 24 1]) (simp_all add: head_def one take_bit_small word_le_nat_alt)
  next
    case 3
    then show ?thesis
      by (intro long [of 25 2]) (simp_all add: head_def take_bit_small word_le_nat_alt)
  next
    case 4
    then show ?thesis
      by (intro long [of 26 4]) (simp_all add: head_def take_bit_small word_le_nat_alt)
  next
    case 5
    then show ?thesis by (intro long [of 27 8]) (simp_all add: head_def full)
  qed
qed

lemma readTypeAndValue_head:
  assumes p: "pbuf p = pre @ head m v @ post" "poff p = length pre" and m: "m < 8"
    and len: "plen p < 2 ^ 32"
  shows "readTypeAndValue p = Some (Some (m, v), p\<lparr>poff := length pre + length (head m v)\<rparr>)"
proof (cases rule: head_forms [of v m])
  case tiny
  have lt: "ucast v < (24 :: u8)" "ucast (ucast v :: u8) = v"
    using tiny(1) ucast_small [of v] by (simp_all add: word_less_nat_alt)
  from lt(1) have "(ucast v :: u8) < 32" by (rule less_trans) simp
  note mb = major_bits [OF m this]
  show ?thesis
    using tiny p lt mb by (simp add: readTypeAndValue_def rd_def nth_append Let_def)
next
  case (long x n)
  then have x: "x < 32" by auto
  let ?q = "p\<lparr>poff := Suc (length pre)\<rparr>"
  have r: "rd_be n 0 ?q = Some (v, p\<lparr>poff := length pre + Suc n\<rparr>)"
    using p long rd_be_bytes [of ?q "pre @ [push_bit 5 m OR x]" n v post 0] by auto
  define ib where "ib = push_bit 5 m OR x"
  have mb: "drop_bit 5 ib AND 7 = m" "ib AND 31 = x"
    unfolding ib_def by (rule major_bits [OF m x])+
  have b: "length pre + n < plen p" "length pre < plen p" "rd p (length pre) = Some ib"
    using p long(1) by (simp_all add: nth_append rd_def ib_def)
  have h: "length (head m v) = Suc n" by (simp add: long(1))
  have szn: "sz (length pre + n) = length pre + n" "sz (n + length pre) = n + length pre"
    using b(1) len by (simp_all add: sz_small add.commute)
  have eq: "readTypeAndValue p =
      map_option (\<lambda>(v, q). (Some (m, v), q)) (rd_be n 0 ?q)"
  proof -
    consider "x = 24" "n = 1" | "x = 25" "n = 2" | "x = 26" "n = 4" | "x = 27" "n = 8"
      using long(2) by auto
    then show ?thesis
      using b(1,2) mb p(2) szn
      by cases (simp_all add: readTypeAndValue_def b(3) Let_def not_le del: rd_be.simps)
  qed
  show ?thesis unfolding eq r h by simp
qed

section \<open>What the encoder writes\<close>

definition ewf :: "encoder \<Rightarrow> bool" where
  "ewf e \<longleftrightarrow> ecap e = length (ebuf e) \<and> eoff e \<le> ecap e \<and> ecap e + 8 < 2 ^ 32"

definition written :: "encoder \<Rightarrow> bytes" where
  "written e = take (eoff e) (ebuf e)"

text \<open>\<open>emits e bs e'\<close>: the bytes \<open>bs\<close> were appended to the output.\<close>

definition emits :: "encoder \<Rightarrow> bytes \<Rightarrow> encoder \<Rightarrow> bool" where
  "emits e bs e' \<longleftrightarrow> ecap e' = ecap e \<and> length (ebuf e') = length (ebuf e)
     \<and> eoff e' = eoff e + length bs \<and> eoff e' \<le> ecap e' \<and> written e' = written e @ bs"

lemma put_all_emits:
  "ewf e \<Longrightarrow> eoff e + length bs \<le> ecap e \<Longrightarrow> \<exists>e'. put_all bs e = Some e' \<and> emits e bs e'"
proof (induction bs arbitrary: e)
  case Nil
  then show ?case by (auto simp: emits_def ewf_def)
next
  case (Cons b bs)
  define e1 where "e1 = e\<lparr>ebuf := (ebuf e)[eoff e := b], eoff := eoff e + 1\<rparr>"
  have p: "put b e = Some e1" using Cons.prems by (simp add: put_def e1_def ewf_def)
  have w: "written e1 = written e @ [b]"
    using Cons.prems by (simp add: written_def e1_def ewf_def take_Suc_conv_app_nth)
  have "ewf e1" "eoff e1 + length bs \<le> ecap e1"
    using Cons.prems by (simp_all add: e1_def ewf_def)
  then obtain e' where "put_all bs e1 = Some e'" "emits e1 bs e'"
    using Cons.IH by blast
  with p w show ?case by (auto simp: emits_def e1_def)
qed

lemma emits_ewf: "ewf e \<Longrightarrow> emits e bs e' \<Longrightarrow> ewf e'"
  by (auto simp: ewf_def emits_def)

text \<open>
  The contract of a write: it returns; it reports success and has appended exactly \<open>enc\<close>, or it
  reports failure and has changed nothing. \<open>may_emit\<close> is the contract at one state.
\<close>

definition may_emit :: "(bool \<times> encoder) option \<Rightarrow> encoder \<Rightarrow> bytes \<Rightarrow> bool" where
  "may_emit r e enc \<longleftrightarrow>
     r = Some (False, e) \<or> (\<exists>e'. r = Some (True, e') \<and> emits e enc e')"

lemma may_emit_fail: "may_emit (Some (False, e)) e enc"
  by (simp add: may_emit_def)

lemma may_emit_put:
  "ewf e \<Longrightarrow> eoff e + length enc \<le> ecap e \<Longrightarrow>
    may_emit (map_option (Pair True) (put_all enc e)) e enc"
  using put_all_emits [of e enc] by (auto simp: may_emit_def)

lemma may_emit_guard:
  assumes "ewf e" "n + 1 < 2 ^ 32" "eoff e + length enc \<le> n + 1"
  shows "may_emit (if ecap e \<le> sz n then Some (False, e)
     else map_option (Pair True) (put_all enc e)) e enc"
proof -
  have "sz n = n" using assms(2) by (intro sz_small) linarith
  with assms show ?thesis by (auto intro: may_emit_fail may_emit_put)
qed

locale write_op =
  fixes w :: "encoder \<Rightarrow> (bool \<times> encoder) option" and enc :: bytes
  assumes writes: "ewf e \<Longrightarrow> ecap e + length enc + 8 < 2 ^ 32 \<Longrightarrow> may_emit (w e) e enc"
begin

lemma in_bounds:
  assumes "ewf e" "ecap e + length enc + 8 < 2 ^ 32"
  obtains ok e' where "w e = Some (ok, e')" "ewf e'" "ecap e' = ecap e"
    "written e' = written e @ (if ok then enc else [])"
proof -
  consider "w e = Some (False, e)" | e' where "w e = Some (True, e')" "emits e enc e'"
    using writes [OF assms] by (auto simp: may_emit_def)
  then show thesis
  proof cases
    case 1
    then show ?thesis using assms(1) by (intro that [of False e]) simp_all
  next
    case 2
    then show ?thesis using assms(1) emits_ewf
      by (intro that [of True e']) (auto simp: emits_def)
  qed
qed

end

text \<open>The rules that walk the decision tree of a writer and of the encoding side by side.\<close>

lemma may_emit_full:
  "(\<not> ecap e \<le> eoff e \<Longrightarrow> may_emit r e enc) \<Longrightarrow>
    may_emit (if ecap e \<le> eoff e then Some (False, e) else r) e enc"
  by (simp add: may_emit_fail)

lemma may_emit_if:
  "(c \<Longrightarrow> may_emit r e enc) \<Longrightarrow> (\<not> c \<Longrightarrow> may_emit r' e enc') \<Longrightarrow>
    may_emit (if c then r else r') e (if c then enc else enc')"
  by simp

lemmas may_emit_rules = may_emit_full may_emit_if may_emit_guard may_emit_put may_emit_fail

lemma head_room:
  assumes "ewf e" "ecap e + length (head m v) + 8 < 2 ^ 32"
  shows "ewf e" "eoff e + 9 < 2 ^ 32" "eoff e \<le> ecap e"
proof -
  have "1 \<le> length (head m v)" using length_head(2) [of m v] by linarith
  with assms show "ewf e" "eoff e + 9 < 2 ^ 32" "eoff e \<le> ecap e"
    unfolding ewf_def by linarith+
qed

interpretation uint_op: write_op "writeUnsignedInt v" "head 0 v" for v
proof
  fix e assume "ewf e" "ecap e + length (head 0 v) + 8 < 2 ^ 32"
  note room = head_room [OF this]
  show "may_emit (writeUnsignedInt v e) e (head 0 v)"
    unfolding writeUnsignedInt_def head_def push_bit_of_0 or.left_neutral
    by (intro may_emit_rules) (use room in auto)
qed

interpretation nint_op: write_op "writeNegativeInt v" "head 1 (- 1 - v)" for v
proof
  fix e assume "ewf e" "ecap e + length (head 1 (- 1 - v)) + 8 < 2 ^ 32"
  note room = head_room [OF this]
  have k: "push_bit 5 1 = (32 :: u8)" by (simp add: push_bit_eq_mult)
  show "may_emit (writeNegativeInt v e) e (head 1 (- 1 - v))"
  proof (cases "0 \<le>s v")
    case True
    then show ?thesis by (simp add: writeNegativeInt_def may_emit_fail)
  next
    case False
    show ?thesis
      unfolding writeNegativeInt_def head_def Let_def k if_not_P [OF False]
      by (intro may_emit_rules) (use room in auto)
  qed
qed

text \<open>A count or a length that fits the header's 16 bits.\<close>

lemma count_word:
  assumes "n < 2 ^ 32"
  shows "(of_nat n :: u64) < 24 \<longleftrightarrow> n < 24" "(of_nat n :: u64) \<le> 0xFF \<longleftrightarrow> n \<le> 0xFF"
    "(of_nat n :: u64) \<le> 0xFFFF \<longleftrightarrow> n \<le> 0xFFFF" "unat (of_nat n :: u64) = n"
proof -
  show u: "unat (of_nat n :: u64) = n"
    using assms by (simp add: unat_of_nat take_bit_nat_eq_self)
  show "(of_nat n :: u64) < 24 \<longleftrightarrow> n < 24" "(of_nat n :: u64) \<le> 0xFF \<longleftrightarrow> n \<le> 0xFF"
    "(of_nat n :: u64) \<le> 0xFFFF \<longleftrightarrow> n \<le> 0xFFFF"
    by (simp_all only: word_less_nat_alt word_le_nat_alt u) simp_all
qed

lemma count_byte:
  assumes "n < 24"
  shows "ucast (of_nat n :: u64) AND 0x1F = (ucast (of_nat n :: u64) :: u8)"
proof -
  have "unat (ucast (of_nat n :: u64) :: u8) = n"
    using assms ucast_small(2) [of "of_nat n"] by (simp add: count_word(4))
  then have "(ucast (of_nat n :: u64) :: u8) < 2 ^ 5"
    using assms by (simp add: word_less_nat_alt)
  from less_mask_eq [OF this] show ?thesis by (simp add: mask_eq_exp_minus_1)
qed

lemma writeMapHeader_tree:
  "writeMapHeader n e =
       (if ecap e \<le> eoff e then Some (False, e)
        else if n < 24 then map_option (Pair True) (put_all [160 OR ucast (of_nat n :: u64)] e)
        else if n \<le> 0xFF then
          (if ecap e \<le> sz (eoff e + 1) then Some (False, e)
           else map_option (Pair True) (put_all [160 OR 24, ucast (of_nat n :: u64)] e))
        else if n \<le> 0xFFFF then
          (if ecap e \<le> sz (eoff e + 2) then Some (False, e)
           else map_option (Pair True) (put_all ((160 OR 25) # be_bytes 2 (of_nat n)) e))
        else Some (False, e))"
  unfolding writeMapHeader_def Let_def by (simp add: count_byte del: put_all.simps)

interpretation map_op: write_op "writeMapHeader n" "head 5 (of_nat n)" for n
proof
  fix e assume a: "ewf e" "ecap e + length (head 5 (of_nat n)) + 8 < 2 ^ 32"
  note room = head_room [OF a]
  show "may_emit (writeMapHeader n e) e (head 5 (of_nat n))"
  proof (cases "n \<le> 0xFFFF")
    case False
    then show ?thesis by (simp add: writeMapHeader_def Let_def may_emit_fail)
  next
    case True
    then have n: "n < 2 ^ 32" by simp
    have k: "push_bit 5 5 = (160 :: u8)" by (simp add: push_bit_eq_mult)
    show ?thesis
      unfolding writeMapHeader_tree head_def count_word [OF n] k
      using True by (intro may_emit_rules) (use room in auto)
  qed
qed

interpretation array_op: write_op "writeArrayHeader n" "head 4 (of_nat n)" for n
proof
  fix e assume a: "ewf e" "ecap e + length (head 4 (of_nat n)) + 8 < 2 ^ 32"
  note room = head_room [OF a]
  show "may_emit (writeArrayHeader n e) e (head 4 (of_nat n))"
  proof (cases "n \<le> 0xFF")
    case False
    then show ?thesis by (simp add: writeArrayHeader_def Let_def may_emit_fail)
  next
    case True
    then have n: "n < 2 ^ 32" by simp
    have k: "push_bit 5 4 = (128 :: u8)" by (simp add: push_bit_eq_mult)
    show ?thesis
      unfolding writeArrayHeader_def Let_def head_def count_word [OF n] k
      using True by (intro may_emit_rules) (use room in auto)
  qed
qed

text \<open>The string writers test for three bytes more than the data.\<close>

lemma may_emit_string:
  assumes a: "ewf e" "ecap e + length (head m (of_nat (length d)) @ d) + 8 < 2 ^ 32"
    and c: "length d < 2 ^ 16" and n: "sz (eoff e + length d + 3) < ecap e"
  shows "may_emit (map_option (Pair True) (put_all (head m (of_nat (length d)) @ d) e)) e
     (head m (of_nat (length d)) @ d)"
proof -
  have l: "length (head m (of_nat (length d))) \<le> 3"
    using c count_word [of "length d"] by (simp add: head_def)
  have "eoff e + length d + 3 < 2 ^ 32"
    using head_room [OF a(1), of m "of_nat (length d)"] a l by (simp add: ewf_def)
  then have "eoff e + length d + 3 < ecap e" using n by (simp only: sz_small)
  with a(1) l show ?thesis by (intro may_emit_put) auto
qed

interpretation bytes_op: write_op "writeByteString d" "head 2 (of_nat (length d)) @ d" for d
proof
  fix e assume a: "ewf e" "ecap e + length (head 2 (of_nat (length d)) @ d) + 8 < 2 ^ 32"
  have k: "push_bit 5 2 = (64 :: u8)" by (simp add: push_bit_eq_mult)
  show "may_emit (writeByteString d e) e (head 2 (of_nat (length d)) @ d)"
  proof (cases "length d \<le> 0xFFFF \<and> sz (eoff e + length d + 3) < ecap e")
    case False
    then show ?thesis by (auto simp: writeByteString_def Let_def may_emit_fail)
  next
    case True
    then have n: "length d < 2 ^ 32" "length d < 2 ^ 16" by simp_all
    have "writeByteString d e =
        map_option (Pair True) (put_all (head 2 (of_nat (length d)) @ d) e)"
      unfolding writeByteString_def Let_def head_def count_word [OF n(1)] k
      using True count_byte [of "length d"] by (simp del: put_all.simps)
    with may_emit_string [OF a n(2)] True show ?thesis by simp
  qed
qed

interpretation text_op: write_op "writeTextString d" "head 3 (of_nat (length d)) @ d" for d
proof
  fix e assume a: "ewf e" "ecap e + length (head 3 (of_nat (length d)) @ d) + 8 < 2 ^ 32"
  have k: "push_bit 5 3 = (96 :: u8)" by (simp add: push_bit_eq_mult)
  show "may_emit (writeTextString d e) e (head 3 (of_nat (length d)) @ d)"
  proof (cases "length d \<le> 0xFF \<and> sz (eoff e + length d + 3) < ecap e")
    case False
    then show ?thesis
      by (auto simp: writeTextString_def Let_def may_emit_fail eval_nat_numeral)
  next
    case True
    then have n: "length d < 2 ^ 32" "length d < 2 ^ 16" by simp_all
    have "sz (eoff e + 1 + length d + 2) = sz (eoff e + length d + 3)"
      by (rule arg_cong [of _ _ sz]) simp
    then have "writeTextString d e =
        map_option (Pair True) (put_all (head 3 (of_nat (length d)) @ d) e)"
      unfolding writeTextString_def Let_def head_def count_word [OF n(1)] k
      using True count_byte [of "length d"] by (simp del: put_all.simps)
    with may_emit_string [OF a n(2)] True show ?thesis by simp
  qed
qed

interpretation bool_op: write_op "writeBoolean b" "[if b then 0xF5 else 0xF4]" for b
proof
  fix e assume "ewf e"
  then show "may_emit (writeBoolean b e) e [if b then 0xF5 else 0xF4]"
    using may_emit_put [of e "[0xF5]"] may_emit_put [of e "[0xF4]"]
    by (cases b) (auto simp: writeBoolean_def may_emit_fail ewf_def simp del: put_all.simps)
qed

interpretation null_op: write_op writeNull "[0xF6]"
proof
  fix e assume "ewf e"
  then show "may_emit (writeNull e) e [0xF6]"
    using may_emit_put [of e "[0xF6]"]
    by (auto simp: writeNull_def may_emit_fail ewf_def simp del: put_all.simps)
qed

section \<open>Data items\<close>

text \<open>
  The abstract view of a message: the CBOR data items the encoder can produce, their encoding and
  their nesting depth. A map is a list of key/value pairs, in the order they are written.
\<close>

datatype item =
    CUInt u64
  | CNInt u64
  | CBytes bytes
  | CText bytes
  | CArray "item list"
  | CMap "(item \<times> item) list"
  | CBool bool
  | CNull

fun encode :: "item \<Rightarrow> bytes" where
  "encode (CUInt v) = head 0 v"
| "encode (CNInt v) = head 1 v"
| "encode (CBytes b) = head 2 (of_nat (length b)) @ b"
| "encode (CText b) = head 3 (of_nat (length b)) @ b"
| "encode (CArray xs) = head 4 (of_nat (length xs)) @ concat (map encode xs)"
| "encode (CMap kvs) = head 5 (of_nat (length kvs)) @
     concat (map (\<lambda>(k, v). encode k @ encode v) kvs)"
| "encode (CBool b) = [if b then 0xF5 else 0xF4]"
| "encode CNull = [0xF6]"

text \<open>Accepted at \<open>n\<close> more levels: nested at most \<open>n\<close> deep, at most 256 elements per container.\<close>

fun fits_levels :: "nat \<Rightarrow> item \<Rightarrow> bool" where
  "fits_levels 0 _ = False"
| "fits_levels (Suc n) (CArray xs) \<longleftrightarrow>
     length xs \<le> MAX_CBOR_ELEMENTS \<and> (\<forall>x \<in> set xs. fits_levels n x)"
| "fits_levels (Suc n) (CMap kvs) \<longleftrightarrow>
     length kvs \<le> MAX_CBOR_ELEMENTS \<and> (\<forall>(k, v) \<in> set kvs. fits_levels n k \<and> fits_levels n v)"
| "fits_levels (Suc n) _ \<longleftrightarrow> True"

text \<open>\<open>skips f x\<close>: wherever the encoding of \<open>x\<close> stands, \<open>f\<close> steps over exactly it.\<close>

definition skips :: "skipper \<Rightarrow> bytes \<Rightarrow> bool" where
  "skips f enc \<longleftrightarrow> (\<forall>p pre post. pbuf p = pre @ enc @ post \<longrightarrow> poff p = length pre \<longrightarrow>
     plen p < 2 ^ 32 \<longrightarrow> f p = Some (True, p\<lparr>poff := length pre + length enc\<rparr>))"

lemma skipsD:
  "skips f enc \<Longrightarrow> pbuf p = pre @ enc @ post \<Longrightarrow> poff p = length pre \<Longrightarrow>
    plen p < 2 ^ 32 \<Longrightarrow> f p = Some (True, p\<lparr>poff := length pre + length enc\<rparr>)"
  by (auto simp: skips_def)

lemma skips_append:
  assumes "\<forall>enc \<in> set encs. skips f enc"
  shows "skips (skip_times f (length encs)) (concat encs)"
  using assms
proof (induction encs)
  case Nil
  then show ?case by (auto simp: skips_def)
next
  case (Cons e es)
  show ?case unfolding skips_def
  proof (intro allI impI)
    fix p pre post
    assume p: "pbuf p = pre @ concat (e # es) @ post" "poff p = length pre" "plen p < 2 ^ 32"
    let ?q = "p\<lparr>poff := length pre + length e\<rparr>"
    have "f p = Some (True, ?q)" using Cons.prems p by (auto simp: skips_def)
    moreover have "skip_times f (length es) ?q =
        Some (True, ?q\<lparr>poff := length (pre @ e) + length (concat es)\<rparr>)"
      using Cons.IH Cons.prems p by (intro skipsD [of _ _ _ "pre @ e" post]) auto
    ultimately show "skip_times f (length (e # es)) p =
        Some (True, p\<lparr>poff := length pre + length (concat (e # es))\<rparr>)"
      by (simp add: add.assoc)
  qed
qed

lemma head_first:
  assumes "m < 7" obtains b bs where "head m v = b # bs" "b \<noteq> 0xFF"
proof -
  have nb: "push_bit 5 m OR x \<noteq> 0xFF" if "x < 32" for x
  proof
    assume "push_bit 5 m OR x = 0xFF"
    moreover have "m < 8" by (rule less_trans [OF assms]) simp
    ultimately have "drop_bit 5 0xFF AND 7 = m"
      using major_bits(1) [of m x] that by simp
    with assms show False by auto
  qed
  show thesis
  proof (cases rule: head_forms [of v m])
    case tiny
    have "(ucast v :: u8) < 32"
      using tiny(1) ucast_small(2) [of v] by (simp add: word_less_nat_alt)
    with tiny nb show ?thesis by (intro that [of "push_bit 5 m OR ucast v" "[]"]) auto
  next
    case (long x n)
    then show ?thesis by (intro that [of "push_bit 5 m OR x"] nb) auto
  qed
qed

lemma head_not_indefinite:
  "length b < 2 ^ 32 \<Longrightarrow> (of_nat (length b) :: u64) \<noteq> INDEFINITE"
  using count_word(4) [of "length b"] by (auto simp: INDEFINITE_def)

text \<open>The first steps of \<open>skipValue\<close> on an item that starts with \<open>head m v\<close>.\<close>

lemma skip_body_head:
  assumes p: "pbuf p = pre @ head m v @ post" "poff p = length pre" "plen p < 2 ^ 32"
    and m: "m < 7"
  defines "q \<equiv> p\<lparr>poff := length pre + length (head m v)\<rparr>"
  shows "skip_body f p =
    (if m \<in> {0, 1, 7} then Some (True, q)
     else if m \<in> {2, 3} then
       (if v = INDEFINITE then skip_until f 1 (plen q - poff q + 1) q
        else if plen q - poff q < unat v then Some (False, q)
        else Some (True, q\<lparr>poff := poff q + unat v\<rparr>))
     else if m = 4 then
       (if v = INDEFINITE then skip_until f 1 (plen q - poff q + 1) q
        else if MAX_CBOR_ELEMENTS < unat v then Some (False, q)
        else skip_times f (unat v) q)
     else if m = 5 then
       (if v = INDEFINITE then skip_until f 2 (plen q - poff q + 1) q
        else if MAX_CBOR_ELEMENTS < unat v then Some (False, q)
        else skip_times f (unat v * 2) q)
     else Some (False, q))"
proof -
  obtain b bs where b: "head m v = b # bs" "b \<noteq> 0xFF"
    using head_first [OF m] by blast
  have "rd p (poff p) = Some b" "poff p < plen p"
    using p b(1) by (simp_all add: rd_def nth_append)
  moreover have "readTypeAndValue p = Some (Some (m, v), q)"
    unfolding q_def using m p by (intro readTypeAndValue_head) (auto intro: less_trans)
  ultimately show ?thesis
    using b(2) unfolding skip_body_def by (simp del: skip_until.simps)
qed

lemma skip_body_simple:
  assumes p: "pbuf p = pre @ b # post" "poff p = length pre" "plen p < 2 ^ 32"
    and b: "[b] = head 7 v" "b \<noteq> 0xFF"
  shows "skip_body f p = Some (True, p\<lparr>poff := length pre + 1\<rparr>)"
proof -
  have "readTypeAndValue p = Some (Some (7, v), p\<lparr>poff := length pre + 1\<rparr>)"
    using readTypeAndValue_head [of p pre 7 v post] p b(1) [symmetric] by simp
  moreover have "rd p (poff p) = Some b" "poff p < plen p"
    using p by (simp_all add: rd_def nth_append)
  ultimately show ?thesis
    using b(2) unfolding skip_body_def by (simp del: skip_until.simps)
qed

lemma skips_item: "fits_levels n x \<Longrightarrow> skips (skip_levels n) (encode x)"
proof (induction n arbitrary: x)
  case 0
  then show ?case by simp
next
  case (Suc n)
  let ?f = "skip_levels n"
  show ?case unfolding skips_def
  proof (intro allI impI)
    fix p pre post
    assume p: "pbuf p = pre @ encode x @ post" "poff p = length pre" "plen p < 2 ^ 32"
    note hd = skip_body_head [of p pre _ _ _ ?f, OF _ p(2,3)]
    show "skip_levels (Suc n) p = Some (True, p\<lparr>poff := length pre + length (encode x)\<rparr>)"
    proof (cases x)
      case (CUInt v)
      then show ?thesis using hd [of 0 v post] p by simp
    next
      case (CNInt v)
      then show ?thesis using hd [of 1 v post] p by simp
    next
      case (CBytes b)
      then have "length b < 2 ^ 32" using p by simp
      then show ?thesis
        using CBytes hd [of 2 "of_nat (length b)" "b @ post"] p
          head_not_indefinite [of b] count_word(4) [of "length b"] by (simp add: add.assoc)
    next
      case (CText b)
      then have "length b < 2 ^ 32" using p by simp
      then show ?thesis
        using CText hd [of 3 "of_nat (length b)" "b @ post"] p
          head_not_indefinite [of b] count_word(4) [of "length b"] by (simp add: add.assoc)
    next
      case (CArray xs)
      let ?h = "head 4 (of_nat (length xs))"
      have l: "length xs \<le> 256" using Suc.prems CArray by (simp add: MAX_CBOR_ELEMENTS_def)
      have "skips (skip_times ?f (length (map encode xs))) (concat (map encode xs))"
        using Suc.prems CArray by (intro skips_append) (auto intro: Suc.IH)
      then have "skip_times ?f (length xs) (p\<lparr>poff := length pre + length ?h\<rparr>) =
          Some (True, p\<lparr>poff := length pre + length (encode x)\<rparr>)"
        using skipsD [of _ _ "p\<lparr>poff := length pre + length ?h\<rparr>" "pre @ ?h" post] p CArray
        by (simp add: add.assoc)
      then show ?thesis
        using CArray hd [of 4 "of_nat (length xs)" "concat (map encode xs) @ post"] p l
          head_not_indefinite [of xs] count_word(4) [of "length xs"]
        by (simp add: MAX_CBOR_ELEMENTS_def)
    next
      case (CMap kvs)
      let ?h = "head 5 (of_nat (length kvs))"
      let ?encs = "concat (map (\<lambda>(k, v). [encode k, encode v]) kvs)"
      have l: "length kvs \<le> 256" using Suc.prems CMap by (simp add: MAX_CBOR_ELEMENTS_def)
      have e: "length ?encs = length kvs * 2"
        "concat ?encs = concat (map (\<lambda>(k, v). encode k @ encode v) kvs)"
        by (induction kvs) auto
      have "skips (skip_times ?f (length ?encs)) (concat ?encs)"
        using Suc.prems CMap by (intro skips_append) (auto intro: Suc.IH)
      then have "skip_times ?f (length kvs * 2) (p\<lparr>poff := length pre + length ?h\<rparr>) =
          Some (True, p\<lparr>poff := length pre + length (encode x)\<rparr>)"
        using skipsD [of _ _ "p\<lparr>poff := length pre + length ?h\<rparr>" "pre @ ?h" post] p CMap
        unfolding e by (simp add: add.assoc)
      then show ?thesis
        using CMap hd [of 5 "of_nat (length kvs)"
            "concat (map (\<lambda>(k, v). encode k @ encode v) kvs) @ post"] p l
          head_not_indefinite [of kvs] count_word(4) [of "length kvs"]
        by (simp add: MAX_CBOR_ELEMENTS_def)
    next
      case (CBool b)
      have "head 7 21 = [0xF5]" "head 7 20 = [0xF4]" by (simp_all add: head_def push_bit_eq_mult)
      then show ?thesis
        using CBool p skip_body_simple [of p pre "0xF5" post 21]
          skip_body_simple [of p pre "0xF4" post 20]
        by (cases b) simp_all
    next
      case CNull
      have "head 7 22 = [0xF6]" by (simp add: head_def push_bit_eq_mult)
      then show ?thesis using CNull p skip_body_simple [of p pre "0xF6" post 22] by simp
    qed
  qed
qed


section \<open>Reading back what was written\<close>

lemma readByteString_encode:
  assumes p: "pbuf p = pre @ encode (CBytes b) @ post" "poff p = length pre" "plen p < 2 ^ 32"
    and m: "length b \<le> maxLen"
  shows "readByteString maxLen p =
    Some (Some b, p\<lparr>poff := length pre + length (encode (CBytes b))\<rparr>)"
proof -
  let ?h = "head 2 (of_nat (length b))"
  have "length b < 2 ^ 32" using p by simp
  then have u: "unat (of_nat (length b) :: u64) = length b" by (rule count_word(4))
  have "readTypeAndValue p =
      Some (Some (2, of_nat (length b)), p\<lparr>poff := length pre + length ?h\<rparr>)"
    using readTypeAndValue_head [of p pre 2 "of_nat (length b)" "b @ post"] p by simp
  then show ?thesis
    using p m by (simp add: readByteString_def rd_bytes_def u add.assoc)
qed

lemma readTextString_encode:
  assumes p: "pbuf p = pre @ encode (CText b) @ post" "poff p = length pre" "plen p < 2 ^ 32"
    and m: "length b < maxLen"
  shows "readTextString maxLen p =
    Some (Some (b @ [0]), p\<lparr>poff := length pre + length (encode (CText b))\<rparr>)"
proof -
  let ?h = "head 3 (of_nat (length b))"
  have "length b < 2 ^ 32" using p by simp
  then have u: "unat (of_nat (length b) :: u64) = length b" by (rule count_word(4))
  have "readTypeAndValue p =
      Some (Some (3, of_nat (length b)), p\<lparr>poff := length pre + length ?h\<rparr>)"
    using readTypeAndValue_head [of p pre 3 "of_nat (length b)" "b @ post"] p by simp
  then show ?thesis
    using p m by (simp add: readTextString_def rd_bytes_def u add.assoc Let_def)
qed

section \<open>Sessions of writes\<close>

text \<open>A sequence of calls of the encoder's methods, with the results they return.\<close>

datatype write_call =
    WUInt u64 | WNInt i64 | WMap nat | WArray nat | WBytes bytes | WText bytes | WBool bool | WNull

fun run_call :: "write_call \<Rightarrow> encoder \<Rightarrow> (bool \<times> encoder) option" where
  "run_call (WUInt v) = writeUnsignedInt v"
| "run_call (WNInt v) = writeNegativeInt v"
| "run_call (WMap n) = writeMapHeader n"
| "run_call (WArray n) = writeArrayHeader n"
| "run_call (WBytes b) = writeByteString b"
| "run_call (WText b) = writeTextString b"
| "run_call (WBool b) = writeBoolean b"
| "run_call WNull = writeNull"

fun call_enc :: "write_call \<Rightarrow> bytes" where
  "call_enc (WUInt v) = head 0 v"
| "call_enc (WNInt v) = head 1 (- 1 - v)"
| "call_enc (WMap n) = head 5 (of_nat n)"
| "call_enc (WArray n) = head 4 (of_nat n)"
| "call_enc (WBytes b) = head 2 (of_nat (length b)) @ b"
| "call_enc (WText b) = head 3 (of_nat (length b)) @ b"
| "call_enc (WBool b) = [if b then 0xF5 else 0xF4]"
| "call_enc WNull = [0xF6]"

fun run_calls :: "write_call list \<Rightarrow> encoder \<Rightarrow> (bool list \<times> encoder) option" where
  "run_calls [] e = Some ([], e)"
| "run_calls (c # cs) e = do {
     (ok, e) \<leftarrow> run_call c e;
     (oks, e) \<leftarrow> run_calls cs e;
     Some (ok # oks, e) }"

interpretation call_op: write_op "run_call c" "call_enc c" for c
proof
  fix e assume "ewf e" "ecap e + length (call_enc c) + 8 < 2 ^ 32"
  then show "may_emit (run_call c e) e (call_enc c)"
    by (cases c)
      (simp_all only: run_call.simps call_enc.simps uint_op.writes nint_op.writes map_op.writes
        array_op.writes bytes_op.writes text_op.writes bool_op.writes null_op.writes)
qed

lemma run_calls_ok:
  assumes "ewf e" "\<forall>c \<in> set cs. ecap e + length (call_enc c) + 8 < 2 ^ 32"
  shows "\<exists>oks e'. run_calls cs e = Some (oks, e') \<and> ewf e' \<and> ecap e' = ecap e \<and>
    length oks = length cs \<and>
    written e' = written e @ concat (map2 (\<lambda>ok c. if ok then call_enc c else []) oks cs)"
  using assms
proof (induction cs arbitrary: e)
  case Nil
  then show ?case by simp
next
  case (Cons c cs)
  obtain ok e1 where c: "run_call c e = Some (ok, e1)" "ewf e1" "ecap e1 = ecap e"
    "written e1 = written e @ (if ok then call_enc c else [])"
    using call_op.in_bounds [of e c] Cons.prems by auto
  obtain oks e2 where cs: "run_calls cs e1 = Some (oks, e2)" "ewf e2" "ecap e2 = ecap e1"
    "length oks = length cs"
    "written e2 = written e1 @ concat (map2 (\<lambda>ok c. if ok then call_enc c else []) oks cs)"
    using Cons.IH [OF c(2)] Cons.prems c(3) by auto
  show ?case
    by (rule exI [of _ "ok # oks"], rule exI [of _ e2]) (simp add: c cs)
qed

text \<open>The calls that write an item: headers before contents, keys before values.\<close>

fun calls :: "item \<Rightarrow> write_call list" where
  "calls (CUInt v) = [WUInt v]"
| "calls (CNInt v) = [WNInt (- 1 - v)]"
| "calls (CBytes b) = [WBytes b]"
| "calls (CText b) = [WText b]"
| "calls (CArray xs) = WArray (length xs) # concat (map calls xs)"
| "calls (CMap kvs) = WMap (length kvs) # concat (map (\<lambda>(k, v). calls k @ calls v) kvs)"
| "calls (CBool b) = [WBool b]"
| "calls CNull = [WNull]"

lemma concat_map_concat:
  "(\<And>x. x \<in> set xs \<Longrightarrow> concat (map f (g x)) = h x) \<Longrightarrow>
    concat (map f (concat (map g xs))) = concat (map h xs)"
  by (induction xs) auto

lemma calls_encode: "concat (map call_enc (calls x)) = encode x"
proof (induction x rule: encode.induct)
  case (6 kvs)
  then show ?case by (auto intro!: concat_map_concat)
next
  case (5 xs)
  then show ?case by (auto intro!: concat_map_concat)
qed auto

lemma map2_all_true:
  "length oks = length cs \<Longrightarrow> \<forall>ok \<in> set oks. ok \<Longrightarrow>
    map2 (\<lambda>ok c. if ok then f c else []) oks cs = map f cs"
  by (induction oks cs rule: list_induct2) auto

lemma write_calls_skip:
  assumes run: "run_calls (calls x) (new_encoder buf) = Some (oks, e)" "\<forall>ok \<in> set oks. ok"
    and x: "fits_levels (MAX_CBOR_DEPTH + 1) x" and len: "length buf + length (encode x) + 8 < 2 ^ 32"
  shows "take (eoff e) (ebuf e) = encode x \<and>
    skipValue 0 (new_parser (ebuf e)) = Some (True, \<lparr>pbuf = ebuf e, poff = eoff e\<rparr>)"
proof -
  have "length (call_enc c) \<le> length (encode x)" if "c \<in> set (calls x)" for c
    using that member_le_sum_list [of "length (call_enc c)" "map length (map call_enc (calls x))"]
    unfolding calls_encode [of x, symmetric] by (auto simp: length_concat)
  then have small: "\<forall>c \<in> set (calls x). ecap (new_encoder buf) + length (call_enc c) + 8 < 2 ^ 32"
    using len by (fastforce simp: new_encoder_def)
  have wf: "ewf (new_encoder buf)" using len by (simp add: ewf_def new_encoder_def)
  have e: "ewf e" "length oks = length (calls x)" "ecap e = length buf"
    "written e = concat (map2 (\<lambda>ok c. if ok then call_enc c else []) oks (calls x))"
    using run_calls_ok [OF wf small] run(1) by (auto simp: new_encoder_def written_def)
  then have w: "take (eoff e) (ebuf e) = encode x"
    using run(2) by (simp add: map2_all_true calls_encode written_def)
  moreover have "eoff e = length (encode x)"
    using e(1) w [symmetric] by (simp add: ewf_def)
  moreover have "ebuf e = [] @ encode x @ drop (eoff e) (ebuf e)"
    by (simp add: w [symmetric])
  moreover have "length (ebuf e) < 2 ^ 32" using e(1,3) len by (simp add: ewf_def)
  ultimately show ?thesis
    using skipsD [OF skips_item [OF x], of "new_parser (ebuf e)" "[]" "drop (eoff e) (ebuf e)"]
    by (simp add: skipValue_def new_parser_def)
qed

section \<open>Properties\<close>

text \<open>
  C16: skipping a value is memory safe and terminates on every input: at any nesting depth, on any
  buffer, the call returns, it has read inside the buffer only, it leaves the offset inside the
  buffer, and a successful skip consumes at least one byte.
\<close>

theorem skipValue_safe:
  assumes "poff p \<le> plen p" "plen p + 8 < 2 ^ 32"
  shows "\<exists>ok q. skipValue depth p = Some (ok, q) \<and> pbuf q = pbuf p \<and>
    poff p \<le> poff q \<and> poff q \<le> plen p \<and> (ok \<longrightarrow> poff p < poff q)"
  using skip.returns [of p] assms by (simp add: skipValue_def pwf_def advances_def)

theorem skipValue_safe_witness:
  "\<exists>ok q. skipValue 0 (new_parser [0x9F, 0x82, 1]) = Some (ok, q) \<and>
    pbuf q = [0x9F, 0x82, 1] \<and> poff q \<le> 3"
  using skipValue_safe [of "new_parser [0x9F, 0x82, 1]" 0] by (auto simp: new_parser_def)

text \<open>
  C15: on the encoding of a data item, placed anywhere in a message, \<open>skipValue\<close> succeeds and stops
  exactly at the item's last byte, for items nested at most 17 deep with at most 256 elements per
  container (the limits \<open>MAX_CBOR_DEPTH\<close> and \<open>MAX_CBOR_ELEMENTS\<close>).
\<close>

theorem skipValue_exact:
  assumes "fits_levels (MAX_CBOR_DEPTH + 1) x" "length (pre @ encode x @ post) < 2 ^ 32"
  shows "skipValue 0 \<lparr>pbuf = pre @ encode x @ post, poff = length pre\<rparr> =
    Some (True, \<lparr>pbuf = pre @ encode x @ post, poff = length pre + length (encode x)\<rparr>)"
  using skipsD [OF skips_item [OF assms(1)], of "\<lparr>pbuf = pre @ encode x @ post, poff = length pre\<rparr>"]
    assms(2) by (simp add: skipValue_def)

theorem skipValue_exact_witness:
  "skipValue 0 \<lparr>pbuf = [7] @ encode (CMap [(CUInt 1, CArray [CNull, CText [65]])]) @ [9], poff = 1\<rparr> =
    Some (True, \<lparr>pbuf = [7] @ encode (CMap [(CUInt 1, CArray [CNull, CText [65]])]) @ [9], poff = 7\<rparr>)"
proof -
  let ?x = "CMap [(CUInt 1, CArray [CNull, CText [65]])]"
  have "fits_levels (MAX_CBOR_DEPTH + 1) ?x" by code_simp
  moreover have "length (encode ?x) = 6" by code_simp
  ultimately show ?thesis using skipValue_exact [of ?x "[7]" "[9]"] by (simp del: encode.simps)
qed

text \<open>
  C17: any sequence of encoder calls on a fresh buffer returns without writing outside it, and the
  bytes written are, in order, the encodings of exactly the calls that reported success.
\<close>

theorem encoder_session:
  assumes "length buf + 8 < 2 ^ 32" "\<forall>c \<in> set cs. length buf + length (call_enc c) + 8 < 2 ^ 32"
  shows "\<exists>oks e. run_calls cs (new_encoder buf) = Some (oks, e) \<and>
    length oks = length cs \<and> length (ebuf e) = length buf \<and> eoff e \<le> length buf \<and>
    take (eoff e) (ebuf e) = concat (map2 (\<lambda>ok c. if ok then call_enc c else []) oks cs)"
  using run_calls_ok [of "new_encoder buf" cs] assms
  by (fastforce simp: ewf_def new_encoder_def written_def)

theorem encoder_session_witness:
  "\<exists>oks e. run_calls [WMap 1, WUInt 300, WBytes [1, 2]] (new_encoder (replicate 5 0)) = Some (oks, e) \<and>
    length oks = 3 \<and> eoff e \<le> 5"
  using encoder_session [of "replicate 5 0" "[WMap 1, WUInt 300, WBytes [1, 2]]"]
  by (force simp: head_def)

text \<open>
  writing an item and skipping it are inverse: when every call that writes the item succeeds,
  the buffer starts with the item's encoding and \<open>skipValue\<close> on it consumes all that was written.
\<close>

theorem write_skip_roundtrip:
  assumes "run_calls (calls x) (new_encoder buf) = Some (oks, e)" "\<forall>ok \<in> set oks. ok"
    and "fits_levels (MAX_CBOR_DEPTH + 1) x" "length buf + length (encode x) + 8 < 2 ^ 32"
  shows "take (eoff e) (ebuf e) = encode x \<and>
    skipValue 0 (new_parser (ebuf e)) = Some (True, \<lparr>pbuf = ebuf e, poff = eoff e\<rparr>)"
  using write_calls_skip [OF assms] .

theorem write_skip_roundtrip_witness:
  "skipValue 0 (new_parser [0x82, 0x18, 0x64, 0xF6, 0]) =
    Some (True, \<lparr>pbuf = [0x82, 0x18, 0x64, 0xF6, 0], poff = 4\<rparr>)"
proof -
  have "run_calls (calls (CArray [CUInt 100, CNull])) (new_encoder [0, 0, 0, 0, 0]) =
      Some ([True, True, True], \<lparr>ebuf = [0x82, 0x18, 0x64, 0xF6, 0], ecap = 5, eoff = 4\<rparr>)"
    by code_simp
  moreover have "fits_levels (MAX_CBOR_DEPTH + 1) (CArray [CUInt 100, CNull])" by code_simp
  moreover have "length (encode (CArray [CUInt 100, CNull])) = 4" by code_simp
  ultimately show ?thesis
    using write_skip_roundtrip [of "CArray [CUInt 100, CNull]" "[0, 0, 0, 0, 0]" "[True, True, True]"
        "\<lparr>ebuf = [0x82, 0x18, 0x64, 0xF6, 0], ecap = 5, eoff = 4\<rparr>"]
    by (simp del: encode.simps calls.simps)
qed

text \<open>
  What a read method is given back is what the write method was given: the parser returns the
  type and value of a header, the bytes of a byte string that fits the destination and the bytes
  and terminating NUL of a text string that fits, and stops right behind the item.
\<close>

theorem read_back:
  assumes "plen p < 2 ^ 32" "poff p = length pre"
  shows "(m < 8 \<and> pbuf p = pre @ head m v @ post \<longrightarrow>
      readTypeAndValue p = Some (Some (m, v), p\<lparr>poff := length pre + length (head m v)\<rparr>)) \<and>
    (length b \<le> n \<and> pbuf p = pre @ encode (CBytes b) @ post \<longrightarrow>
      readByteString n p = Some (Some b, p\<lparr>poff := length pre + length (encode (CBytes b))\<rparr>)) \<and>
    (length b < n \<and> pbuf p = pre @ encode (CText b) @ post \<longrightarrow>
      readTextString n p = Some (Some (b @ [0]), p\<lparr>poff := length pre + length (encode (CText b))\<rparr>))"
  using assms readTypeAndValue_head [of p pre m v post] readByteString_encode [of p pre b post n]
    readTextString_encode [of p pre b post n] by blast

theorem read_back_witness:
  "readTextString 4 (new_parser [0x62, 0x6F, 0x6B]) =
    Some (Some [0x6F, 0x6B, 0], \<lparr>pbuf = [0x62, 0x6F, 0x6B], poff = 3\<rparr>)"
proof -
  have "encode (CText [0x6F, 0x6B]) = [0x62, 0x6F, 0x6B]" by code_simp
  then show ?thesis
    using read_back [of "new_parser [0x62, 0x6F, 0x6B]" "[]" 0 0 "[]" "[0x6F, 0x6B]" 4]
    by (simp add: new_parser_def)
qed

text \<open>
  The string readers are memory safe: on any buffer they return, they never deliver more than
  the \<open>maxLen\<close> bytes of the destination (the NUL of a text included), and a refused read leaves the
  parser where it was.
\<close>

theorem string_readers_safe:
  assumes "poff p \<le> plen p" "plen p + 8 < 2 ^ 32"
  shows "\<forall>f \<in> {readByteString maxLen, readTextString maxLen}.
    \<exists>s q. f p = Some (s, q) \<and> pbuf q = pbuf p \<and> poff q \<le> plen p \<and>
      (s = None \<longrightarrow> q = p) \<and> (\<forall>b. s = Some b \<longrightarrow> length b \<le> maxLen \<and> poff p < poff q)"
proof -
  have wf: "pwf p" using assms by (simp add: pwf_def)
  obtain s q where "readByteString maxLen p = Some (s, q)" "advances p q" "s = None \<longrightarrow> q = p"
    "\<forall>b. s = Some b \<longrightarrow> length b \<le> maxLen \<and> poff p < poff q"
    using readByteString_ok [OF wf] by blast
  moreover obtain s' q' where "readTextString maxLen p = Some (s', q')" "advances p q'"
    "s' = None \<longrightarrow> q' = p" "\<forall>b. s' = Some b \<longrightarrow> length b \<le> maxLen \<and> poff p < poff q'"
    using readTextString_ok [OF wf] by blast
  ultimately show ?thesis by (simp add: advances_def)
qed

theorem string_readers_safe_witness:
  "\<exists>s q. readByteString 1 (new_parser [0x42, 1, 2]) = Some (s, q) \<and> poff q \<le> 3"
  using string_readers_safe [of "new_parser [0x42, 1, 2]" 1] by (force simp: new_parser_def)

end
