(* ===== verification/Text.thy ===== *)
theory Text
  imports Prelude
begin

text \<open>
  Strings of the firmware. An Arduino \<open>String\<close> is the list of its characters (bytes); the model
  gives the members that the sources use, \<open>indexOf\<close> and \<open>substring\<close>, and the hexadecimal
  conversions \<open>toHex\<close> and \<open>fromHex\<close> of \<open>src/CryptoManager.cpp\<close>, and the decimal conversions
  \<open>String(i)\<close> and \<open>toInt\<close>.
\<close>

definition ascii :: "string \<Rightarrow> bytes" where
  "ascii s = map of_char s"

text \<open>\<open>String((char *)p)\<close>: the characters before the first NUL.\<close>

definition cstr :: "bytes \<Rightarrow> bytes" where
  "cstr bs = takeWhile (\<lambda>b. b \<noteq> 0) bs"

lemma cstr_id [simp]: "0 \<notin> set bs \<Longrightarrow> cstr bs = bs"
  by (auto simp: cstr_def takeWhile_eq_all_conv)

fun find_char :: "u8 \<Rightarrow> bytes \<Rightarrow> nat option" where
  "find_char c [] = None"
| "find_char c (x # xs) = (if x = c then Some 0 else map_option Suc (find_char c xs))"

text \<open>\<open>s.indexOf(c, from)\<close>, \<open>None\<close> for \<open>-1\<close>.\<close>

definition indexOf :: "u8 \<Rightarrow> bytes \<Rightarrow> nat \<Rightarrow> nat option" where
  "indexOf c s from = map_option ((+) from) (find_char c (drop from s))"

text \<open>\<open>s.substring(a, b)\<close> for \<open>a \<le> b\<close>, and \<open>s.substring(a)\<close>.\<close>

definition substring :: "bytes \<Rightarrow> nat \<Rightarrow> nat \<Rightarrow> bytes" where
  "substring s a b = take (b - a) (drop a s)"

lemma find_char_append: "c \<notin> set a \<Longrightarrow> find_char c (a @ c # b) = Some (length a)"
  by (induction a) auto

lemma find_char_None: "find_char c s = None \<longleftrightarrow> c \<notin> set s"
  by (induction s) auto

lemma indexOf_append:
  "c \<notin> set a \<Longrightarrow> from = length pre \<Longrightarrow>
    indexOf c (pre @ a @ c # b) from = Some (length pre + length a)"
  by (simp add: indexOf_def find_char_append)

lemma indexOf_None: "indexOf c s from = None \<longleftrightarrow> c \<notin> set (drop from s)"
  by (simp add: indexOf_def find_char_None)

lemma substring_append: "a = length pre \<Longrightarrow> b = a + length m \<Longrightarrow> substring (pre @ m @ post) a b = m"
  by (simp add: substring_def)

section \<open>Hexadecimal\<close>

definition hex_digit :: "u8 \<Rightarrow> u8" where
  "hex_digit n = (if n < 10 then 48 + n else 87 + n)"

definition toHex :: "bytes \<Rightarrow> bytes" where
  "toHex data = concat (map (\<lambda>b. [hex_digit (drop_bit 4 b), hex_digit (b AND 15)]) data)"

text \<open>The value of a hexadecimal digit of either case.\<close>

definition digit_value :: "u8 \<Rightarrow> u8 option" where
  "digit_value c =
     (if 48 \<le> c \<and> c \<le> 57 then Some (c - 48)
      else if 97 \<le> c \<and> c \<le> 102 then Some (c - 87)
      else if 65 \<le> c \<and> c \<le> 70 then Some (c - 55)
      else None)"

definition isspace :: "u8 \<Rightarrow> bool" where
  "isspace c \<longleftrightarrow> c = 32 \<or> (9 \<le> c \<and> c \<le> 13)"

text \<open>
  \<open>(byte)strtol(s, NULL, 16)\<close> on a string of two characters: leading white space and one sign are
  skipped, the conversion stops at the first character that is no digit.
\<close>

definition strtol2 :: "u8 \<Rightarrow> u8 \<Rightarrow> u8" where
  "strtol2 c d =
     (let last = (case digit_value d of Some y \<Rightarrow> y | None \<Rightarrow> 0) in
      if isspace c \<or> c = 43 then last
      else if c = 45 then - last
      else case digit_value c of
          None \<Rightarrow> 0
        | Some x \<Rightarrow> (case digit_value d of Some y \<Rightarrow> 16 * x + y | None \<Rightarrow> x))"

definition fromHex :: "bytes \<Rightarrow> nat \<Rightarrow> bytes" where
  "fromHex hex max_len =
     (let len = min (length hex div 2) max_len in
      map (\<lambda>i. strtol2 (hex ! (2 * i)) (hex ! (2 * i + 1))) [0..<len] @ replicate (max_len - len) 0)"

lemma length_toHex [simp]: "length (toHex d) = 2 * length d"
  by (induction d) (simp_all add: toHex_def)

lemma length_fromHex [simp]: "length (fromHex h n) = n"
  by (simp add: fromHex_def Let_def)

lemma toHex_Nil [simp]: "toHex [] = []"
  by (simp add: toHex_def)

lemma toHex_Cons: "toHex (b # d) = hex_digit (drop_bit 4 b) # hex_digit (b AND 15) # toHex d"
  by (simp add: toHex_def)

lemma toHex_append: "toHex (a @ b) = toHex a @ toHex b"
  by (simp add: toHex_def)

text \<open>Facts about all bytes, checked one by one.\<close>

lemma all_bytes: "list_all (\<lambda>i. P (of_nat i)) [0..<256] \<Longrightarrow> P (b :: u8)"
proof -
  assume a: "list_all (\<lambda>i. P (of_nat i)) [0..<256]"
  have "unat b < 256" using unsigned_less [of b, where ?'a = nat] by simp
  then have "unat b \<in> set [0..<256]" by simp
  with a have "P (of_nat (unat b))" unfolding list_all_iff by blast
  then show "P b" by simp
qed

lemma strtol2_hex_digit: "strtol2 (hex_digit (drop_bit 4 b)) (hex_digit (b AND 15)) = b"
  by (rule all_bytes [of "\<lambda>b. strtol2 (hex_digit (drop_bit 4 b)) (hex_digit (b AND 15)) = b"]) code_simp

lemma hex_digits_plain:
  "hex_digit (drop_bit 4 b) \<notin> {0, 10, 58} \<and> hex_digit (b AND 15) \<notin> {0, 10, 58}"
  by (rule all_bytes [of "\<lambda>b. hex_digit (drop_bit 4 b) \<notin> {0, 10, 58} \<and>
      hex_digit (b AND 15) \<notin> {0, 10, 58}"]) code_simp

text \<open>No NUL, newline or colon in a hexadecimal string.\<close>

lemma toHex_plain: "c \<in> {0, 10, 58} \<Longrightarrow> c \<notin> set (toHex d)"
  using hex_digits_plain by (induction d) (auto simp: toHex_Cons)

lemma toHex_nth:
  "i < length d \<Longrightarrow> toHex d ! (2 * i) = hex_digit (drop_bit 4 (d ! i)) \<and>
    toHex d ! Suc (2 * i) = hex_digit (d ! i AND 15)"
proof (induction d arbitrary: i)
  case (Cons b d)
  then show ?case by (cases i) (auto simp: toHex_Cons)
qed simp

lemma fromHex_toHex: "length d = n \<Longrightarrow> fromHex (toHex d) n = d"
  by (rule nth_equalityI) (auto simp: fromHex_def toHex_nth strtol2_hex_digit)

lemma toHex_inj: "toHex a = toHex b \<Longrightarrow> a = b"
proof -
  assume e: "toHex a = toHex b"
  then have "length a = length b" using length_toHex [of a] length_toHex [of b] by simp
  with e show "a = b" using fromHex_toHex [of a "length a"] fromHex_toHex [of b "length a"] by simp
qed

section \<open>Decimal numbers\<close>

text \<open>\<open>String(i)\<close> and \<open>file.print(i)\<close>.\<close>

fun show_nat :: "nat \<Rightarrow> bytes" where
  "show_nat n = (if n < 10 then [48 + of_nat n] else show_nat (n div 10) @ [48 + of_nat (n mod 10)])"

declare show_nat.simps [simp del]

definition show_int :: "int \<Rightarrow> bytes" where
  "show_int i = (if i < 0 then 45 # show_nat (nat (- i)) else show_nat (nat i))"

definition is_digit :: "u8 \<Rightarrow> bool" where
  "is_digit c \<longleftrightarrow> 48 \<le> c \<and> c \<le> 57"

fun digits_value :: "nat \<Rightarrow> bytes \<Rightarrow> nat" where
  "digits_value a [] = a"
| "digits_value a (c # cs) = (if is_digit c then digits_value (a * 10 + (unat c - 48)) cs else a)"

text \<open>\<open>s.toInt()\<close> is \<open>atol\<close>: white space, a sign, digits; saturated to a 32-bit \<open>long\<close>.\<close>

definition toInt :: "bytes \<Rightarrow> int" where
  "toInt s =
     (let s = dropWhile isspace s;
          v = (case s of
              [] \<Rightarrow> 0
            | c # cs \<Rightarrow> if c = 45 then - int (digits_value 0 cs)
                else if c = 43 then int (digits_value 0 cs)
                else int (digits_value 0 s)) in
      max (- (2 ^ 31)) (min (2 ^ 31 - 1) v))"

lemma unat_digit: "k < 10 \<Longrightarrow> unat (48 + of_nat k :: u8) = 48 + k"
  by (simp add: unat_word_ariths unat_of_nat take_bit_nat_eq_self)

lemma show_digit: "k < 10 \<Longrightarrow> is_digit (48 + of_nat k)"
  by (simp add: is_digit_def word_le_nat_alt unat_digit)

lemma show_nat_digits: "\<forall>c \<in> set (show_nat n). is_digit c"
proof (induction n rule: show_nat.induct)
  case (1 n)
  then show ?case by (subst show_nat.simps) (auto simp: show_digit)
qed

lemma digits_value_snoc:
  "\<forall>c \<in> set cs. is_digit c \<Longrightarrow> is_digit d \<Longrightarrow>
    digits_value a (cs @ [d]) = digits_value a cs * 10 + (unat d - 48)"
  by (induction cs arbitrary: a) auto

lemma show_nat_value: "digits_value 0 (show_nat n) = n"
proof (induction n rule: show_nat.induct)
  case (1 n)
  show ?case
  proof (cases "n < 10")
    case True
    then show ?thesis by (subst show_nat.simps) (simp add: show_digit unat_digit)
  next
    case False
    moreover from this 1 have "digits_value 0 (show_nat (n div 10)) = n div 10" by simp
    ultimately show ?thesis
      by (subst show_nat.simps) (simp add: digits_value_snoc show_nat_digits show_digit unat_digit)
  qed
qed

lemma show_nat_Cons: "\<exists>c cs. show_nat n = c # cs \<and> is_digit c"
proof -
  have "show_nat n \<noteq> []" by (subst show_nat.simps) simp
  then show ?thesis using show_nat_digits [of n] by (cases "show_nat n") auto
qed

lemma digit_plain: "is_digit c \<Longrightarrow> \<not> isspace c \<and> c \<noteq> 45 \<and> c \<noteq> 43"
  by (auto simp: is_digit_def isspace_def word_le_nat_alt)

lemma toInt_show_nat: "int n < 2 ^ 31 \<Longrightarrow> toInt (show_nat n) = int n"
  using show_nat_Cons [of n] show_nat_value [of n]
  by (auto simp: toInt_def Let_def dest!: digit_plain)

lemma toInt_show_int: "- (2 ^ 31) \<le> i \<Longrightarrow> i < 2 ^ 31 \<Longrightarrow> toInt (show_int i) = i"
proof (cases "i < 0")
  case True
  assume "- (2 ^ 31) \<le> i"
  with True show ?thesis
    by (simp add: show_int_def toInt_def isspace_def show_nat_value)
qed (simp add: show_int_def toInt_show_nat)

text \<open>No NUL, newline or colon in a number.\<close>

lemma show_int_plain: "c \<in> {0, 10, 58} \<Longrightarrow> c \<notin> set (show_int i)"
  using show_nat_digits [of "nat i"] show_nat_digits [of "nat (- i)"]
  by (auto simp: show_int_def is_digit_def)

lemma show_int_not_Nil [simp]: "show_int i \<noteq> []"
  using show_nat_Cons [of "nat i"] by (auto simp: show_int_def)

end
