(* ===== verification/CtapParse.thy ===== *)
theory CtapParse
  imports Cbor Text
begin

text \<open>
  How \<open>FIDO2HIDDevice::processCborCommand\<close> (\<open>src/FIDO2Manager.cpp\<close>) reads a CTAP2 request: each
  command walks over the top-level map with a \<open>CborParser\<close> and stores what it knows in local variables,
  here the fields of one record per command. A loop over \<open>n\<close> announced elements is \<open>rounds n\<close>; \<open>n\<close> is
  a number of the message, not bounded by its length.

  The state of a loop is the parser and the record; \<open>None\<close> is undefined behaviour of the parser. A
  character buffer is the C string in it, a byte buffer with its length is a list.
\<close>

type_synonym 'r walk = "parser \<times> 'r \<Rightarrow> (parser \<times> 'r) option"

primrec rounds :: "nat \<Rightarrow> ('s \<Rightarrow> 's option) \<Rightarrow> 's \<Rightarrow> 's option" where
  "rounds 0 f s = Some s"
| "rounds (Suc n) f s = do { s \<leftarrow> f s; rounds n f s }"

text \<open>\<open>parser.skipValue();\<close>, result ignored\<close>

definition skip :: "'r walk" where
  "skip = (\<lambda>(p, r). do { (ok, p) \<leftarrow> skipValue 0 p; Some (p, r) })"

text \<open>\<open>if (parser.readTypeAndValue(t, v)) f else other\<close>, and the same for the string readers\<close>

definition on_value :: "(u8 \<Rightarrow> u64 \<Rightarrow> 'r walk) \<Rightarrow> 'r walk \<Rightarrow> 'r walk" where
  "on_value f other = (\<lambda>(p, r). do {
     (tv, p) \<leftarrow> readTypeAndValue p;
     case tv of Some (t, v) \<Rightarrow> f t v (p, r) | None \<Rightarrow> other (p, r) })"

definition on_bytes :: "nat \<Rightarrow> (bytes \<Rightarrow> 'r walk) \<Rightarrow> 'r walk \<Rightarrow> 'r walk" where
  "on_bytes n f other = (\<lambda>(p, r). do {
     (s, p) \<leftarrow> readByteString n p;
     case s of Some b \<Rightarrow> f b (p, r) | None \<Rightarrow> other (p, r) })"

definition on_text :: "nat \<Rightarrow> (bytes \<Rightarrow> 'r walk) \<Rightarrow> 'r walk \<Rightarrow> 'r walk" where
  "on_text n f other = (\<lambda>(p, r). do {
     (s, p) \<leftarrow> readTextString n p;
     case s of Some b \<Rightarrow> f (cstr b) (p, r) | None \<Rightarrow> other (p, r) })"

definition store :: "('r \<Rightarrow> 'r) \<Rightarrow> 'r walk" where
  "store f = (\<lambda>(p, r). Some (p, f r))"

text \<open>\<open>if (readTypeAndValue(t, n) && t == major) for (i = 0; i < n; i++) body; else other\<close>\<close>

definition in_items :: "u8 \<Rightarrow> 'r walk \<Rightarrow> 'r walk \<Rightarrow> 'r walk" where
  "in_items major body other =
     on_value (\<lambda>t n. if t = major then rounds (unat n) body else other) other"

abbreviation "in_map \<equiv> in_items 5"
abbreviation "in_array \<equiv> in_items 4"

text \<open>\<open>if (!readTypeAndValue(keyType, mapKey) || keyType != 0) { skipValue(); continue; }\<close>\<close>

definition uint_keyed :: "(u64 \<Rightarrow> 'r walk) \<Rightarrow> 'r walk" where
  "uint_keyed field = on_value (\<lambda>t k. if t = 0 then field k else skip) skip"

text \<open>An unsigned value, a boolean (\<open>valType == 7\<close>, true is 21); \<open>other\<close> when it is something else.\<close>

definition uint_value :: "(u64 \<Rightarrow> 'r \<Rightarrow> 'r) \<Rightarrow> 'r walk" where
  "uint_value f = on_value (\<lambda>t v. if t = 0 then store (f v) else skip) skip"

definition bool_value :: "(bool \<Rightarrow> 'r \<Rightarrow> 'r) \<Rightarrow> 'r walk" where
  "bool_value f = on_value (\<lambda>t v. if t = 7 then store (f (v = 21)) else skip) skip"

text \<open>The root: \<open>None\<close> when it is not a map.\<close>

definition parse_root :: "'r walk \<Rightarrow> 'r \<Rightarrow> bytes \<Rightarrow> 'r option option" where
  "parse_root body r data = do {
     (tv, p) \<leftarrow> readTypeAndValue (new_parser data);
     case tv of
       Some (t, n) \<Rightarrow> if t = 5 then do { (p, r) \<leftarrow> rounds (unat n) body (p, r); Some (Some r) } else Some None
     | None \<Rightarrow> Some None }"

section \<open>authenticatorConfig (0x0D)\<close>

record config_req =
  cfSub :: u64
  cfMinPin :: u64

definition config_field :: "u64 \<Rightarrow> config_req walk" where
  "config_field k =
     (if k = 1 then on_value (\<lambda>t v. store (cfSub_update (\<lambda>_. v))) Some
      else if k = 2 then in_map (uint_keyed (\<lambda>k.
        if k = 2 then on_value (\<lambda>t v. store (cfMinPin_update (\<lambda>_. v))) Some else skip)) skip
      else skip)"

definition parse_config :: "bytes \<Rightarrow> config_req option option" where
  "parse_config = parse_root (uint_keyed config_field) \<lparr>cfSub = 0, cfMinPin = 0\<rparr>"

section \<open>authenticatorClientPIN (0x06)\<close>

text \<open>\<open>parseCoseKeyPubXY\<close>: the two coordinates, \<open>None\<close> for \<open>false\<close>.\<close>

record cose_key =
  ckX :: "bytes option"
  ckY :: "bytes option"

definition coordinate :: "(bytes \<Rightarrow> cose_key \<Rightarrow> cose_key) \<Rightarrow> cose_key walk" where
  "coordinate f = on_bytes 32 (\<lambda>b. if length b = 32 then store (f b) else skip) skip"

definition cose_field :: "u8 \<Rightarrow> u64 \<Rightarrow> cose_key walk" where
  "cose_field keyType keyVal =
     (if keyType = 1 \<and> keyVal = 1 then coordinate (\<lambda>b. ckX_update (\<lambda>_. Some b))
      else if keyType = 1 \<and> keyVal = 2 then coordinate (\<lambda>b. ckY_update (\<lambda>_. Some b))
      else skip)"

text \<open>The loop; \<open>None\<close> in the second component is the early \<open>return false\<close>.\<close>

primrec cose_loop :: "nat \<Rightarrow> parser \<times> cose_key \<Rightarrow> (parser \<times> cose_key option) option" where
  "cose_loop 0 s = Some (fst s, Some (snd s))"
| "cose_loop (Suc n) s = do {
     (tv, p) \<leftarrow> readTypeAndValue (fst s);
     case tv of
       None \<Rightarrow> Some (p, None)
     | Some (t, v) \<Rightarrow> do { s \<leftarrow> cose_field t v (p, snd s); cose_loop n s } }"

definition parseCoseKeyPubXY :: "parser \<Rightarrow> (bytes option \<times> parser) option" where
  "parseCoseKeyPubXY p = do {
     (tv, p) \<leftarrow> readTypeAndValue p;
     case tv of
       Some (t, n) \<Rightarrow>
         if t \<noteq> 5 then Some (None, p)
         else do {
           (p, r) \<leftarrow> cose_loop (unat n) (p, \<lparr>ckX = None, ckY = None\<rparr>);
           Some (do { r \<leftarrow> r; x \<leftarrow> ckX r; y \<leftarrow> ckY r; Some (x @ y) }, p) }
     | None \<Rightarrow> Some (None, p) }"

record pin_req =
  cpProtocol :: u8
  cpSub :: u64
  cpKeyAgreement :: "bytes option"
  cpPinAuth :: bytes
  cpNewPinEnc :: bytes
  cpPinHashEnc :: bytes
  cpPermissions :: u64
  cpRpId :: bytes

definition pin_field :: "u64 \<Rightarrow> pin_req walk" where
  "pin_field k =
     (if k = 1 then on_value (\<lambda>t v. store (cpProtocol_update (\<lambda>_. ucast v))) skip
      else if k = 2 then on_value (\<lambda>t v. store (cpSub_update (\<lambda>_. v))) skip
      else if k = 3 then (\<lambda>(p, r). do {
        (xy, p) \<leftarrow> parseCoseKeyPubXY p; Some (p, r\<lparr>cpKeyAgreement := xy\<rparr>) })
      else if k = 4 then on_bytes 32 (\<lambda>b. store (cpPinAuth_update (\<lambda>_. b))) skip
      else if k = 5 then on_bytes 64 (\<lambda>b. store (cpNewPinEnc_update (\<lambda>_. b))) skip
      else if k = 6 then on_bytes 64 (\<lambda>b. store (cpPinHashEnc_update (\<lambda>_. b))) skip
      else if k = 9 then on_value (\<lambda>t v. store (cpPermissions_update (\<lambda>_. v))) skip
      else if k = 10 then on_text 256 (\<lambda>b. store (cpRpId_update (\<lambda>_. b))) skip
      else skip)"

definition pin_start :: pin_req where
  "pin_start = \<lparr>cpProtocol = 0, cpSub = 0, cpKeyAgreement = None, cpPinAuth = [], cpNewPinEnc = [], cpPinHashEnc = [],
     cpPermissions = 0, cpRpId = []\<rparr>"

definition parse_pin :: "bytes \<Rightarrow> pin_req option option" where
  "parse_pin = parse_root (uint_keyed pin_field) pin_start"

section \<open>authenticatorLargeBlobs (0x0C)\<close>

definition MAX_FRAGMENT_LEN :: nat where "MAX_FRAGMENT_LEN = 1200"

record blob_req =
  lbGet :: "u64 option"
  lbSet :: "bytes option"
  lbOffset :: u64
  lbLength :: "u64 option"

definition blob_field :: "u64 \<Rightarrow> blob_req walk" where
  "blob_field k =
     (if k = 1 then uint_value (\<lambda>v. lbGet_update (\<lambda>_. Some v))
      else if k = 2 then on_bytes MAX_FRAGMENT_LEN (\<lambda>b. store (lbSet_update (\<lambda>_. Some b))) skip
      else if k = 3 then uint_value (\<lambda>v. lbOffset_update (\<lambda>_. v))
      else if k = 4 then uint_value (\<lambda>v. lbLength_update (\<lambda>_. Some v))
      else skip)"

definition parse_blob :: "bytes \<Rightarrow> blob_req option option" where
  "parse_blob = parse_root (uint_keyed blob_field) \<lparr>lbGet = None, lbSet = None, lbOffset = 0, lbLength = None\<rparr>"

section \<open>authenticatorCredentialManagement (0x0A, 0x41)\<close>

text \<open>\<open>targetRpIdHash\<close> is a buffer of 32 bytes, compared as a whole.\<close>

record mgmt_req =
  cmSub :: u64
  cmRpIdHash :: bytes
  cmCredId :: bytes

definition mgmt_param :: "u64 \<Rightarrow> mgmt_req walk" where
  "mgmt_param k =
     (if k = 1 then on_bytes 32 (\<lambda>b. store (cmRpIdHash_update (\<lambda>h. b @ drop (length b) h))) Some
      else if k = 2 then in_map (on_text 16 (\<lambda>key.
        if key = ascii ''id'' then on_bytes 64 (\<lambda>b. store (cmCredId_update (\<lambda>_. b))) Some else skip) skip) skip
      else skip)"

definition mgmt_field :: "u64 \<Rightarrow> mgmt_req walk" where
  "mgmt_field k =
     (if k = 1 then on_value (\<lambda>t v. store (cmSub_update (\<lambda>_. v))) Some
      else if k = 2 then in_map (uint_keyed mgmt_param) skip
      else if k = 3 then on_value (\<lambda>t v. Some) Some
      else if k = 4 then on_bytes 64 (\<lambda>b. Some) Some
      else skip)"

definition parse_mgmt :: "bytes \<Rightarrow> mgmt_req option option" where
  "parse_mgmt = parse_root (uint_keyed mgmt_field) \<lparr>cmSub = 0, cmRpIdHash = replicate 32 0, cmCredId = []\<rparr>"

section \<open>authenticatorBioEnrollment (0x09, 0x40)\<close>

record bio_req =
  beSub :: "u64 option"
  beTemplateId :: "bytes option"
  beFriendlyName :: "bytes option"
  bePinUvAuthParam :: bytes
  beModalityOnly :: bool

definition bio_param :: "u64 \<Rightarrow> bio_req walk" where
  "bio_param k =
     (if k = 1 then on_bytes 16 (\<lambda>b. store (beTemplateId_update (\<lambda>_. Some b))) skip
      else if k = 2 then on_text 64 (\<lambda>b. store (beFriendlyName_update (\<lambda>_. Some b))) skip
      else skip)"

definition bio_field :: "u64 \<Rightarrow> bio_req walk" where
  "bio_field k =
     (if k = 1 then on_value (\<lambda>t v. Some) skip
      else if k = 2 then on_value (\<lambda>t v. store (beSub_update (\<lambda>_. Some v))) skip
      else if k = 3 then in_map (uint_keyed bio_param) skip
      else if k = 4 then on_value (\<lambda>t v. Some) skip
      else if k = 5 then on_bytes 32 (\<lambda>b. store (bePinUvAuthParam_update (\<lambda>_. b))) skip
      else if k = 6 then bool_value (\<lambda>v. beModalityOnly_update (\<lambda>_. v))
      else skip)"

definition parse_bio :: "bytes \<Rightarrow> bio_req option option" where
  "parse_bio = parse_root (uint_keyed bio_field)
     \<lparr>beSub = None, beTemplateId = None, beFriendlyName = None, bePinUvAuthParam = [], beModalityOnly = False\<rparr>"

section \<open>authenticatorGetAssertion (0x02)\<close>

definition MAX_CREDENTIAL_ID_LEN :: nat where "MAX_CREDENTIAL_ID_LEN = 224"
definition MAX_ALLOW_CREDENTIALS :: nat where "MAX_ALLOW_CREDENTIALS = 32"

record ga_req =
  gaRpId :: bytes
  gaHash :: bytes
  gaUP :: bool
  gaUV :: bool
  gaExt :: bool
  gaSalt1 :: bytes
  gaSalt2 :: bytes
  gaLargeBlobKey :: bool
  gaCredBlob :: bool
  gaAllow :: "bytes list"

text \<open>
  The \<open>id\<close> of a credential descriptor goes to the next free slot of an array of \<open>n\<close>; when there is none
  or the string does not fit, it is skipped.
\<close>

definition add_credential :: "nat \<Rightarrow> ('r \<Rightarrow> bytes list) \<Rightarrow> ((bytes list \<Rightarrow> bytes list) \<Rightarrow> 'r \<Rightarrow> 'r) \<Rightarrow> 'r walk" where
  "add_credential n ids upd = (\<lambda>(p, r).
     if length (ids r) < n then on_bytes MAX_CREDENTIAL_ID_LEN (\<lambda>b. store (upd (\<lambda>l. l @ [b]))) skip (p, r)
     else skip (p, r))"

definition ga_allow_item :: "ga_req walk" where
  "ga_allow_item = in_map (on_text 32 (\<lambda>key.
     if key = ascii ''id'' then add_credential MAX_ALLOW_CREDENTIALS gaAllow gaAllow_update else skip) skip) Some"

definition ga_salt :: "ga_req walk" where
  "ga_salt = uint_keyed (\<lambda>k.
     if k = 1 then on_bytes 32 (\<lambda>b. store (gaSalt1_update (\<lambda>_. b))) Some
     else if k = 2 then on_bytes 32 (\<lambda>b. store (gaSalt2_update (\<lambda>_. b))) Some
     else skip)"

text \<open>
  After \<open>peekMajorType() == 5\<close> the header is read without a test of the result: when that fails, the
  count of the loop is an uninitialized variable.
\<close>

definition peeked_map :: "'r walk \<Rightarrow> ('r \<Rightarrow> 'r) \<Rightarrow> 'r walk" where
  "peeked_map body f = on_value (\<lambda>t n s. do { s \<leftarrow> store f s; rounds (unat n) body s }) (\<lambda>s. None)"

definition ga_ext_item :: "ga_req walk" where
  "ga_ext_item = on_text 32 (\<lambda>key (p, r).
     if key = ascii ''hmac-secret'' \<and> peekMajorType p = Some 5
     then peeked_map ga_salt (gaExt_update (\<lambda>_. True)) (p, r)
     else if key = ascii ''largeBlobKey'' then bool_value (\<lambda>v. gaLargeBlobKey_update (\<lambda>_. v)) (p, r)
     else if key = ascii ''credBlob'' then bool_value (\<lambda>v. gaCredBlob_update (\<lambda>_. v)) (p, r)
     else skip (p, r)) skip"

definition ga_option :: "ga_req walk" where
  "ga_option = on_text 32 (\<lambda>key.
     if key = ascii ''up'' then bool_value (\<lambda>v. gaUP_update (\<lambda>_. v))
     else if key = ascii ''uv'' then bool_value (\<lambda>v. gaUV_update (\<lambda>_. v))
     else skip) skip"

definition ga_field :: "u64 \<Rightarrow> ga_req walk" where
  "ga_field k =
     (if k = 1 then on_text 128 (\<lambda>b. store (gaRpId_update (\<lambda>_. b))) Some
      else if k = 2 then on_bytes 32 (\<lambda>b. store (gaHash_update (\<lambda>_. b))) Some
      else if k = 3 then in_array ga_allow_item Some
      else if k = 5 then in_map ga_option skip
      else if k = 4 then (\<lambda>(p, r).
        if peekMajorType p = Some 5 then peeked_map ga_ext_item id (p, r) else skip (p, r))
      else skip)"

definition parse_ga :: "bytes \<Rightarrow> ga_req option option" where
  "parse_ga = parse_root (uint_keyed ga_field)
     \<lparr>gaRpId = [], gaHash = [], gaUP = True, gaUV = False, gaExt = False, gaSalt1 = [], gaSalt2 = [],
       gaLargeBlobKey = False, gaCredBlob = False, gaAllow = []\<rparr>"

section \<open>authenticatorMakeCredential (0x01)\<close>

definition MAX_EXCLUDE_CREDENTIALS :: nat where "MAX_EXCLUDE_CREDENTIALS = 16"
definition MAX_CRED_BLOB_LEN :: nat where "MAX_CRED_BLOB_LEN = 32"

record mc_req =
  mcRK :: bool
  mcRpId :: bytes
  mcHash :: bytes
  mcUserId :: bytes
  mcUserName :: bytes
  mcHmacSecret :: bool
  mcAlg :: i32
  mcCredProtect :: nat
  mcLargeBlobKey :: bool
  mcCredBlob :: bool
  mcCredBlobRaw :: bytes
  mcExclude :: "bytes list"

definition mc_rp :: "mc_req walk" where
  "mc_rp = in_map (on_text 32 (\<lambda>key.
     if key = ascii ''id'' then on_text 128 (\<lambda>b. store (mcRpId_update (\<lambda>_. b))) Some else skip) Some) Some"

definition mc_user :: "mc_req walk" where
  "mc_user = in_map (on_text 32 (\<lambda>key.
     if key = ascii ''id'' then on_bytes 64 (\<lambda>b. store (mcUserId_update (\<lambda>_. b))) Some
     else if key = ascii ''name'' then on_text 128 (\<lambda>b. store (mcUserName_update (\<lambda>_. b))) Some
     else skip) Some) Some"

text \<open>\<open>(int)rawVal\<close> is the low 32 bits. The flags are the local variables of the loop over the parameters.\<close>

record alg_choice =
  foundDefault :: bool
  foundPQC :: bool
  foundES256 :: bool
  selected :: i32
  current :: i32

definition alg_param :: "alg_choice walk" where
  "alg_param = on_text 32 (\<lambda>key.
     if key = ascii ''alg'' then on_value (\<lambda>t v.
       if t = 0 then store (current_update (\<lambda>_. ucast v))
       else if t = 1 then store (current_update (\<lambda>_. - 1 - ucast v))
       else Some) Some
     else skip) skip"

definition choose_alg :: "i32 \<Rightarrow> alg_choice \<Rightarrow> alg_choice" where
  "choose_alg defaultCryptoAlg a =
     (let c = current a in
      if c = defaultCryptoAlg then a\<lparr>selected := defaultCryptoAlg, foundDefault := True\<rparr>
      else if foundDefault a then a
      else if c \<in> {- 48, - 49, - 50} then a\<lparr>selected := c, foundPQC := True\<rparr>
      else if \<not> foundPQC a \<and> c = - 7 then a\<lparr>selected := - 7, foundES256 := True\<rparr>
      else if \<not> foundPQC a \<and> \<not> foundES256 a \<and> c \<in> {- 8, - 257} then a\<lparr>selected := c\<rparr>
      else a)"

definition alg_item :: "i32 \<Rightarrow> alg_choice walk" where
  "alg_item defaultCryptoAlg = on_value (\<lambda>t n s.
     if t = 5 then do {
       s \<leftarrow> store (current_update (\<lambda>_. 0)) s;
       s \<leftarrow> rounds (unat n) alg_param s;
       store (choose_alg defaultCryptoAlg) s }
     else skip s) skip"

definition mc_algs :: "i32 \<Rightarrow> mc_req walk" where
  "mc_algs defaultCryptoAlg = on_value (\<lambda>t n (p, r).
     if t = 4 then do {
       (p, a) \<leftarrow> rounds (unat n) (alg_item defaultCryptoAlg)
         (p, \<lparr>foundDefault = False, foundPQC = False, foundES256 = False, selected = mcAlg r, current = 0\<rparr>);
       Some (p, r\<lparr>mcAlg := selected a\<rparr>) }
     else skip (p, r)) skip"

definition mc_ext_item :: "mc_req walk" where
  "mc_ext_item = on_text 32 (\<lambda>key.
     if key = ascii ''hmac-secret'' then bool_value (\<lambda>v. mcHmacSecret_update (\<lambda>_. v))
     else if key = ascii ''credProtect'' then on_value (\<lambda>t v.
       if t = 0 \<and> 1 \<le> v \<and> v \<le> 3 then store (mcCredProtect_update (\<lambda>_. unat v)) else skip) skip
     else if key = ascii ''largeBlobKey'' then bool_value (\<lambda>v. mcLargeBlobKey_update (\<lambda>_. v))
     else if key = ascii ''credBlob'' then on_bytes MAX_CRED_BLOB_LEN
       (\<lambda>b. store (\<lambda>r. r\<lparr>mcCredBlobRaw := b, mcCredBlob := True\<rparr>))
       (\<lambda>s. do { s \<leftarrow> store (\<lambda>r. r\<lparr>mcCredBlob := True, mcCredBlobRaw := []\<rparr>) s; skip s })
     else skip) skip"

definition mc_exclude_item :: "mc_req walk" where
  "mc_exclude_item = in_map (on_text 32 (\<lambda>key.
     if key = ascii ''id'' then add_credential MAX_EXCLUDE_CREDENTIALS mcExclude mcExclude_update else skip) skip) skip"

definition mc_option :: "mc_req walk" where
  "mc_option = on_text 32 (\<lambda>key.
     if key = ascii ''rk'' then bool_value (\<lambda>v. mcRK_update (\<lambda>_. v)) else skip) skip"

definition mc_field :: "i32 \<Rightarrow> u64 \<Rightarrow> mc_req walk" where
  "mc_field defaultCryptoAlg k =
     (if k = 1 then on_bytes 32 (\<lambda>b. store (mcHash_update (\<lambda>_. b))) Some
      else if k = 2 then mc_rp
      else if k = 3 then mc_user
      else if k = 4 then mc_algs defaultCryptoAlg
      else if k = 6 then in_map mc_ext_item skip
      else if k = 5 then in_array mc_exclude_item skip
      else if k = 7 then in_map mc_option skip
      else skip)"

definition mc_start :: "i32 \<Rightarrow> mc_req" where
  "mc_start defaultCryptoAlg = \<lparr>mcRK = False, mcRpId = [], mcHash = [], mcUserId = [], mcUserName = [],
     mcHmacSecret = False, mcAlg = defaultCryptoAlg, mcCredProtect = 1, mcLargeBlobKey = False, mcCredBlob = False,
     mcCredBlobRaw = [], mcExclude = []\<rparr>"

text \<open>A root that is no map leaves the initial values.\<close>

definition parse_mc :: "i32 \<Rightarrow> bytes \<Rightarrow> mc_req option" where
  "parse_mc defaultCryptoAlg data = do {
     r \<leftarrow> parse_root (uint_keyed (mc_field defaultCryptoAlg)) (mc_start defaultCryptoAlg) data;
     Some (case r of Some r \<Rightarrow> r | None \<Rightarrow> mc_start defaultCryptoAlg) }"

section \<open>Parsing is safe\<close>

text \<open>
  \<open>safe I f\<close>: the walk returns, moves only forward inside the message and keeps \<open>I\<close>. \<open>steady I f\<close>: in
  addition it changes nothing unless it consumes a byte, so that a loop at the end of the message stands still.
\<close>

definition safe :: "('r \<Rightarrow> bool) \<Rightarrow> 'r walk \<Rightarrow> bool" where
  "safe I f \<longleftrightarrow> (\<forall>p r. pwf p \<longrightarrow> I r \<longrightarrow> (\<exists>p' r'. f (p, r) = Some (p', r') \<and> advances p p' \<and> I r'))"

definition steady :: "('r \<Rightarrow> bool) \<Rightarrow> 'r walk \<Rightarrow> bool" where
  "steady I f \<longleftrightarrow> (\<forall>p r. pwf p \<longrightarrow> I r \<longrightarrow> (\<exists>p' r'. f (p, r) = Some (p', r') \<and> advances p p' \<and> I r' \<and>
     (poff p' = poff p \<longrightarrow> r' = r)))"

named_theorems walk_rules

lemma steadyD:
  assumes "steady I f" "pwf p" "I r"
  obtains p' r' where "f (p, r) = Some (p', r')" "advances p p'" "pwf p'" "I r'" "poff p' = poff p \<Longrightarrow> r' = r"
  using assms advances_pwf unfolding steady_def by metis

lemma safeD:
  assumes "safe I f" "pwf p" "I r"
  obtains p' r' where "f (p, r) = Some (p', r')" "advances p p'" "pwf p'" "I r'"
  using assms advances_pwf unfolding safe_def by metis

lemma steady_safe: "steady I f \<Longrightarrow> safe I f"
  unfolding steady_def safe_def by blast

lemma steadyI:
  assumes "\<And>p r. pwf p \<Longrightarrow> I r \<Longrightarrow> \<exists>p' r'. f (p, r) = Some (p', r') \<and> advances p p' \<and> I r' \<and>
    (poff p' = poff p \<longrightarrow> r' = r)"
  shows "steady I f"
  using assms unfolding steady_def by blast

lemma safeI:
  assumes "\<And>p r. pwf p \<Longrightarrow> I r \<Longrightarrow> \<exists>p' r'. f (p, r) = Some (p', r') \<and> advances p p' \<and> I r'"
  shows "safe I f"
  using assms unfolding safe_def by blast

lemma skipValue_returns:
  assumes "pwf p"
  shows "\<exists>ok q. skipValue d p = Some (ok, q) \<and> advances p q"
  using skip.returns [OF assms, of "MAX_CBOR_DEPTH + 1 - d"] unfolding skipValue_def by blast

lemma steady_skip [walk_rules]: "steady I skip"
proof (rule steadyI)
  fix p and r :: 'a assume "pwf p" "I r"
  then obtain ok q where "skipValue 0 p = Some (ok, q)" "advances p q"
    using skipValue_returns by blast
  then show "\<exists>p' r'. skip (p, r) = Some (p', r') \<and> advances p p' \<and> I r' \<and> (poff p' = poff p \<longrightarrow> r' = r)"
    using \<open>I r\<close> by (simp add: skip_def)
qed

lemma steady_Some [walk_rules]: "steady I Some"
  by (intro steadyI) auto

lemma safe_skip [walk_rules]: "safe I skip"
  by (rule steady_safe [OF steady_skip])

lemma safe_Some [walk_rules]: "safe I Some"
  by (rule steady_safe [OF steady_Some])

lemma safe_store: "(\<And>r. I r \<Longrightarrow> I (f r)) \<Longrightarrow> safe I (store f)"
  by (intro safeI) (auto simp: store_def)

lemma steady_on_value [walk_rules]:
  assumes "\<And>t v. safe I (f t v)" "steady I other"
  shows "steady I (on_value f other)"
proof (rule steadyI)
  fix p r assume p: "pwf p" and r: "I r"
  from p show "\<exists>p' r'. on_value f other (p, r) = Some (p', r') \<and> advances p p' \<and> I r' \<and> (poff p' = poff p \<longrightarrow> r' = r)"
  proof (cases rule: readTypeAndValue_cases)
    case (fail q)
    from assms(2) fail(3) r obtain p' r' where "other (q, r) = Some (p', r')" "advances q p'" "I r'"
      "poff p' = poff q \<Longrightarrow> r' = r"
      by (rule steadyD) blast
    then show ?thesis using fail advances_trans [of p q p'] by (auto simp: on_value_def advances_def)
  next
    case (ok t v q)
    from assms(1) [of t v] ok(3) r obtain p' r' where "f t v (q, r) = Some (p', r')" "advances q p'" "I r'"
      by (rule safeD) blast
    then show ?thesis using ok advances_trans [of p q p'] by (auto simp: on_value_def advances_def)
  qed
qed

lemma steady_on_bytes [walk_rules]:
  assumes "\<And>b. length b \<le> n \<Longrightarrow> safe I (f b)" "steady I other"
  shows "steady I (on_bytes n f other)"
proof (rule steadyI)
  fix p r assume p: "pwf p" and r: "I r"
  obtain s q where s: "readByteString n p = Some (s, q)" "advances p q" "s = None \<longrightarrow> q = p"
    "\<forall>b. s = Some b \<longrightarrow> length b \<le> n \<and> poff p < poff q"
    using readByteString_ok [OF p] by blast
  have q: "pwf q" using p s(2) by (rule advances_pwf)
  show "\<exists>p' r'. on_bytes n f other (p, r) = Some (p', r') \<and> advances p p' \<and> I r' \<and> (poff p' = poff p \<longrightarrow> r' = r)"
  proof (cases s)
    case None
    from assms(2) p r obtain p' r' where "other (p, r) = Some (p', r')" "advances p p'" "I r'" "poff p' = poff p \<Longrightarrow> r' = r"
      by (rule steadyD) blast
    then show ?thesis using s None by (auto simp: on_bytes_def)
  next
    case (Some b)
    have "safe I (f b)" using s(4) Some assms(1) by blast
    then obtain p' r' where "f b (q, r) = Some (p', r')" "advances q p'" "I r'"
      using q r by (rule safeD) blast
    then show ?thesis using s Some advances_trans [of p q p'] by (auto simp: on_bytes_def advances_def)
  qed
qed

lemma cstr_end: "cstr (c @ [0]) = cstr c"
  by (induction c) (simp_all add: cstr_def)

lemma readTextString_ends: "readTextString n p = Some (Some b, q) \<Longrightarrow> \<exists>c. b = c @ [0]"
  by (cases "readTypeAndValue p")
    (auto simp: readTextString_def Let_def bind_eq_Some_conv split: if_splits option.splits)

lemma steady_on_text [walk_rules]:
  assumes "\<And>b. length b < n \<Longrightarrow> 0 \<notin> set b \<Longrightarrow> safe I (f b)" "steady I other"
  shows "steady I (on_text n f other)"
proof (rule steadyI)
  fix p r assume p: "pwf p" and r: "I r"
  obtain s q where s: "readTextString n p = Some (s, q)" "advances p q" "s = None \<longrightarrow> q = p"
    "\<forall>b. s = Some b \<longrightarrow> length b \<le> n \<and> poff p < poff q"
    using readTextString_ok [OF p] by blast
  have q: "pwf q" using p s(2) by (rule advances_pwf)
  show "\<exists>p' r'. on_text n f other (p, r) = Some (p', r') \<and> advances p p' \<and> I r' \<and> (poff p' = poff p \<longrightarrow> r' = r)"
  proof (cases s)
    case None
    from assms(2) p r obtain p' r' where "other (p, r) = Some (p', r')" "advances p p'" "I r'" "poff p' = poff p \<Longrightarrow> r' = r"
      by (rule steadyD) blast
    then show ?thesis using s None by (auto simp: on_text_def)
  next
    case (Some b)
    have "\<exists>c. b = c @ [0]" using s(1) Some by (auto intro: readTextString_ends)
    then obtain c where c: "b = c @ [0]" by blast
    have "length (cstr c) \<le> length c" unfolding cstr_def by (rule length_takeWhile_le)
    then have "length (cstr b) < n \<and> 0 \<notin> set (cstr b)"
      using s(4) Some c set_takeWhileD [of 0 "\<lambda>b. b \<noteq> 0" c] by (auto simp: cstr_end) (auto simp: cstr_def)
    then have "safe I (f (cstr b))" using assms(1) by blast
    then obtain p' r' where "f (cstr b) (q, r) = Some (p', r')" "advances q p'" "I r'"
      using q r by (rule safeD) blast
    then show ?thesis using s Some advances_trans [of p q p'] by (auto simp: on_text_def advances_def)
  qed
qed

lemma safe_on_bytes_other:
  assumes "\<And>b. length b \<le> n \<Longrightarrow> safe I (f b)" "safe I other"
  shows "safe I (on_bytes n f other)"
proof (rule safeI)
  fix p r assume p: "pwf p" and r: "I r"
  obtain s q where s: "readByteString n p = Some (s, q)" "advances p q" "s = None \<longrightarrow> q = p"
    "\<forall>b. s = Some b \<longrightarrow> length b \<le> n"
    using readByteString_ok [OF p] by blast
  have q: "pwf q" using p s(2) by (rule advances_pwf)
  have "safe I (case s of Some b \<Rightarrow> f b | None \<Rightarrow> other)"
    using s(4) assms by (cases s) auto
  then obtain p' r' where "(case s of Some b \<Rightarrow> f b | None \<Rightarrow> other) (q, r) = Some (p', r')" "advances q p'" "I r'"
    using q r by (rule safeD) blast
  then show "\<exists>p' r'. on_bytes n f other (p, r) = Some (p', r') \<and> advances p p' \<and> I r'"
    using s(1) advances_trans [OF s(2)] by (cases s) (auto simp: on_bytes_def)
qed

lemma steady_rounds [walk_rules]:
  assumes "steady I f"
  shows "steady I (rounds n f)"
proof (induction n)
  case 0
  show ?case by (intro steadyI) auto
next
  case (Suc n)
  show ?case
  proof (rule steadyI)
    fix p r assume p: "pwf p" and r: "I r"
    obtain p1 r1 where 1: "f (p, r) = Some (p1, r1)" "advances p p1" "pwf p1" "I r1" "poff p1 = poff p \<Longrightarrow> r1 = r"
      using assms p r by (rule steadyD) blast
    obtain p2 r2 where 2: "rounds n f (p1, r1) = Some (p2, r2)" "advances p1 p2" "I r2" "poff p2 = poff p1 \<Longrightarrow> r2 = r1"
      using Suc 1(3,4) by (rule steadyD) blast
    show "\<exists>p' r'. rounds (Suc n) f (p, r) = Some (p', r') \<and> advances p p' \<and> I r' \<and> (poff p' = poff p \<longrightarrow> r' = r)"
      using 1 2 advances_trans [OF 1(2) 2(2)] by (auto simp: advances_def)
  qed
qed

lemma safe_if [walk_rules]: "(c \<Longrightarrow> safe I f) \<Longrightarrow> (\<not> c \<Longrightarrow> safe I g) \<Longrightarrow> safe I (if c then f else g)"
  by simp

lemma steady_in_items [walk_rules]:
  "steady I body \<Longrightarrow> steady I other \<Longrightarrow> steady I (in_items t body other)"
  unfolding in_items_def by (intro walk_rules) (auto intro: steady_safe steady_rounds)

lemma steady_uint_keyed [walk_rules]: "(\<And>k. safe I (field k)) \<Longrightarrow> steady I (uint_keyed field)"
  unfolding uint_keyed_def by (intro walk_rules) auto

lemma steady_uint_value [walk_rules]: "(\<And>v r. I r \<Longrightarrow> I (f v r)) \<Longrightarrow> steady I (uint_value f)"
  unfolding uint_value_def by (intro walk_rules safe_store) auto

lemma steady_bool_value [walk_rules]: "(\<And>v r. I r \<Longrightarrow> I (f v r)) \<Longrightarrow> steady I (bool_value f)"
  unfolding bool_value_def by (intro walk_rules safe_store) auto

lemmas safe_walks = steady_on_value [THEN steady_safe] steady_on_bytes [THEN steady_safe] steady_on_text [THEN steady_safe]
  steady_rounds [THEN steady_safe] steady_in_items [THEN steady_safe] steady_uint_keyed [THEN steady_safe]
  steady_uint_value [THEN steady_safe] steady_bool_value [THEN steady_safe]

text \<open>
  A loop whose body is steady is over after as many rounds as there are bytes left: the rounds beyond that,
  which the announced count may ask for, change nothing.
\<close>

lemma rounds_standstill:
  assumes "f s = Some s"
  shows "rounds n f s = Some s"
  using assms by (induction n) auto

lemma rounds_capped:
  assumes "steady I f" "pwf p" "I r" "plen p - poff p \<le> m"
  shows "rounds n f (p, r) = rounds (min n m) f (p, r)"
  using assms(2-)
proof (induction n arbitrary: m p r)
  case (Suc n)
  obtain p1 r1 where 1: "f (p, r) = Some (p1, r1)" "advances p p1" "pwf p1" "I r1" "poff p1 = poff p \<Longrightarrow> r1 = r"
    using assms(1) Suc.prems(1,2) by (rule steadyD) blast
  show ?case
  proof (cases "poff p1 = poff p")
    case True
    then have "p1 = p" "r1 = r" using 1(2,5) by (auto simp: advances_def)
    then have "rounds k f (p, r) = Some (p, r)" for k using 1(1) by (intro rounds_standstill) simp
    then show ?thesis by simp
  next
    case False
    then have l: "poff p < poff p1" "poff p1 \<le> plen p" "plen p1 = plen p" using 1(2) by (auto simp: advances_def)
    with Suc.prems(3) obtain m' where m: "m = Suc m'" by (cases m) auto
    have "plen p1 - poff p1 \<le> m'" using l Suc.prems(3) m by simp
    from Suc.IH [OF 1(3,4) this] show ?thesis using 1(1) by (simp add: m)
  qed
qed simp


section \<open>The requests\<close>

definition pin_ok :: "pin_req \<Rightarrow> bool" where
  "pin_ok r \<longleftrightarrow> (\<forall>b. cpKeyAgreement r = Some b \<longrightarrow> length b = 64) \<and> length (cpPinAuth r) \<le> 32 \<and>
     length (cpNewPinEnc r) \<le> 64 \<and> length (cpPinHashEnc r) \<le> 64 \<and> length (cpRpId r) < 256"

definition blob_ok :: "blob_req \<Rightarrow> bool" where
  "blob_ok r \<longleftrightarrow> (\<forall>b. lbSet r = Some b \<longrightarrow> length b \<le> 1200)"

definition mgmt_ok :: "mgmt_req \<Rightarrow> bool" where
  "mgmt_ok r \<longleftrightarrow> length (cmRpIdHash r) = 32 \<and> length (cmCredId r) \<le> 64"

definition bio_ok :: "bio_req \<Rightarrow> bool" where
  "bio_ok r \<longleftrightarrow> (\<forall>b. beTemplateId r = Some b \<longrightarrow> length b \<le> 16) \<and>
     (\<forall>b. beFriendlyName r = Some b \<longrightarrow> length b < 64 \<and> 0 \<notin> set b) \<and> length (bePinUvAuthParam r) \<le> 32"

definition mc_ok :: "mc_req \<Rightarrow> bool" where
  "mc_ok r \<longleftrightarrow> length (mcRpId r) < 128 \<and> 0 \<notin> set (mcRpId r) \<and> length (mcHash r) \<le> 32 \<and> length (mcUserId r) \<le> 64 \<and>
     length (mcUserName r) < 128 \<and> 0 \<notin> set (mcUserName r) \<and> 1 \<le> mcCredProtect r \<and> mcCredProtect r \<le> 3 \<and>
     length (mcCredBlobRaw r) \<le> 32 \<and> length (mcExclude r) \<le> 16 \<and> (\<forall>b \<in> set (mcExclude r). length b \<le> 224)"

lemma config_steady: "steady (\<lambda>_. True) (uint_keyed config_field)"
  unfolding config_field_def by (intro walk_rules safe_walks safe_store) auto

lemma steady_cose_field: "steady (\<lambda>r. (\<forall>x. ckX r = Some x \<longrightarrow> length x = 32) \<and> (\<forall>y. ckY r = Some y \<longrightarrow> length y = 32)) (cose_field t v)"
  unfolding cose_field_def coordinate_def
  by (simp, intro conjI impI walk_rules) (auto intro!: walk_rules safe_store)

lemma blob_steady: "steady blob_ok (uint_keyed blob_field)"
  unfolding blob_field_def
  by (intro walk_rules safe_walks safe_store) (auto simp: blob_ok_def MAX_FRAGMENT_LEN_def)

lemma mgmt_steady: "steady mgmt_ok (uint_keyed mgmt_field)"
  unfolding mgmt_field_def mgmt_param_def
  by (intro walk_rules safe_walks safe_store) (auto simp: mgmt_ok_def)

lemma bio_steady: "steady bio_ok (uint_keyed bio_field)"
  unfolding bio_field_def bio_param_def
  by (intro walk_rules safe_walks safe_store) (auto simp: bio_ok_def)


definition cose_ok :: "cose_key \<Rightarrow> bool" where
  "cose_ok r \<longleftrightarrow> (\<forall>x. ckX r = Some x \<longrightarrow> length x = 32) \<and> (\<forall>y. ckY r = Some y \<longrightarrow> length y = 32)"

lemma cose_loop_ok:
  "pwf p \<Longrightarrow> cose_ok r \<Longrightarrow> \<exists>p' r'. cose_loop n (p, r) = Some (p', r') \<and> advances p p' \<and> (\<forall>k. r' = Some k \<longrightarrow> cose_ok k)"
proof (induction n arbitrary: p r)
  case (Suc n)
  from Suc.prems(1) show ?case
  proof (cases rule: readTypeAndValue_cases)
    case (fail q)
    then show ?thesis by simp
  next
    case (ok t v q)
    obtain p1 r1 where 1: "cose_field t v (q, r) = Some (p1, r1)" "advances q p1" "pwf p1" "cose_ok r1"
      using steady_safe [OF steady_cose_field] ok(3) Suc.prems(2) unfolding cose_ok_def [symmetric, abs_def]
      by (rule safeD) (auto simp: cose_ok_def)
    obtain p2 r2 where 2: "cose_loop n (p1, r1) = Some (p2, r2)" "advances p1 p2" "\<forall>k. r2 = Some k \<longrightarrow> cose_ok k"
      using Suc.IH [OF 1(3,4)] by blast
    show ?thesis
      using ok 1 2 advances_trans [OF ok(2) advances_trans [OF 1(2) 2(2)]] by simp
  qed
qed auto

lemma parseCoseKeyPubXY_ok:
  assumes "pwf p"
  shows "\<exists>xy q. parseCoseKeyPubXY p = Some (xy, q) \<and> advances p q \<and> (\<forall>b. xy = Some b \<longrightarrow> length b = 64)"
  using assms
proof (cases rule: readTypeAndValue_cases)
  case (fail q)
  then show ?thesis by (simp add: parseCoseKeyPubXY_def)
next
  case (ok t v q)
  have "cose_ok \<lparr>ckX = None, ckY = None\<rparr>" by (simp add: cose_ok_def)
  then obtain p' r' where l: "cose_loop (unat v) (q, \<lparr>ckX = None, ckY = None\<rparr>) = Some (p', r')" "advances q p'"
    "\<forall>k. r' = Some k \<longrightarrow> cose_ok k"
    using cose_loop_ok [OF ok(3)] by blast
  then show ?thesis
    using ok advances_trans [OF ok(2) l(2)]
    by (auto simp: parseCoseKeyPubXY_def cose_ok_def bind_eq_Some_conv split: if_splits)
qed

lemma pin_steady: "steady pin_ok (uint_keyed pin_field)"
proof (rule steady_uint_keyed)
  fix k :: u64
  have "safe pin_ok (\<lambda>(p, r). do { (xy, p) \<leftarrow> parseCoseKeyPubXY p; Some (p, r\<lparr>cpKeyAgreement := xy\<rparr>) })"
  proof (rule safeI)
    fix p r assume p: "pwf p" and r: "pin_ok r"
    obtain xy q where "parseCoseKeyPubXY p = Some (xy, q)" "advances p q" "\<forall>b. xy = Some b \<longrightarrow> length b = 64"
      using parseCoseKeyPubXY_ok [OF p] by blast
    then show "\<exists>p' r'. (\<lambda>(p, r). do { (xy, p) \<leftarrow> parseCoseKeyPubXY p; Some (p, r\<lparr>cpKeyAgreement := xy\<rparr>) }) (p, r) =
        Some (p', r') \<and> advances p p' \<and> pin_ok r'"
      using r by (simp add: pin_ok_def)
  qed
  note c = this
  show "safe pin_ok (pin_field k)"
    unfolding pin_field_def
    by (intro walk_rules safe_walks safe_store c) (auto simp: pin_ok_def)
qed

lemma steady_add_credential:
  assumes "\<And>r b. I r \<Longrightarrow> length (ids r) < n \<Longrightarrow> length b \<le> 224 \<Longrightarrow> I (upd (\<lambda>l. l @ [b]) r)"
  shows "steady I (add_credential n ids upd)"
proof (rule steadyI)
  fix p r assume p: "pwf p" and r: "I r"
  obtain s q where s: "readByteString 224 p = Some (s, q)" "advances p q" "s = None \<longrightarrow> q = p"
    "\<forall>b. s = Some b \<longrightarrow> length b \<le> 224 \<and> poff p < poff q"
    using readByteString_ok [OF p] by blast
  obtain p' r' where k: "skip (p, r) = Some (p', r')" "advances p p'" "I r'" "poff p' = poff p \<Longrightarrow> r' = r"
    using steady_skip p r by (rule steadyD) blast
  show "\<exists>p' r'. add_credential n ids upd (p, r) = Some (p', r') \<and> advances p p' \<and> I r' \<and> (poff p' = poff p \<longrightarrow> r' = r)"
  proof (cases "length (ids r) < n \<and> s \<noteq> None")
    case True
    then show ?thesis
      using s r assms [of r] by (auto simp: add_credential_def on_bytes_def store_def MAX_CREDENTIAL_ID_LEN_def)
  next
    case False
    then show ?thesis
      using s k by (auto simp: add_credential_def on_bytes_def MAX_CREDENTIAL_ID_LEN_def)
  qed
qed

lemma alg_param_steady: "steady (\<lambda>_. True) alg_param"
  unfolding alg_param_def by (intro walk_rules safe_walks safe_store) auto

lemma safe_seq:
  assumes "safe I f" "safe I g"
  shows "safe I (\<lambda>s. do { s \<leftarrow> f s; g s })"
proof (rule safeI)
  fix p r assume "pwf p" "I r"
  with assms(1) obtain p1 r1 where 1: "f (p, r) = Some (p1, r1)" "advances p p1" "pwf p1" "I r1"
    by (rule safeD) blast
  from assms(2) 1(3,4) obtain p2 r2 where "g (p1, r1) = Some (p2, r2)" "advances p1 p2" "I r2"
    by (rule safeD) blast
  with 1 show "\<exists>p' r'. (do { s \<leftarrow> f (p, r); g s }) = Some (p', r') \<and> advances p p' \<and> I r'"
    using advances_trans by auto
qed

lemma safe_choice: "(c \<Longrightarrow> safe I f) \<Longrightarrow> (\<not> c \<Longrightarrow> safe I g) \<Longrightarrow> safe I (\<lambda>s. if c then f s else g s)"
  by (cases c) simp_all

lemma alg_item_steady: "steady (\<lambda>_. True) (alg_item d)"
  unfolding alg_item_def
  by (intro walk_rules safe_choice safe_seq safe_store steady_safe [OF steady_rounds [OF alg_param_steady]])

lemma safe_mc_algs: "steady mc_ok (mc_algs d)"
  unfolding mc_algs_def
proof (rule steady_on_value [OF safeI steady_skip])
  fix t :: u8 and n :: u64 and p r assume p: "pwf p" and r: "mc_ok r"
  define a where "a = \<lparr>foundDefault = False, foundPQC = False, foundES256 = False, selected = mcAlg r, current = 0\<rparr>"
  obtain p' a' where "rounds (unat n) (alg_item d) (p, a) = Some (p', a')" "advances p p'"
    using steady_safe [OF steady_rounds [OF alg_item_steady]] p TrueI by (rule safeD) blast
  moreover obtain p2 r2 where "skip (p, r) = Some (p2, r2)" "advances p p2" "mc_ok r2"
    using safe_skip p r by (rule safeD) blast
  ultimately show "\<exists>p' r'. (case (p, r) of (p, r) \<Rightarrow>
      if t = 4 then do {
        (p, a) \<leftarrow> rounds (unat n) (alg_item d)
          (p, \<lparr>foundDefault = False, foundPQC = False, foundES256 = False, selected = mcAlg r, current = 0\<rparr>);
        Some (p, r\<lparr>mcAlg := selected a\<rparr>) }
      else skip (p, r)) = Some (p', r') \<and> advances p p' \<and> mc_ok r'"
    using r unfolding a_def by (simp add: mc_ok_def)
qed

lemma mc_steady: "steady mc_ok (uint_keyed (mc_field d))"
  unfolding mc_field_def mc_rp_def mc_user_def mc_ext_item_def mc_exclude_item_def mc_option_def
  by (intro walk_rules safe_if safe_seq safe_walks safe_store safe_on_bytes_other steady_safe [OF safe_mc_algs]
      steady_safe [OF steady_add_credential])
    (auto simp: mc_ok_def MAX_CRED_BLOB_LEN_def MAX_EXCLUDE_CREDENTIALS_def word_le_nat_alt)


text \<open>The walk over the root with at most \<open>m\<close> rounds.\<close>

definition parse_root_within :: "nat \<Rightarrow> 'r walk \<Rightarrow> 'r \<Rightarrow> bytes \<Rightarrow> 'r option option" where
  "parse_root_within m body r data = do {
     (tv, p) \<leftarrow> readTypeAndValue (new_parser data);
     case tv of
       Some (t, n) \<Rightarrow> if t = 5 then do { (p, r) \<leftarrow> rounds (min (unat n) m) body (p, r); Some (Some r) } else Some None
     | None \<Rightarrow> Some None }"

definition bounded_walk :: "'r walk \<Rightarrow> 'r \<Rightarrow> ('r \<Rightarrow> bool) \<Rightarrow> bytes \<Rightarrow> bool" where
  "bounded_walk body r I data \<longleftrightarrow>
     (\<exists>res. parse_root body r data = Some res \<and> pred_option I res \<and> parse_root_within (length data) body r data = Some res)"

lemma bounded_walkI:
  assumes "steady I body" "I r" "length data < 65536"
  shows "bounded_walk body r I data"
proof -
  have "pwf (new_parser data)" using assms(3) by (simp add: pwf_def new_parser_def)
  then show ?thesis
  proof (cases rule: readTypeAndValue_cases)
    case (fail q)
    then show ?thesis by (simp add: bounded_walk_def parse_root_def parse_root_within_def)
  next
    case (ok t n q)
    then have l: "plen q - poff q \<le> length data" by (simp add: advances_def new_parser_def)
    obtain p' r' where "rounds (unat n) body (q, r) = Some (p', r')" "I r'"
      using steady_safe [OF steady_rounds [OF assms(1)]] ok(3) assms(2) by (rule safeD) blast
    then show ?thesis
      using ok rounds_capped [OF assms(1) ok(3) assms(2) l, of "unat n"]
      by (auto simp: bounded_walk_def parse_root_def parse_root_within_def)
  qed
qed

text \<open>
  C25: the parameter loops of the six commands config, clientPIN, largeBlobs, credentialManagement,
  bioEnrollment and makeCredential return on every message; what they store fits the buffers it is
  copied to; and no round after as many as the message has bytes changes anything, whatever count the
  message announces.
\<close>

theorem requests_bounded:
  assumes "length data < 65536"
  shows "bounded_walk (uint_keyed config_field) \<lparr>cfSub = 0, cfMinPin = 0\<rparr> (\<lambda>_. True) data \<and>
    bounded_walk (uint_keyed pin_field) pin_start pin_ok data \<and>
    bounded_walk (uint_keyed blob_field) \<lparr>lbGet = None, lbSet = None, lbOffset = 0, lbLength = None\<rparr> blob_ok data \<and>
    bounded_walk (uint_keyed mgmt_field) \<lparr>cmSub = 0, cmRpIdHash = replicate 32 0, cmCredId = []\<rparr> mgmt_ok data \<and>
    bounded_walk (uint_keyed bio_field) \<lparr>beSub = None, beTemplateId = None, beFriendlyName = None,
      bePinUvAuthParam = [], beModalityOnly = False\<rparr> bio_ok data \<and>
    bounded_walk (uint_keyed (mc_field alg)) (mc_start alg) mc_ok data"
  by (intro conjI bounded_walkI config_steady pin_steady blob_steady mgmt_steady bio_steady mc_steady assms)
    (simp_all add: pin_ok_def pin_start_def blob_ok_def mgmt_ok_def bio_ok_def mc_ok_def mc_start_def)

theorem requests_bounded_witness:
  "\<exists>res. parse_pin [0xA2, 1, 1, 2, 2] = Some res \<and> pred_option pin_ok res"
  using requests_bounded [of "[0xA2, 1, 1, 2, 2]" 0]
  by (simp add: parse_pin_def bounded_walk_def) blast

text \<open>
  The rounds themselves are not bounded by the message: a root map of indefinite length announces
  \<open>2^64 - 1\<close> elements, and at the end of the message no round ends the loop.
\<close>

lemma indefinite_map_spins:
  "readTypeAndValue (new_parser [0xBF]) = Some (Some (5, 0xFFFFFFFFFFFFFFFF), \<lparr>pbuf = [0xBF], poff = 1\<rparr>)"
  "rounds k (uint_keyed field) (\<lparr>pbuf = [0xBF], poff = 1\<rparr>, r) = Some (\<lparr>pbuf = [0xBF], poff = 1\<rparr>, r)"
proof -
  show "readTypeAndValue (new_parser [0xBF]) = Some (Some (5, 0xFFFFFFFFFFFFFFFF), \<lparr>pbuf = [0xBF], poff = 1\<rparr>)"
    by code_simp
  have "skipValue 0 \<lparr>pbuf = [0xBF], poff = 1\<rparr> = Some (False, \<lparr>pbuf = [0xBF], poff = 1\<rparr>)"
    by (simp add: skipValue_rec skip_body_def)
  then show "rounds k (uint_keyed field) (\<lparr>pbuf = [0xBF], poff = 1\<rparr>, r) = Some (\<lparr>pbuf = [0xBF], poff = 1\<rparr>, r)"
    by (intro rounds_standstill) (simp add: uint_keyed_def on_value_def readTypeAndValue_def skip_def)
qed

text \<open>
  getAssertion reads the header of the extensions without testing the result: when the header is broken
  it loops up to an uninitialized count.
\<close>

lemma broken_extension_header: "parse_ga [0xA1, 4, 0xBC] = None"
  by code_simp

end
