(* ===== verification/CryptoAccel.thy ===== *)
theory CryptoAccel
  imports Prelude
begin

text \<open>
  The symmetric primitives of the firmware (\<open>include/CryptoAccel.h\<close>, \<open>src/CryptoAccel.cpp\<close>): each
  uses the FPGA when it is attached and the payload is worth it, and mbedTLS otherwise.

  The two back ends are parameters, the record \<open>backends\<close>: the answers of the FPGA driver (\<open>None\<close> is
  its \<open>false\<close>; the driver's AES operations work with the key that \<open>fpga_aes_set_key\<close> has just
  loaded under the same lock) and the functions of mbedTLS (\<open>None\<close> is a return code other than 0).
\<close>

record backends =
  fpga_available :: bool
  fpga_has_sym :: bool
  fpga_has_aes :: bool
  fpga_sha256 :: "bytes \<Rightarrow> bytes option"
  fpga_hmac_sha256 :: "bytes \<Rightarrow> bytes \<Rightarrow> bytes option"
  fpga_pbkdf2_sha256 :: "bytes \<Rightarrow> bytes \<Rightarrow> nat \<Rightarrow> nat \<Rightarrow> bytes option"
  fpga_aes_set_key :: "bytes \<Rightarrow> bool"
  fpga_aes_cbc :: "bytes \<Rightarrow> bool \<Rightarrow> bytes \<Rightarrow> bytes \<Rightarrow> bytes option"
  fpga_aes_gcm_encrypt :: "bytes \<Rightarrow> bytes \<Rightarrow> bytes \<Rightarrow> bytes \<Rightarrow> (bytes \<times> bytes) option"
  fpga_aes_gcm_decrypt :: "bytes \<Rightarrow> bytes \<Rightarrow> bytes \<Rightarrow> bytes \<Rightarrow> bytes \<Rightarrow> bytes option"
  fpga_auth_fail :: "bytes \<Rightarrow> bytes \<Rightarrow> bytes \<Rightarrow> bytes \<Rightarrow> bytes \<Rightarrow> bool"
  fpga_fill_random :: "nat \<Rightarrow> bytes option"
  mbed_sha256 :: "bytes \<Rightarrow> bytes"
  mbed_hmac_sha256 :: "bytes \<Rightarrow> bytes \<Rightarrow> bytes"
  mbed_pbkdf2_sha256 :: "bytes \<Rightarrow> bytes \<Rightarrow> nat \<Rightarrow> nat \<Rightarrow> bytes option"
  mbed_aes_cbc :: "bytes \<Rightarrow> bool \<Rightarrow> bytes \<Rightarrow> bytes \<Rightarrow> bytes option"
  mbed_gcm_encrypt :: "bytes \<Rightarrow> bytes \<Rightarrow> bytes \<Rightarrow> bytes \<Rightarrow> (bytes \<times> bytes) option"
  mbed_gcm_decrypt :: "bytes \<Rightarrow> bytes \<Rightarrow> bytes \<Rightarrow> bytes \<Rightarrow> bytes \<Rightarrow> bytes option"

definition ACCEL_MIN_HASH_BYTES :: nat where "ACCEL_MIN_HASH_BYTES = 1024"
definition ACCEL_MIN_AES_BYTES :: nat where "ACCEL_MIN_AES_BYTES = 256"
definition ACCEL_MIN_PBKDF2_ITER :: nat where "ACCEL_MIN_PBKDF2_ITER = 1000"

section \<open>Dispatch\<close>

definition accel_sha256 :: "backends \<Rightarrow> bytes \<Rightarrow> bytes" where
  "accel_sha256 b data =
     (if ACCEL_MIN_HASH_BYTES \<le> length data \<and> fpga_has_sym b
      then (case fpga_sha256 b data of Some out \<Rightarrow> out | None \<Rightarrow> mbed_sha256 b data)
      else mbed_sha256 b data)"

definition accel_hmac_sha256 :: "backends \<Rightarrow> bytes \<Rightarrow> bytes \<Rightarrow> bytes" where
  "accel_hmac_sha256 b key data =
     (let software = mbed_hmac_sha256 b key data in
      if ACCEL_MIN_HASH_BYTES \<le> length data then
        let k = (if 64 < length key then mbed_sha256 b key else key) in
        if fpga_has_sym b
        then (case fpga_hmac_sha256 b k data of Some out \<Rightarrow> out | None \<Rightarrow> software)
        else software
      else software)"

definition accel_pbkdf2_sha256 :: "backends \<Rightarrow> bytes \<Rightarrow> bytes \<Rightarrow> nat \<Rightarrow> nat \<Rightarrow> bytes option" where
  "accel_pbkdf2_sha256 b pw salt iterations outLen =
     (let software = mbed_pbkdf2_sha256 b pw salt iterations outLen in
      if ACCEL_MIN_PBKDF2_ITER \<le> iterations then
        let p = (if 64 < length pw then mbed_sha256 b pw else pw) in
        if fpga_has_sym b
        then (case fpga_pbkdf2_sha256 b p salt iterations outLen of
            Some out \<Rightarrow> Some out | None \<Rightarrow> software)
        else software
      else software)"

definition accel_aes256_cbc :: "backends \<Rightarrow> bool \<Rightarrow> bytes \<Rightarrow> bytes \<Rightarrow> bytes \<Rightarrow> bytes option" where
  "accel_aes256_cbc b encrypt key iv inp =
     (let len = length inp; software = mbed_aes_cbc b key encrypt iv inp in
      if len = 0 \<or> len mod 16 \<noteq> 0 then None
      else if ACCEL_MIN_AES_BYTES \<le> len \<and> len \<le> 7900 \<and> fpga_has_aes b \<and> fpga_aes_set_key b key
      then (case fpga_aes_cbc b key encrypt iv inp of Some out \<Rightarrow> Some out | None \<Rightarrow> software)
      else software)"

definition accel_aes256_gcm_encrypt ::
  "backends \<Rightarrow> bytes \<Rightarrow> bytes \<Rightarrow> bytes \<Rightarrow> bytes \<Rightarrow> (bytes \<times> bytes) option" where
  "accel_aes256_gcm_encrypt b key iv aad inp =
     (let len = length inp; software = mbed_gcm_encrypt b key iv aad inp in
      if ACCEL_MIN_AES_BYTES \<le> len \<and> len + length aad \<le> 7900
        \<and> fpga_has_aes b \<and> fpga_aes_set_key b key
      then (case fpga_aes_gcm_encrypt b key iv aad inp of
          Some out \<Rightarrow> Some out | None \<Rightarrow> software)
      else software)"

definition accel_aes256_gcm_decrypt ::
  "backends \<Rightarrow> bytes \<Rightarrow> bytes \<Rightarrow> bytes \<Rightarrow> bytes \<Rightarrow> bytes \<Rightarrow> bytes option" where
  "accel_aes256_gcm_decrypt b key iv aad inp tag =
     (let len = length inp; software = mbed_gcm_decrypt b key iv aad inp tag in
      if ACCEL_MIN_AES_BYTES \<le> len \<and> len + length aad \<le> 7900
        \<and> fpga_has_aes b \<and> fpga_aes_set_key b key
      then (case fpga_aes_gcm_decrypt b key iv aad inp tag of
          Some out \<Rightarrow> Some out
        | None \<Rightarrow> if fpga_auth_fail b key iv aad inp tag then None else software)
      else software)"

text \<open>\<open>accel_mix_random\<close> returns the buffer; \<open>heap\<close> says whether its \<open>malloc\<close> succeeds.\<close>

definition accel_mix_random :: "backends \<Rightarrow> bool \<Rightarrow> bytes \<Rightarrow> bytes" where
  "accel_mix_random b heap buf =
     (if \<not> heap then buf
      else if fpga_available b then
        (case fpga_fill_random b (length buf) of
           Some tmp \<Rightarrow> map2 (XOR) buf tmp
         | None \<Rightarrow> buf)
      else buf)"

section \<open>The FPGA is transparent\<close>

text \<open>
  The FPGA is consistent with mbedTLS: whenever it answers, the answer is the one mbedTLS gives,
  and it reports an authentication failure only for a tag that mbedTLS rejects too. HMAC and
  PBKDF2 replace a key of more than 64 bytes by its hash (RFC 2104).
\<close>

definition consistent :: "backends \<Rightarrow> bool" where
  "consistent b \<longleftrightarrow>
     (\<forall>d r. fpga_sha256 b d = Some r \<longrightarrow> r = mbed_sha256 b d) \<and>
     (\<forall>k d r. fpga_hmac_sha256 b k d = Some r \<longrightarrow> r = mbed_hmac_sha256 b k d) \<and>
     (\<forall>p s i n r. fpga_pbkdf2_sha256 b p s i n = Some r \<longrightarrow> mbed_pbkdf2_sha256 b p s i n = Some r) \<and>
     (\<forall>k e v d r. fpga_aes_cbc b k e v d = Some r \<longrightarrow> mbed_aes_cbc b k e v d = Some r) \<and>
     (\<forall>k v a d r. fpga_aes_gcm_encrypt b k v a d = Some r \<longrightarrow> mbed_gcm_encrypt b k v a d = Some r) \<and>
     (\<forall>k v a d t r. fpga_aes_gcm_decrypt b k v a d t = Some r \<longrightarrow> mbed_gcm_decrypt b k v a d t = Some r) \<and>
     (\<forall>k v a d t. fpga_auth_fail b k v a d t \<longrightarrow> mbed_gcm_decrypt b k v a d t = None) \<and>
     (\<forall>k d. 64 < length k \<longrightarrow> mbed_hmac_sha256 b k d = mbed_hmac_sha256 b (mbed_sha256 b k) d) \<and>
     (\<forall>p s i n. 64 < length p \<longrightarrow>
        mbed_pbkdf2_sha256 b p s i n = mbed_pbkdf2_sha256 b (mbed_sha256 b p) s i n)"

lemma consistentD:
  assumes "consistent b"
  shows "fpga_sha256 b d = Some r \<Longrightarrow> r = mbed_sha256 b d"
    "fpga_hmac_sha256 b k d = Some r \<Longrightarrow> r = mbed_hmac_sha256 b k d"
    "fpga_pbkdf2_sha256 b k d i n = Some r \<Longrightarrow> mbed_pbkdf2_sha256 b k d i n = Some r"
    "fpga_aes_cbc b k e v d = Some r \<Longrightarrow> mbed_aes_cbc b k e v d = Some r"
    "fpga_aes_gcm_encrypt b k v a d = Some c \<Longrightarrow> mbed_gcm_encrypt b k v a d = Some c"
    "fpga_aes_gcm_decrypt b k v a d t = Some r \<Longrightarrow> mbed_gcm_decrypt b k v a d t = Some r"
    "fpga_auth_fail b k v a d t \<Longrightarrow> mbed_gcm_decrypt b k v a d t = None"
    "64 < length k \<Longrightarrow> mbed_hmac_sha256 b (mbed_sha256 b k) d = mbed_hmac_sha256 b k d"
    "64 < length k \<Longrightarrow> mbed_pbkdf2_sha256 b (mbed_sha256 b k) d i n = mbed_pbkdf2_sha256 b k d i n"
  using assms by (cases c; simp add: consistent_def)+

lemma accel_sha256_eq: "consistent b \<Longrightarrow> accel_sha256 b d = mbed_sha256 b d"
  by (auto simp: accel_sha256_def split: option.split dest: consistentD)

lemma accel_hmac_eq: "consistent b \<Longrightarrow> accel_hmac_sha256 b k d = mbed_hmac_sha256 b k d"
  using consistentD(2) [of b k d] consistentD(2) [of b "mbed_sha256 b k" d] consistentD(8) [of b k d]
  by (auto simp: accel_hmac_sha256_def Let_def split: option.split)

lemma accel_pbkdf2_eq: "consistent b \<Longrightarrow> accel_pbkdf2_sha256 b p s i n = mbed_pbkdf2_sha256 b p s i n"
  using consistentD(3) [of b p s i n] consistentD(3) [of b "mbed_sha256 b p" s i n]
    consistentD(9) [of b p s i n]
  by (auto simp: accel_pbkdf2_sha256_def Let_def split: option.split)

lemma accel_cbc_eq:
  "consistent b \<Longrightarrow> accel_aes256_cbc b e k v d =
    (if d = [] \<or> length d mod 16 \<noteq> 0 then None else mbed_aes_cbc b k e v d)"
  by (auto simp: accel_aes256_cbc_def Let_def split: option.split dest: consistentD(4))

lemma accel_gcm_encrypt_eq:
  "consistent b \<Longrightarrow> accel_aes256_gcm_encrypt b k v a d = mbed_gcm_encrypt b k v a d"
  by (auto simp: accel_aes256_gcm_encrypt_def Let_def split: option.split dest: consistentD(5))

lemma accel_gcm_decrypt_eq:
  "consistent b \<Longrightarrow> accel_aes256_gcm_decrypt b k v a d t = mbed_gcm_decrypt b k v a d t"
  by (auto simp: accel_aes256_gcm_decrypt_def Let_def split: option.split
      dest: consistentD(6,7))

section \<open>Properties\<close>


definition toy_backends :: backends where
  "toy_backends = \<lparr>fpga_available = True, fpga_has_sym = True, fpga_has_aes = True,
     fpga_sha256 = (\<lambda>d. if length d = 2000 then None else Some (take 32 d)),
     fpga_hmac_sha256 = (\<lambda>k d. Some (take 32 d)),
     fpga_pbkdf2_sha256 = (\<lambda>p s i n. Some (replicate n 7)), fpga_aes_set_key = (\<lambda>k. True),
     fpga_aes_cbc = (\<lambda>k e v d. Some (rev d)), fpga_aes_gcm_encrypt = (\<lambda>k v a d. Some (d, k)),
     fpga_aes_gcm_decrypt = (\<lambda>k v a d t. if t = k then Some d else None),
     fpga_auth_fail = (\<lambda>k v a d t. t \<noteq> k), fpga_fill_random = (\<lambda>n. Some (replicate n 9)),
     mbed_sha256 = take 32, mbed_hmac_sha256 = (\<lambda>k d. take 32 d),
     mbed_pbkdf2_sha256 = (\<lambda>p s i n. Some (replicate n 7)),
     mbed_aes_cbc = (\<lambda>k e v d. Some (rev d)), mbed_gcm_encrypt = (\<lambda>k v a d. Some (d, k)),
     mbed_gcm_decrypt = (\<lambda>k v a d t. if t = k then Some d else None)\<rparr>"

lemma toy_consistent: "consistent toy_backends"
  by (simp add: consistent_def toy_backends_def)


text \<open>
  mixing in the FPGA's random bytes keeps the entropy of the buffer: it keeps the length, and for
  any output of the FPGA the mixing is injective, so no two buffers become equal.
\<close>

theorem mix_random_injective:
  assumes "\<forall>n r. fpga_fill_random b n = Some r \<longrightarrow> length r = n"
    and "length x = length y" "accel_mix_random b heap x = accel_mix_random b heap y"
  shows "x = y \<and> length (accel_mix_random b heap x) = length x"
proof (cases "fpga_fill_random b (length x)")
  case None
  with assms show ?thesis by (simp add: accel_mix_random_def split: if_splits)
next
  case (Some r)
  then have l: "length r = length x" "length r = length y" using assms by auto
  have inj: "u = v" if "length u = length r" "length v = length r"
    "map2 (XOR) u r = map2 (XOR) v r" for u v :: bytes
  proof (rule nth_equalityI)
    fix i assume i: "i < length u"
    have "map2 (XOR) u r ! i = map2 (XOR) v r ! i" by (simp only: that(3))
    moreover have "map2 (XOR) u r ! i = u ! i XOR r ! i" "map2 (XOR) v r ! i = v ! i XOR r ! i"
      using i that(1,2) by simp_all
    ultimately have "(u ! i XOR r ! i) XOR r ! i = (v ! i XOR r ! i) XOR r ! i" by simp
    then show "u ! i = v ! i" by (simp only: xor.assoc xor_self_eq xor.right_neutral)
  qed (use that in simp)
  have m: "accel_mix_random b heap z = (if heap \<and> fpga_available b then map2 (XOR) z r else z)"
    if "length z = length x" for z
    using Some that by (simp add: accel_mix_random_def)
  note mx = m [OF refl] and my = m [OF assms(2) [symmetric]]
  have "x = y"
  proof (cases "heap \<and> fpga_available b")
    case True
    have "map2 (XOR) x r = map2 (XOR) y r" using assms(3) unfolding mx my if_P [OF True] .
    then show ?thesis by (rule inj [OF l(1) [symmetric] l(2) [symmetric]])
  next
    case False
    show ?thesis using assms(3) unfolding mx my if_not_P [OF False] .
  qed
  with l show ?thesis by (simp add: m)
qed

theorem mix_random_injective_witness:
  "length (accel_mix_random toy_backends True [1, 2, 3]) = 3"
  using mix_random_injective [of toy_backends "[1, 2, 3]" "[1, 2, 3]" True]
  by (simp add: toy_backends_def)

end
