(* ===== verification/VaultCrypto.thy ===== *)
theory VaultCrypto
  imports CryptoAccel Text "HOL-Library.Monad_Syntax" "HOL-Library.Multiset"
begin

text \<open>
  The firmware's own code around the primitives (\<open>src/CryptoManager.cpp\<close>): the AES-GCM nonce
  generator, the encrypted text format of stored payloads and of the serial tunnel, base32 and TOTP,
  and the password generator.
\<close>

section \<open>Nonces\<close>

record nonce_state =
  boot_counter :: u32
  session_counter :: u32
  nonce_subsystem_initialized :: bool

definition u32_bytes :: "u32 \<Rightarrow> bytes" where
  "u32_bytes w = [ucast (drop_bit 24 w AND 0xFF), ucast (drop_bit 16 w AND 0xFF),
     ucast (drop_bit 8 w AND 0xFF), ucast (w AND 0xFF)]"

text \<open>
  \<open>boot_cnt\<close> is what \<open>nvs_get_u32\<close> finds in flash (\<open>None\<close>: no such key); the result is the state in
  RAM and what is committed to flash. When \<open>nvs_open\<close> fails nothing changes.
\<close>

definition init_aes_nonce_subsystem ::
  "bool \<Rightarrow> u32 option \<Rightarrow> nonce_state \<Rightarrow> nonce_state \<times> u32 option" where
  "init_aes_nonce_subsystem opened boot_cnt s =
     (if opened then
        let c = (case boot_cnt of Some c \<Rightarrow> c | None \<Rightarrow> 0) + 1 in
        (s\<lparr>boot_counter := c, nonce_subsystem_initialized := True\<rparr>, Some c)
      else (s, boot_cnt))"

text \<open>\<open>None\<close> is \<open>abort()\<close>; \<open>pad\<close> is the result of \<open>esp_random\<close>.\<close>

definition generate_aes_gcm_nonce :: "u32 \<Rightarrow> nonce_state \<Rightarrow> (bytes \<times> nonce_state) option" where
  "generate_aes_gcm_nonce pad s =
     (if \<not> nonce_subsystem_initialized s then None
      else let s = s\<lparr>session_counter := session_counter s + 1\<rparr> in
        Some (u32_bytes (boot_counter s) @ u32_bytes (session_counter s) @ u32_bytes pad, s))"

section \<open>Stored payloads\<close>

text \<open>
  \<open>heap n\<close> says whether \<open>malloc(n)\<close> succeeds. The key is the 32 bytes at \<open>key256\<close>.
\<close>

definition encryptStoragePayload ::
  "backends \<Rightarrow> (nat \<Rightarrow> bool) \<Rightarrow> u32 \<Rightarrow> bytes \<Rightarrow> bytes \<Rightarrow> nonce_state \<Rightarrow> (bytes \<times> nonce_state) option" where
  "encryptStoragePayload b heap pad plainText key s = do {
     (iv, s) \<leftarrow> generate_aes_gcm_nonce pad s;
     if \<not> heap (length plainText) then Some ([], s)
     else case accel_aes256_gcm_encrypt b key iv [] plainText of
         None \<Rightarrow> Some ([], s)
       | Some (cipher, tag) \<Rightarrow> Some (toHex iv @ [58] @ toHex cipher @ [58] @ toHex tag, s) }"

definition decryptStoragePayload :: "backends \<Rightarrow> (nat \<Rightarrow> bool) \<Rightarrow> bytes \<Rightarrow> bytes \<Rightarrow> bytes" where
  "decryptStoragePayload b heap payload key =
     (case indexOf 58 payload 0 of
        None \<Rightarrow> []
      | Some c1 \<Rightarrow>
     (case indexOf 58 payload (c1 + 1) of
        None \<Rightarrow> []
      | Some c2 \<Rightarrow>
          let ivHex = substring payload 0 c1;
              cipherHex = substring payload (c1 + 1) c2;
              tagHex = drop (c2 + 1) payload;
              cipherLen = length cipherHex div 2 in
          if length ivHex \<noteq> 24 \<or> length tagHex \<noteq> 32 then []
          else if cipherLen = 0 then []
          else if \<not> heap cipherLen \<or> \<not> heap (cipherLen + 1) then []
          else case accel_aes256_gcm_decrypt b key (fromHex ivHex 12) [] (fromHex cipherHex cipherLen)
              (fromHex tagHex 16) of
              None \<Rightarrow> []
            | Some plain \<Rightarrow> cstr plain))"

section \<open>The serial tunnel\<close>

definition encryptMsg ::
  "backends \<Rightarrow> (nat \<Rightarrow> bool) \<Rightarrow> u32 \<Rightarrow> bool \<Rightarrow> bytes \<Rightarrow> bytes \<Rightarrow> nonce_state \<Rightarrow> (bytes \<times> nonce_state) option" where
  "encryptMsg b heap pad encryptionActive aesKey plainText s =
     (if \<not> encryptionActive then Some (plainText, s)
      else do {
        (iv, s) \<leftarrow> generate_aes_gcm_nonce pad s;
        if \<not> heap (length plainText) then Some ([], s)
        else case accel_aes256_gcm_encrypt b aesKey iv [] plainText of
            None \<Rightarrow> Some ([], s)
          | Some (cipher, tag) \<Rightarrow>
              Some ([69, 78, 67, 58] @ toHex iv @ [58] @ toHex cipher @ toHex tag, s) })"

definition decryptMsg :: "backends \<Rightarrow> (nat \<Rightarrow> bool) \<Rightarrow> bytes \<Rightarrow> bytes \<Rightarrow> bytes" where
  "decryptMsg b heap aesKey payload =
     (case indexOf 58 payload 0 of
        None \<Rightarrow> []
      | Some c1 \<Rightarrow>
     (case indexOf 58 payload (c1 + 1) of
        None \<Rightarrow> []
      | Some c2 \<Rightarrow>
          let ivHex = substring payload (c1 + 1) c2;
              dataHex = drop (c2 + 1) payload;
              dataLen = length dataHex div 2;
              cipherLen = dataLen - 16 in
          if length ivHex \<noteq> 24 then []
          else if dataLen < 16 then []
          else if \<not> heap dataLen then []
          else if \<not> heap (cipherLen + 1) then []
          else
            let full = fromHex dataHex dataLen in
            case accel_aes256_gcm_decrypt b aesKey (fromHex ivHex 12) [] (take cipherLen full)
              (drop cipherLen full) of
              None \<Rightarrow> []
            | Some plain \<Rightarrow> cstr plain))"

section \<open>TOTP\<close>

text \<open>
  One character of \<open>decodeBase32\<close>: the accumulator \<open>buffer\<close> and \<open>bitsLeft\<close> are \<open>int\<close>s, the shift is the
  one gcc generates. A byte is stored at \<open>out[count]\<close>, which must lie in the \<open>cap\<close> bytes of the output.
\<close>

definition base32_value :: "u8 \<Rightarrow> u8 option" where
  "base32_value c =
     (if 65 \<le> c \<and> c \<le> 90 then Some (c - 65)
      else if 97 \<le> c \<and> c \<le> 122 then Some (c - 97)
      else if 50 \<le> c \<and> c \<le> 55 then Some (c - 50 + 26)
      else None)"

fun base32_loop :: "nat \<Rightarrow> u32 \<Rightarrow> nat \<Rightarrow> bytes \<Rightarrow> bytes \<Rightarrow> bytes option" where
  "base32_loop cap buffer bitsLeft out [] = Some out"
| "base32_loop cap buffer bitsLeft out (c # cs) =
     (case base32_value c of
        None \<Rightarrow> base32_loop cap buffer bitsLeft out cs
      | Some val \<Rightarrow>
          let buffer = push_bit 5 buffer OR ucast val; bitsLeft = bitsLeft + 5 in
          if 8 \<le> bitsLeft then
            if length out < cap then
              base32_loop cap buffer (bitsLeft - 8)
                (out @ [ucast (drop_bit (bitsLeft - 8) buffer AND 0xFF)]) cs
            else None
          else base32_loop cap buffer bitsLeft out cs)"

definition decodeBase32 :: "nat \<Rightarrow> bytes \<Rightarrow> bytes option" where
  "decodeBase32 cap b32 = base32_loop cap 0 0 [] b32"

text \<open>
  \<open>generateTOTP\<close> with HMAC-SHA1 as a parameter; \<open>key[64]\<close> is the capacity of the decoded secret.
  The result is the decimal string of six digits.
\<close>

definition time_bytes :: "u32 \<Rightarrow> bytes" where
  "time_bytes t = map (\<lambda>i. ucast (drop_bit (8 * i) (ucast (t div 30) :: u64) AND 0xFF)) (rev [0..<8])"

definition decimal6 :: "nat \<Rightarrow> bytes" where
  "decimal6 n = map (\<lambda>k. 48 + of_nat (n div 10 ^ k mod 10)) (rev [0..<6])"

definition generateTOTP :: "(bytes \<Rightarrow> bytes \<Rightarrow> bytes) \<Rightarrow> bytes \<Rightarrow> u32 \<Rightarrow> bytes option" where
  "generateTOTP hmac_sha1 base32Secret unixTime = do {
     key \<leftarrow> decodeBase32 64 base32Secret;
     let hash = hmac_sha1 key (time_bytes unixTime);
     let offset = unat (hash ! 19 AND 0x0F);
     let binary = (push_bit 24 (ucast (hash ! offset AND 0x7F)) OR
       push_bit 16 (ucast (hash ! (offset + 1))) OR
       push_bit 8 (ucast (hash ! (offset + 2))) OR ucast (hash ! (offset + 3)) :: u32);
     Some (decimal6 (unat binary mod 1000000)) }"

section \<open>Passwords\<close>

definition lowerPool :: bytes where
  "lowerPool = ascii ''abcdefghijkmnopqrstuvwxyz''"

definition upperPool :: bytes where
  "upperPool = ascii ''ABCDEFGHIJKLMNPQRSTUVWXYZ''"

definition numPool :: bytes where
  "numPool = ascii ''23456789''"

definition symPool :: bytes where
  "symPool = ascii ''!@#$%^*()-_=+''"

definition allPool :: bytes where
  "allPool = lowerPool @ upperPool @ numPool @ symPool"

definition pick :: "bytes \<Rightarrow> u8 \<Rightarrow> u8" where
  "pick pool r = pool ! (unat r mod length pool)"

definition swap :: "nat \<Rightarrow> nat \<Rightarrow> bytes \<Rightarrow> bytes" where
  "swap i j xs = xs[i := xs ! j, j := xs ! i]"

text \<open>\<open>random n\<close> is what \<open>secureFillRandom\<close> writes into \<open>n\<close> bytes; \<open>heap\<close> is the \<open>malloc\<close>.\<close>

definition generateRandomPassword :: "(nat \<Rightarrow> bool) \<Rightarrow> (nat \<Rightarrow> bytes) \<Rightarrow> nat \<Rightarrow> bytes" where
  "generateRandomPassword heap random n =
     (let len = max 4 n; r = random len in
      if \<not> heap len then []
      else
        let password = [pick lowerPool (r ! 0), pick upperPool (r ! 1), pick numPool (r ! 2),
              pick symPool (r ! 3)] @ map (\<lambda>i. pick allPool (r ! i)) [4..<len]
        in foldl (\<lambda>p i. swap i (unat (r ! i) mod len) p) password [0..<len])"

section \<open>Nonces do not repeat\<close>

lemma u32_bytes_inj: "u32_bytes a = u32_bytes b \<Longrightarrow> a = b"
proof -
  assume e: "u32_bytes a = u32_bytes b"
  have k: "(255 :: u32) = mask 8" by (simp add: mask_eq_exp_minus_1)
  show "a = b"
  proof (rule bit_word_eqI)
    fix n assume n: "n < LENGTH(32)"
    have r: "bit (ucast (drop_bit s w AND mask 8) :: u8) (n - s) \<longleftrightarrow> bit w n"
      if "s \<le> n" "n < s + 8" for s and w :: u32
      using that by (auto simp: bit_simps)
    consider "n < 8" | "8 \<le> n" "n < 16" | "16 \<le> n" "n < 24" | "24 \<le> n" "n < 32"
      using n by fastforce
    then show "bit a n \<longleftrightarrow> bit b n"
      using e r [of 0 a] r [of 0 b] r [of 8 a] r [of 8 b] r [of 16 a] r [of 16 b] r [of 24 a] r [of 24 b]
      unfolding u32_bytes_def k by cases auto
  qed
qed

lemma length_u32_bytes [simp]: "length (u32_bytes w) = 4"
  by (simp add: u32_bytes_def)

text \<open>The nonces of \<open>k\<close> successive calls after a boot.\<close>

fun nonces :: "u32 list \<Rightarrow> nonce_state \<Rightarrow> bytes list option" where
  "nonces [] s = Some []"
| "nonces (pad # pads) s = do {
     (n, s) \<leftarrow> generate_aes_gcm_nonce pad s;
     ns \<leftarrow> nonces pads s;
     Some (n # ns) }"

lemma nonces_length: "nonces pads s = Some ns \<Longrightarrow> length ns = length pads"
  by (induction pads arbitrary: s ns) (auto simp: bind_eq_Some_conv)

lemma nonces_nth:
  assumes "nonces pads s = Some ns" "i < length ns"
  shows "ns ! i = u32_bytes (boot_counter s) @ u32_bytes (session_counter s + of_nat (Suc i)) @
    u32_bytes (pads ! i)"
  using assms
proof (induction pads arbitrary: s ns i)
  case (Cons p ps)
  then show ?case
    by (cases i) (auto simp: generate_aes_gcm_nonce_def Let_def bind_eq_Some_conv algebra_simps
        split: if_splits)
qed auto

lemma nonces_distinct:
  assumes "nonces pads s = Some ns" "length pads < 2 ^ 32"
  shows "distinct ns"
proof (unfold distinct_conv_nth, intro allI impI)
  fix i j assume ij: "i < length ns" "j < length ns" "i \<noteq> j"
  show "ns ! i \<noteq> ns ! j"
  proof
    assume "ns ! i = ns ! j"
    then have "u32_bytes (session_counter s + of_nat (Suc i)) = u32_bytes (session_counter s + of_nat (Suc j))"
      using nonces_nth [OF assms(1)] ij by simp
    then have "(of_nat (Suc i) :: u32) = of_nat (Suc j)"
      by (metis u32_bytes_inj add_left_cancel)
    moreover have "Suc i < 2 ^ 32 + 1" "Suc j < 2 ^ 32 + 1" "length ns = length pads"
      using ij assms(2) nonces_length [OF assms(1)] by simp_all
    ultimately show False
      using ij assms(2) by (simp add: word_of_nat_eq_iff take_bit_nat_eq_self)
  qed
qed

lemma nonces_boots:
  assumes "nonces pads s = Some ns" "nonces pads' s' = Some ns'" "boot_counter s \<noteq> boot_counter s'"
  shows "set ns \<inter> set ns' = {}"
proof -
  have "u32_bytes (boot_counter s) \<noteq> u32_bytes (boot_counter s')"
    using assms(3) u32_bytes_inj by blast
  then have "ns ! i \<noteq> ns' ! j" if "i < length ns" "j < length ns'" for i j
    using nonces_nth [OF assms(1) that(1)] nonces_nth [OF assms(2) that(2)] by simp
  then show ?thesis by (auto simp: in_set_conv_nth) (metis)
qed


section \<open>Stored payloads are read back\<close>

definition gcm_ok :: "backends \<Rightarrow> bool" where
  "gcm_ok b \<longleftrightarrow> (\<forall>k iv a p c t. mbed_gcm_encrypt b k iv a p = Some (c, t) \<longrightarrow>
     length c = length p \<and> length t = 16 \<and> mbed_gcm_decrypt b k iv a c t = Some p)"

lemma nonce_length:
  "generate_aes_gcm_nonce pad s = Some (iv, s') \<Longrightarrow> length iv = 12"
  by (auto simp: generate_aes_gcm_nonce_def Let_def split: if_splits)

lemma decryptStoragePayload_parts:
  assumes "consistent b" "length iv = 12" "length t = 16" "c \<noteq> []"
    and "heap (length c)" "heap (length c + 1)"
  shows "decryptStoragePayload b heap (toHex iv @ [58] @ toHex c @ [58] @ toHex t) key =
    (case mbed_gcm_decrypt b key iv [] c t of None \<Rightarrow> [] | Some plain \<Rightarrow> cstr plain)"
proof -
  define p where "p = toHex iv @ [58] @ toHex c @ [58] @ toHex t"
  have 1: "indexOf 58 p 0 = Some 24"
    using indexOf_append [of 58 "toHex iv" 0 "[]" "toHex c @ [58] @ toHex t"] assms(2)
    by (simp add: p_def toHex_plain)
  have 2: "indexOf 58 p 25 = Some (25 + 2 * length c)"
    using indexOf_append [of 58 "toHex c" 25 "toHex iv @ [58]" "toHex t"] assms(2)
    by (simp add: p_def toHex_plain)
  have 3: "substring p 0 24 = toHex iv" "substring p 25 (25 + 2 * length c) = toHex c"
    using substring_append [of 0 "[]" 24 "toHex iv" "[58] @ toHex c @ [58] @ toHex t"]
      substring_append [of 25 "toHex iv @ [58]" "25 + 2 * length c" "toHex c" "[58] @ toHex t"] assms(2)
    by (simp_all add: p_def)
  have 4: "drop (26 + 2 * length c) p = toHex t"
    using assms(2) by (simp add: p_def)
  show ?thesis
    unfolding p_def [symmetric] decryptStoragePayload_def Let_def
    using assms 1 2 3 4 by (simp add: fromHex_toHex accel_gcm_decrypt_eq)
qed

lemma storage_roundtrip:
  assumes "consistent b" "gcm_ok b" "p \<noteq> []" "0 \<notin> set p" "heap (length p)" "heap (length p + 1)"
    and "encryptStoragePayload b heap pad p key s = Some (e, s')" "e \<noteq> []"
  shows "decryptStoragePayload b heap e key = p"
proof -
  obtain iv where iv: "generate_aes_gcm_nonce pad s = Some (iv, s')" "length iv = 12"
    using assms(7) nonce_length
    by (auto simp: encryptStoragePayload_def bind_eq_Some_conv split: if_splits option.splits)
  then obtain c t where c: "mbed_gcm_encrypt b key iv [] p = Some (c, t)"
    "e = toHex iv @ [58] @ toHex c @ [58] @ toHex t"
    using assms by (auto simp: encryptStoragePayload_def accel_gcm_encrypt_eq split: if_splits option.splits)
  have "length c = length p" "length t = 16" "mbed_gcm_decrypt b key iv [] c t = Some p"
    using assms(2) c(1) unfolding gcm_ok_def by blast+
  with decryptStoragePayload_parts [OF assms(1) iv(2), of t c heap key] assms(3-6) show ?thesis
    unfolding c(2) by force
qed

text \<open>Text without a NUL that decrypts was produced under the same key.\<close>

lemma tunnel_roundtrip:
  assumes "consistent b" "gcm_ok b" "0 \<notin> set p"
    and "\<forall>n. heap n" "encryptMsg b heap pad True aesKey p s = Some (e, s')" "e \<noteq> []"
  shows "decryptMsg b heap aesKey e = p"
proof -
  obtain iv where iv: "generate_aes_gcm_nonce pad s = Some (iv, s')" "length iv = 12"
    using assms(5) nonce_length
    by (auto simp: encryptMsg_def bind_eq_Some_conv split: if_splits option.splits)
  then obtain c t where c: "mbed_gcm_encrypt b aesKey iv [] p = Some (c, t)"
    "e = [69, 78, 67, 58] @ toHex iv @ [58] @ toHex c @ toHex t"
    using assms by (auto simp: encryptMsg_def accel_gcm_encrypt_eq split: if_splits option.splits)
  have g: "length c = length p" "length t = 16" "mbed_gcm_decrypt b aesKey iv [] c t = Some p"
    using assms(2) c(1) unfolding gcm_ok_def by blast+
  have 1: "indexOf 58 e 0 = Some 3"
    using indexOf_append [of 58 "[69, 78, 67]" 0 "[]" "toHex iv @ [58] @ toHex c @ toHex t"]
    by (simp add: c(2))
  have 2: "indexOf 58 e 4 = Some 28"
    using indexOf_append [of 58 "toHex iv" 4 "[69, 78, 67, 58]" "toHex c @ toHex t"] iv(2)
    by (simp add: c(2) toHex_plain)
  have 3: "substring e 4 28 = toHex iv"
    using substring_append [of 4 "[69, 78, 67, 58]" 28 "toHex iv" "[58] @ toHex c @ toHex t"] iv(2)
    by (simp add: c(2))
  have 4: "drop 29 e = toHex (c @ t)" using iv(2) by (simp add: c(2) toHex_append)
  have 5: "fromHex (toHex (c @ t)) (length c + 16) = c @ t" using g(2) by (intro fromHex_toHex) simp
  show ?thesis
    unfolding decryptMsg_def Let_def
    using assms(1,3,4) 1 2 3 4 5 g iv(2) by (simp add: fromHex_toHex accel_gcm_decrypt_eq)
qed

section \<open>Base32\<close>

text \<open>The reference: five bits per character, most significant first, cut into bytes.\<close>

definition bits5 :: "u8 \<Rightarrow> bool list" where
  "bits5 v = map (bit v) [4, 3, 2, 1, 0]"

definition byte_of_bits :: "bool list \<Rightarrow> u8" where
  "byte_of_bits bs = horner_sum of_bool 2 (rev bs)"

function bytes_of_bits :: "bool list \<Rightarrow> bytes" where
  "bytes_of_bits bs =
     (if length bs < 8 then [] else byte_of_bits (take 8 bs) # bytes_of_bits (drop 8 bs))"
  by pat_completeness auto

termination by (relation "measure length") auto

declare bytes_of_bits.simps [simp del]

definition base32_spec :: "bytes \<Rightarrow> bytes" where
  "base32_spec cs = bytes_of_bits (concat (map bits5 (List.map_filter base32_value cs)))"

text \<open>The bits the loop still holds.\<close>

definition held :: "u32 \<Rightarrow> nat \<Rightarrow> bool list" where
  "held buffer n = map (bit buffer) (rev [0..<n])"

lemma length_held [simp]: "length (held w n) = n"
  by (simp add: held_def)

lemma base32_value_small: "base32_value c = Some v \<Longrightarrow> v < 32"
  by (auto simp: base32_value_def word_less_nat_alt word_le_nat_alt unat_word_ariths
      unat_sub_if' split: if_splits)

lemma held_push:
  assumes "v < 32" "n < 8" shows "held (push_bit 5 w OR ucast v) (n + 5) = held w n @ bits5 v"
proof (rule nth_equalityI)
  have v: "bit v k \<Longrightarrow> k < 5" for k using bit_imp_small [of v 5 k] assms by simp
  fix i assume "i < length (held (push_bit 5 w OR ucast v) (n + 5))"
  then have i: "i < n + 5" by simp
  have "rev [0..<n + 5] ! i = n + 4 - i" using i by (simp add: rev_nth)
  moreover have "i < n \<Longrightarrow> rev [0..<n] ! i = n - 1 - i" by (simp add: rev_nth)
  moreover have "n \<le> i \<Longrightarrow> i = n \<or> i = n + 1 \<or> i = n + 2 \<or> i = n + 3 \<or> i = n + 4"
    using i by arith
  moreover have "i < n \<Longrightarrow> \<not> bit v (n + 4 - i)" using v by fastforce
  ultimately show "held (push_bit 5 w OR ucast v) (n + 5) ! i = (held w n @ bits5 v) ! i"
    using i assms(2) by (auto simp: held_def bits5_def nth_append bit_simps not_less)
qed (simp add: bits5_def)


lemma held_byte:
  assumes "n < 8"
  shows "byte_of_bits (take 8 (held w (n + 8))) = ucast (drop_bit n w AND 0xFF)"
    and "drop 8 (held w (n + 8)) = held w n"
proof -
  have u: "rev [0..<n + 8] = rev [n..<n + 8] @ rev [0..<n]"
    using upt_add_eq_append [of 0 n 8] by simp
  then have h: "held w (n + 8) = map (bit w) (rev [n..<n + 8]) @ held w n"
    by (simp only: held_def map_append)
  then show "drop 8 (held w (n + 8)) = held w n" by simp
  have t: "rev (take 8 (held w (n + 8))) = map (bit w) [n..<n + 8]"
    by (simp add: h rev_map)
  have k: "(255 :: u32) = mask 8" by (simp add: mask_eq_exp_minus_1)
  show "byte_of_bits (take 8 (held w (n + 8))) = ucast (drop_bit n w AND 0xFF)"
    unfolding byte_of_bits_def t k
    by (rule bit_word_eqI) (use assms in \<open>auto simp: bit_simps bit_horner_sum_bit_iff\<close>)
qed

lemma base32_loop_spec:
  assumes "n < 8" "8 * length out + n + 5 * length (List.map_filter base32_value cs) < 8 * cap + 8"
  shows "base32_loop cap w n out cs =
    Some (out @ bytes_of_bits (held w n @ concat (map bits5 (List.map_filter base32_value cs))))"
  using assms
proof (induction cs arbitrary: w n out)
  case Nil
  then show ?case by (simp add: map_filter_simps bytes_of_bits.simps)
next
  case (Cons c cs)
  show ?case
  proof (cases "base32_value c")
    case None
    with Cons show ?thesis by (simp add: map_filter_simps)
  next
    case (Some v)
    let ?w = "push_bit 5 w OR ucast v"
    let ?rest = "concat (map bits5 (List.map_filter base32_value cs))"
    note v = base32_value_small [OF Some]
    have h: "held w n @ concat (map bits5 (List.map_filter base32_value (c # cs))) =
        held ?w (n + 5) @ ?rest"
      using Some held_push [OF v Cons.prems(1), of w] by (simp add: map_filter_simps)
    show ?thesis
    proof (cases "8 \<le> n + 5")
      case True
      define m where "m = n + 5 - 8"
      have m: "m < 8" "n + 5 = m + 8" using True Cons.prems(1) by (simp_all add: m_def)
      have l: "length out < cap" using Cons.prems(2) Some m by (simp add: map_filter_simps)
      have "bytes_of_bits (held ?w (n + 5) @ ?rest) =
          ucast (drop_bit m ?w AND 0xFF) # bytes_of_bits (held ?w m @ ?rest)"
        using held_byte [OF m(1), of ?w] unfolding m(2)
        by (subst bytes_of_bits.simps) simp
      moreover have "base32_loop cap ?w m (out @ [ucast (drop_bit m ?w AND 0xFF)]) cs =
          Some ((out @ [ucast (drop_bit m ?w AND 0xFF)]) @ bytes_of_bits (held ?w m @ ?rest))"
        using Cons.prems(2) Some m by (intro Cons.IH) (simp_all add: map_filter_simps)
      ultimately show ?thesis
        unfolding h using Some True l by (simp add: Let_def m_def [symmetric] del: drop_bit_or)
    next
      case False
      then show ?thesis
        unfolding h using Some Cons.prems Cons.IH [of "n + 5" out ?w]
        by (simp add: Let_def map_filter_simps)
    qed
  qed
qed

lemma decodeBase32_spec:
  assumes "5 * length b32 < 8 * cap + 8"
  shows "decodeBase32 cap b32 = Some (base32_spec b32)"
proof -
  have "length (List.map_filter base32_value b32) \<le> length b32"
    by (induction b32) (auto simp: map_filter_simps split: option.split)
  with assms show ?thesis
    using base32_loop_spec [of 0 "[]" b32 cap 0]
    by (simp add: decodeBase32_def base32_spec_def held_def)
qed

section \<open>One-time passwords\<close>

text \<open>
  The reference (RFC 4226, section 5.3): the four bytes at the offset given by the low nibble of the
  last byte of the MAC, without the sign bit, modulo \<open>10^6\<close>.
\<close>

definition be_value :: "bytes \<Rightarrow> nat" where
  "be_value bs = foldl (\<lambda>a b. a * 256 + unat b) 0 bs"

definition hotp_value :: "bytes \<Rightarrow> nat" where
  "hotp_value mac = (let offset = unat (mac ! 19) mod 16
     in be_value (take 4 (drop offset mac)) mod 2 ^ 31 mod 10 ^ 6)"

definition decimal_value :: "bytes \<Rightarrow> nat" where
  "decimal_value ds = foldl (\<lambda>a d. a * 10 + (unat d - 48)) 0 ds"

lemma decimal6_value:
  assumes "n < 10 ^ 6"
  shows "decimal_value (decimal6 n) = n" "length (decimal6 n) = 6"
    "\<forall>d \<in> set (decimal6 n). 48 \<le> d \<and> d \<le> 57"
proof -
  have s: "n div 10 ^ Suc k * 10 + n div 10 ^ k mod 10 = n div 10 ^ k" for k
    using div_mult_mod_eq [of "n div 10 ^ k" 10] by (simp add: div_mult2_eq [symmetric] mult.commute)
  have z: "n div 10 ^ 6 = 0" using assms by simp
  have u: "unat (48 + of_nat (n div 10 ^ k mod 10) :: u8) - 48 = n div 10 ^ k mod 10" for k
    by (subst unat_digit) simp_all
  have e: "decimal6 n = map (\<lambda>k. 48 + of_nat (n div 10 ^ k mod 10)) [5, 4, 3, 2, 1, 0]"
    by (simp add: decimal6_def upt_rec)
  have "decimal_value (decimal6 n) = n div 10 ^ 0"
    unfolding decimal_value_def e list.map foldl_Cons foldl_Nil u
    using s [of 5] s [of 4] s [of 3] s [of 2] s [of 1] s [of 0] z
    by (simp only: eval_nat_numeral(2,3) numeral_3_eq_3 numeral_2_eq_2 One_nat_def) simp
  then show "decimal_value (decimal6 n) = n" by simp
  show "length (decimal6 n) = 6" by (simp add: e)
  have "48 \<le> (48 + of_nat (k mod 10) :: u8) \<and> (48 + of_nat (k mod 10) :: u8) \<le> 57" for k
    using unat_digit [of "k mod 10"] by (simp add: word_le_nat_alt)
  then show "\<forall>d \<in> set (decimal6 n). 48 \<le> d \<and> d \<le> 57" by (simp add: e)
qed

lemma be32_value:
  "unat (push_bit 24 (ucast (a AND 0x7F)) OR push_bit 16 (ucast b) OR push_bit 8 (ucast c) OR
    ucast d :: u32) = be_value [a, b, c, d] mod 2 ^ 31" for a b c d :: u8
proof -
  have a: "unat (a AND 0x7F) = unat a mod 128"
    using and_mask_value [of a 7] by (simp add: mask_eq_exp_minus_1)
  have l: "unat x < 256" for x :: u8 using unsigned_less [of x, where ?'a = nat] by simp
  have m: "unat a mod 128 < 128" by simp
  have e: "q * 128 + r = x \<Longrightarrow> (((0 * 256 + x) * 256 + u) * 256 + v) * 256 + w =
      2147483648 * q + (r * 16777216 + u * 65536 + v * 256 + w)" for q r x u v w :: nat
    by simp
  have "be_value [a, b, c, d] = 2147483648 * (unat a div 128) +
      (unat a mod 128 * 16777216 + unat b * 65536 + unat c * 256 + unat d)"
    unfolding be_value_def foldl_Cons foldl_Nil using e [OF div_mult_mod_eq [of "unat a" 128]] .
  moreover have "unat a mod 128 * 16777216 + unat b * 65536 + unat c * 256 + unat d < 2147483648"
    using m l [of b] l [of c] l [of d] by linarith
  ultimately show ?thesis
    unfolding unat_be32 a by simp
qed

lemma totp_value:
  assumes "5 * length secret < 520" "length mac = 20" "mac = hmac (base32_spec secret) (time_bytes t)"
  obtains ds where "generateTOTP hmac secret t = Some ds" "length ds = 6"
    "\<forall>d \<in> set ds. 48 \<le> d \<and> d \<le> 57" "decimal_value ds = hotp_value mac"
proof -
  have k: "decodeBase32 64 secret = Some (base32_spec secret)"
    using assms(1) by (intro decodeBase32_spec) simp
  define n where "n = unat (mac ! 19 AND 0x0F)"
  have n: "n = unat (mac ! 19) mod 16"
    using and_mask_value [of "mac ! 19" 4] by (simp add: n_def mask_eq_exp_minus_1)
  then have "n < 16" by simp
  then have "n + 3 < length mac" using assms(2) by simp
  then have d: "take 4 (drop n mac) = [mac ! n, mac ! (n + 1), mac ! (n + 2), mac ! (n + 3)]"
    by (intro nth_equalityI) (auto simp: nth_Cons' less_Suc_eq numeral_eq_Suc)
  define v where "v = be_value (take 4 (drop n mac)) mod 2 ^ 31"
  have "generateTOTP hmac secret t = Some (decimal6 (v mod 10 ^ 6))"
    unfolding generateTOTP_def k bind.bind_lunit Let_def assms(3) [symmetric] n_def [symmetric] be32_value d [symmetric] v_def
    by simp
  moreover have "v mod 10 ^ 6 = hotp_value mac" by (simp add: hotp_value_def v_def n Let_def)
  ultimately show thesis using that decimal6_value [of "v mod 10 ^ 6"] by simp
qed

section \<open>Generated passwords\<close>

lemma mset_swap_inside: "i < length xs \<Longrightarrow> j < length xs \<Longrightarrow> mset (swap i j xs) = mset xs"
  unfolding swap_def by (rule mset_swap)

lemma shuffle_mset:
  "list_all (\<lambda>i. i < length p) is \<Longrightarrow> (\<forall>i. f i < length p) \<Longrightarrow>
    mset (foldl (\<lambda>p i. swap i (f i) p) p is) = mset p"
proof (induction "is" arbitrary: p)
  case (Cons i "is")
  then have "mset (swap i (f i) p) = mset p" by (simp add: mset_swap_inside)
  moreover from this have "length (swap i (f i) p) = length p" by (metis size_mset)
  ultimately show ?case using Cons by simp
qed simp

lemma pick_in: "pool \<noteq> [] \<Longrightarrow> pick pool r \<in> set pool"
  by (simp add: pick_def)

lemma password_mset:
  assumes "heap (max 4 n)"
  shows "mset (generateRandomPassword heap random n) =
    mset ([pick lowerPool (random (max 4 n) ! 0), pick upperPool (random (max 4 n) ! 1),
      pick numPool (random (max 4 n) ! 2), pick symPool (random (max 4 n) ! 3)] @
      map (\<lambda>i. pick allPool (random (max 4 n) ! i)) [4..<max 4 n])"
proof -
  define m where "m = max 4 n"
  define r where "r = random m"
  define p where "p = [pick lowerPool (r ! 0), pick upperPool (r ! 1), pick numPool (r ! 2),
      pick symPool (r ! 3)] @ map (\<lambda>i. pick allPool (r ! i)) [4..<m]"
  have m: "4 \<le> m" "length p = m" by (auto simp: m_def p_def)
  then have "mset (foldl (\<lambda>p i. swap i (unat (r ! i) mod m) p) p [0..<m]) = mset p"
    by (intro shuffle_mset) (auto simp: list_all_iff)
  with assms show ?thesis
    unfolding generateRandomPassword_def Let_def m_def [symmetric] r_def [symmetric] p_def [symmetric]
    by (simp only: not_True_eq_False if_False m_def)
qed

section \<open>Properties\<close>

text \<open>
  The device over several boots: \<open>nvs\<close> is the counter in flash, each boot starts with the zeroed
  static variables and draws one nonce per padding word of its list.
\<close>

definition power_on :: nonce_state where
  "power_on = \<lparr>boot_counter = 0, session_counter = 0, nonce_subsystem_initialized = False\<rparr>"

fun boots :: "u32 option \<Rightarrow> u32 list list \<Rightarrow> bytes list option" where
  "boots nvs [] = Some []"
| "boots nvs (pads # rest) = (case init_aes_nonce_subsystem True nvs power_on of (s, nvs') \<Rightarrow>
     do { ns \<leftarrow> nonces pads s; rs \<leftarrow> boots nvs' rest; Some (ns @ rs) })"

definition stored_count :: "u32 option \<Rightarrow> u32" where
  "stored_count nvs = (case nvs of Some c \<Rightarrow> c | None \<Rightarrow> 0)"

lemma init_boot:
  "init_aes_nonce_subsystem True nvs power_on =
    (\<lparr>boot_counter = stored_count nvs + 1, session_counter = 0, nonce_subsystem_initialized = True\<rparr>,
     Some (stored_count nvs + 1))"
  by (simp add: init_aes_nonce_subsystem_def power_on_def stored_count_def Let_def)

lemma nonces_total: "nonce_subsystem_initialized s \<Longrightarrow> \<exists>ns. nonces pads s = Some ns"
proof (induction pads arbitrary: s)
  case (Cons pad pads)
  have "\<exists>ns. nonces pads (s\<lparr>session_counter := session_counter s + 1\<rparr>) = Some ns"
    using Cons by simp
  with Cons.prems show ?case by (auto simp: generate_aes_gcm_nonce_def Let_def)
qed simp

lemma nonces_boot_part:
  assumes "nonces pads s = Some ns" "n \<in> set ns"
  shows "take 4 n = u32_bytes (boot_counter s)"
proof -
  obtain i where "i < length ns" "n = ns ! i" using assms(2) by (auto simp: in_set_conv_nth)
  then show ?thesis using nonces_nth [OF assms(1)] by simp
qed

text \<open>The boot counters of the nonces of \<open>k\<close> boots are the \<open>k\<close> successors of the stored one.\<close>

lemma boots_counter:
  "boots nvs bs = Some ns \<Longrightarrow> n \<in> set ns \<Longrightarrow>
    \<exists>i < length bs. take 4 n = u32_bytes (stored_count nvs + of_nat (Suc i))"
proof (induction bs arbitrary: nvs ns)
  case (Cons pads rest)
  let ?c = "stored_count nvs + 1"
  obtain ms rs where ms: "nonces pads \<lparr>boot_counter = ?c, session_counter = 0,
        nonce_subsystem_initialized = True\<rparr> = Some ms"
    and rs: "boots (Some ?c) rest = Some rs" and ns: "ns = ms @ rs"
    using Cons.prems(1) by (auto simp: init_boot bind_eq_Some_conv)
  show ?case
  proof (cases "n \<in> set ms")
    case True
    then show ?thesis using nonces_boot_part [OF ms] by (intro exI [of _ 0]) simp
  next
    case False
    then have "n \<in> set rs" using Cons.prems(2) ns by simp
    from Cons.IH [OF rs this] obtain i where "i < length rest"
      "take 4 n = u32_bytes (stored_count (Some ?c) + of_nat (Suc i))" by blast
    then show ?thesis by (intro exI [of _ "Suc i"]) (simp add: stored_count_def algebra_simps)
  qed
qed simp

lemma boots_distinct:
  "length bs < 2 ^ 32 \<Longrightarrow> \<forall>pads \<in> set bs. length pads < 2 ^ 32 \<Longrightarrow>
    \<exists>ns. boots nvs bs = Some ns \<and> distinct ns"
proof (induction bs arbitrary: nvs)
  case (Cons pads rest)
  let ?c = "stored_count nvs + 1"
  let ?s = "\<lparr>boot_counter = ?c, session_counter = 0, nonce_subsystem_initialized = True\<rparr>"
  obtain ms where ms: "nonces pads ?s = Some ms" using nonces_total [of ?s pads] by auto
  obtain rs where rs: "boots (Some ?c) rest = Some rs" "distinct rs"
    using Cons.IH [of "Some ?c"] Cons.prems by auto
  have "distinct ms" using nonces_distinct [OF ms] Cons.prems(2) by simp
  moreover have "set ms \<inter> set rs = {}"
  proof (rule ccontr)
    assume "set ms \<inter> set rs \<noteq> {}"
    then obtain n where n: "n \<in> set ms" "n \<in> set rs" by blast
    obtain i where i: "i < length rest" "take 4 n = u32_bytes (?c + of_nat (Suc i))"
      using boots_counter [OF rs(1) n(2)] by (auto simp: stored_count_def)
    then have "?c + of_nat (Suc i) = ?c"
      using nonces_boot_part [OF ms n(1)] u32_bytes_inj by (metis nonce_state.select_convs(1))
    then have "(of_nat (Suc i) :: u32) = 0" by (metis add_cancel_right_right)
    then have "2 ^ 32 dvd Suc i" by (simp add: word_of_nat_eq_0_iff del: of_nat_Suc)
    then have "2 ^ 32 \<le> Suc i" by (rule dvd_imp_le) simp
    with i(1) Cons.prems(1) show False by simp
  qed
  ultimately show ?case using ms rs by (simp add: init_boot)
qed simp



text \<open>
  sealed text opens again: a payload that \<open>encryptStoragePayload\<close> seals is what
  \<open>decryptStoragePayload\<close> returns, and a message that \<open>encryptMsg\<close> seals for the tunnel is what
  \<open>decryptMsg\<close> returns, with any accelerator consistent with mbedTLS, provided the text holds no NUL
  (and, for stored payloads, is not empty).
\<close>

theorem sealed_text_opens:
  assumes "consistent b" "gcm_ok b" "0 \<notin> set p" "\<forall>n. heap n"
  shows "(p \<noteq> [] \<and> encryptStoragePayload b heap pad p key s = Some (e, s') \<and> e \<noteq> [] \<longrightarrow>
      decryptStoragePayload b heap e key = p) \<and>
    (encryptMsg b heap pad True key p s = Some (e, s') \<and> e \<noteq> [] \<longrightarrow>
      decryptMsg b heap key e = p)"
proof (intro conjI impI)
  assume "p \<noteq> [] \<and> encryptStoragePayload b heap pad p key s = Some (e, s') \<and> e \<noteq> []"
  then show "decryptStoragePayload b heap e key = p"
    using storage_roundtrip [OF assms(1,2) _ assms(3)] assms(4) by metis
next
  assume "encryptMsg b heap pad True key p s = Some (e, s') \<and> e \<noteq> []"
  then show "decryptMsg b heap key e = p"
    using tunnel_roundtrip [OF assms] by metis
qed

definition toy_gcm :: backends where
  "toy_gcm = toy_backends\<lparr>fpga_aes_gcm_encrypt := (\<lambda>k v a d. None),
     fpga_aes_gcm_decrypt := (\<lambda>k v a d t. None), fpga_auth_fail := (\<lambda>k v a d t. False),
     mbed_gcm_encrypt := (\<lambda>k v a d. Some (d, replicate 16 9)),
     mbed_gcm_decrypt := (\<lambda>k v a d t. if t = replicate 16 9 then Some d else None)\<rparr>"

lemma toy_gcm_ok: "consistent toy_gcm" "gcm_ok toy_gcm"
  by (simp_all add: consistent_def gcm_ok_def toy_gcm_def toy_backends_def)

lemma toy_gcm_seal:
  "encryptStoragePayload toy_gcm (\<lambda>n. True) 7 [65] [5]
      \<lparr>boot_counter = 1, session_counter = 0, nonce_subsystem_initialized = True\<rparr> =
    Some (toHex (u32_bytes 1 @ u32_bytes 1 @ u32_bytes 7) @ [58] @ toHex [65] @ [58] @
      toHex (replicate 16 9),
      \<lparr>boot_counter = 1, session_counter = 1, nonce_subsystem_initialized = True\<rparr>)"
proof -
  have "mbed_gcm_encrypt toy_gcm k v a d = Some (d, replicate 16 9)" for k v a d
    by (simp add: toy_gcm_def)
  then show ?thesis
    unfolding encryptStoragePayload_def accel_gcm_encrypt_eq [OF toy_gcm_ok(1)]
    by (simp add: generate_aes_gcm_nonce_def)
qed

theorem sealed_text_opens_witness:
  "decryptStoragePayload toy_gcm (\<lambda>n. True)
    (toHex (u32_bytes 1 @ u32_bytes 1 @ u32_bytes 7) @ [58] @ toHex [65] @ [58] @ toHex (replicate 16 9))
    [5] = [65]"
proof -
  note t = sealed_text_opens [OF toy_gcm_ok, of "[65]" "\<lambda>n. True" 7 "[5]", THEN conjunct1]
  show ?thesis by (rule t [THEN mp], simp, simp, intro conjI, simp, rule toy_gcm_seal, simp)
qed



text \<open>A secret of 104 characters overflows \<open>key[64]\<close>.\<close>

lemma long_secret_overflows: "generateTOTP hmac (replicate 104 65) t = None"
proof -
  have "decodeBase32 64 (replicate 104 65) = None" by code_simp
  then show ?thesis by (simp add: generateTOTP_def)
qed

text \<open>
  a generated password has the requested length (at least four), contains a lower-case letter, an
  upper-case letter, a digit and a symbol, and holds characters of the four pools only, for every
  output of the random generator.
\<close>

theorem password_classes:
  assumes "heap (max 4 n)"
  shows "length (generateRandomPassword heap random n) = max 4 n \<and>
    set (generateRandomPassword heap random n) \<subseteq> set allPool \<and>
    (\<forall>pool \<in> {lowerPool, upperPool, numPool, symPool}.
      \<exists>c \<in> set (generateRandomPassword heap random n). c \<in> set pool)"
proof -
  note m = password_mset [of heap n random, OF assms]
  have ne: "lowerPool \<noteq> []" "upperPool \<noteq> []" "numPool \<noteq> []" "symPool \<noteq> []" "allPool \<noteq> []"
    by (simp_all add: lowerPool_def upperPool_def numPool_def symPool_def allPool_def ascii_def)
  note s = mset_eq_setD [OF m]
  have sub: "set lowerPool \<union> set upperPool \<union> set numPool \<union> set symPool = set allPool"
    by (auto simp: allPool_def)
  have "length (generateRandomPassword heap random n) = 4 + (max 4 n - 4)"
    using mset_eq_length [OF m] by simp
  moreover have "set (generateRandomPassword heap random n) \<subseteq> set allPool"
    unfolding s using pick_in [OF ne(1)] pick_in [OF ne(2)] pick_in [OF ne(3)] pick_in [OF ne(4)]
      pick_in [OF ne(5)] by (simp add: sub [symmetric] image_subset_iff)
  moreover have "\<forall>pool \<in> {lowerPool, upperPool, numPool, symPool}.
      \<exists>c \<in> set (generateRandomPassword heap random n). c \<in> set pool"
    unfolding s using pick_in [OF ne(1)] pick_in [OF ne(2)] pick_in [OF ne(3)] pick_in [OF ne(4)] by simp
  ultimately show ?thesis by (simp only: le_add_diff_inverse max.cobounded1)
qed

theorem password_classes_witness:
  "length (generateRandomPassword (\<lambda>n. True) (\<lambda>n. replicate n 200) 12) = 12"
  using password_classes [of "\<lambda>n. True" 12 "\<lambda>n. replicate n 200"] by simp

end
