(* ===== verification/FpgaDriver.thy ===== *)
theory FpgaDriver
  imports Prelude "HOL-Library.Monad_Syntax"
begin

text \<open>
  The driver of the FPGA accelerator (\<open>src/FpgaAccel.cpp\<close>): CRC, framing, one request and response,
  probing, and the wrappers of the commands.

  The board is a parameter: \<open>board d request\<close> is what its state \<open>d\<close> becomes when a request frame
  arrives and the bytes it then clocks out, position by position. The clock is the argument \<open>t\<close> of
  every operation (one reading per operation), and \<open>polls ms\<close> is the number of eight-byte reads that
  fit into a timeout.
\<close>

section \<open>CRC\<close>

definition crc_bit :: "u16 \<Rightarrow> u16" where
  "crc_bit c = (if c AND 0x8000 \<noteq> 0 then push_bit 1 c XOR 0x1021 else push_bit 1 c)"

definition crc_byte :: "u16 \<Rightarrow> u8 \<Rightarrow> u16" where
  "crc_byte c d = (crc_bit ^^ 8) (c XOR push_bit 8 (ucast d))"

definition crc16 :: "bytes \<Rightarrow> u16 \<Rightarrow> u16" where
  "crc16 d c = foldl crc_byte c d"

definition crc_bytes :: "u16 \<Rightarrow> bytes" where
  "crc_bytes c = [ucast (c AND 0xFF), ucast (drop_bit 8 c)]"

section \<open>State\<close>

record 'd fpga =
  g_tp_ready :: bool
  g_ok :: bool
  g_retry_at :: u32
  g_caps :: u32
  g_last :: u8
  g_left :: bytes
  wire_pos :: nat
  wire :: "nat \<Rightarrow> u8"
  board_state :: 'd

type_synonym 'd board = "'d \<Rightarrow> bytes \<Rightarrow> 'd \<times> (nat \<Rightarrow> u8)"

record 'd link =
  board :: "'d board"
  polls :: "u32 \<Rightarrow> nat"
  mallocs :: "nat \<Rightarrow> bool"

definition FPGA_OK :: u8 where "FPGA_OK = 0"
definition FPGA_BAD_LEN :: u8 where "FPGA_BAD_LEN = 2"
definition FPGA_AUTH_FAIL :: u8 where "FPGA_AUTH_FAIL = 4"
definition FPGA_IO_TIMEOUT :: u8 where "FPGA_IO_TIMEOUT = 0xF0"
definition FPGA_IO_CRC :: u8 where "FPGA_IO_CRC = 0xF1"
definition FPGA_ABSENT :: u8 where "FPGA_ABSENT = 0xF2"
definition FPGA_MAX_PAYLOAD :: nat where "FPGA_MAX_PAYLOAD = 8000"
definition FPGA_BLOB_LEN :: nat where "FPGA_BLOB_LEN = 64"
definition FPGA_RSA_BLOB_LEN :: nat where "FPGA_RSA_BLOB_LEN = 672"

section \<open>Transport\<close>

text \<open>\<open>spi_xfer\<close> without data to send: the next \<open>n\<close> bytes of the wire.\<close>

definition spi_read :: "nat \<Rightarrow> 'd fpga \<Rightarrow> bytes \<times> 'd fpga" where
  "spi_read n s = (map (wire s) [wire_pos s..<wire_pos s + n], s\<lparr>wire_pos := wire_pos s + n\<rparr>)"

definition tp_write :: "'d link \<Rightarrow> bytes \<Rightarrow> 'd fpga \<Rightarrow> 'd fpga" where
  "tp_write l b s = (case board l (board_state s) b of (d, w) \<Rightarrow>
     s\<lparr>board_state := d, wire := w, wire_pos := 0, g_left := []\<rparr>)"

text \<open>\<open>dropWhile\<close> finds the start byte; what follows it in the chunk is kept in \<open>g_left\<close>.\<close>

fun tp_wait_sof :: "nat \<Rightarrow> 'd fpga \<Rightarrow> bool \<times> 'd fpga" where
  "tp_wait_sof 0 s = (False, s)"
| "tp_wait_sof (Suc n) s =
     (case spi_read 8 s of (buf, s) \<Rightarrow>
        case dropWhile (\<lambda>b. b \<noteq> 0x5A) buf of
          [] \<Rightarrow> tp_wait_sof n s
        | _ # rest \<Rightarrow> (True, s\<lparr>g_left := rest\<rparr>))"

definition tp_read :: "nat \<Rightarrow> 'd fpga \<Rightarrow> bytes \<times> 'd fpga" where
  "tp_read n s =
     (let old = take n (g_left s) in
      case spi_read (n - length old) (s\<lparr>g_left := drop n (g_left s)\<rparr>) of (new, s) \<Rightarrow> (old @ new, s))"

section \<open>One request and response\<close>

definition io_fail :: "u32 \<Rightarrow> u8 \<Rightarrow> 'd fpga \<Rightarrow> bytes option \<times> 'd fpga" where
  "io_fail t st s = (None, s\<lparr>g_last := st, g_ok := False, g_retry_at := t + 3000\<rparr>)"

definition request :: "u8 \<Rightarrow> bytes \<Rightarrow> bytes" where
  "request cmd pl =
     (let body = [cmd, of_nat (length pl mod 256), of_nat (length pl div 256)] @ pl in
      [0xA5] @ body @ crc_bytes (crc16 body 0xFFFF))"

definition call_raw ::
  "'d link \<Rightarrow> u32 \<Rightarrow> u8 \<Rightarrow> bytes \<Rightarrow> nat \<Rightarrow> u32 \<Rightarrow> 'd fpga \<Rightarrow> bytes option \<times> 'd fpga" where
  "call_raw l t cmd pl rspMax timeoutMs s =
     (if \<not> g_tp_ready s \<or> length pl > FPGA_MAX_PAYLOAD then (None, s\<lparr>g_last := FPGA_ABSENT\<rparr>)
      else if \<not> mallocs l (length pl + 6) then (None, s)
      else
        let s = tp_write l (request cmd pl) s in
        case tp_wait_sof (polls l timeoutMs) s of (found, s) \<Rightarrow>
        if \<not> found then io_fail t FPGA_IO_TIMEOUT s
        else
          case tp_read 3 s of (h, s) \<Rightarrow>
          let n = unat (h ! 1) + 256 * unat (h ! 2) in
          if n > rspMax then (None, s\<lparr>g_last := FPGA_BAD_LEN\<rparr>)
          else
            case tp_read n s of (rsp, s) \<Rightarrow>
            case tp_read 2 s of (cc, s) \<Rightarrow>
            if crc_bytes (crc16 rsp (crc16 h 0xFFFF)) \<noteq> cc then io_fail t FPGA_IO_CRC s
            else
              let s = s\<lparr>g_last := h ! 0\<rparr> in
              (if h ! 0 = FPGA_OK then Some rsp else None, s))"

text \<open>Probing: a board that failed is asked again only after \<open>g_retry_at\<close>.\<close>

definition fpga_available :: "'d link \<Rightarrow> u32 \<Rightarrow> 'd fpga \<Rightarrow> bool \<times> 'd fpga" where
  "fpga_available l t s =
     (if \<not> g_tp_ready s then (False, s)
      else if g_ok s then (True, s)
      else if t < g_retry_at s then (False, s)
      else
        case call_raw l t 0x01 [] 12 60 s of (r, s) \<Rightarrow>
        case r of
          Some r \<Rightarrow>
            if length r = 12 \<and> take 8 r = map of_char ''TROACC01'' then
              (True, s\<lparr>g_caps := push_bit 24 (ucast (r ! 8)) OR push_bit 16 (ucast (r ! 9)) OR
                 push_bit 8 (ucast (r ! 10)) OR ucast (r ! 11), g_ok := True\<rparr>)
            else (False, s\<lparr>g_ok := False, g_retry_at := t + 5000, g_last := FPGA_ABSENT\<rparr>)
        | None \<Rightarrow> (False, s\<lparr>g_ok := False, g_retry_at := t + 5000, g_last := FPGA_ABSENT\<rparr>))"

definition call ::
  "'d link \<Rightarrow> u32 \<Rightarrow> u8 \<Rightarrow> bytes \<Rightarrow> nat \<Rightarrow> u32 \<Rightarrow> 'd fpga \<Rightarrow> bytes option \<times> 'd fpga" where
  "call l t cmd pl rspMax timeoutMs s =
     (case fpga_available l t s of (ok, s) \<Rightarrow>
      if \<not> ok then (None, s\<lparr>g_last := FPGA_ABSENT\<rparr>) else call_raw l t cmd pl rspMax timeoutMs s)"

definition callExact ::
  "'d link \<Rightarrow> u32 \<Rightarrow> u8 \<Rightarrow> bytes \<Rightarrow> nat \<Rightarrow> u32 \<Rightarrow> 'd fpga \<Rightarrow> bytes option \<times> 'd fpga" where
  "callExact l t cmd pl want timeoutMs s =
     (case call l t cmd pl want timeoutMs s of (r, s) \<Rightarrow>
      (case r of Some rsp \<Rightarrow> if length rsp = want then Some rsp else None | None \<Rightarrow> None, s))"

section \<open>Commands\<close>

definition fpga_caps :: "'d link \<Rightarrow> u32 \<Rightarrow> 'd fpga \<Rightarrow> u32 \<times> 'd fpga" where
  "fpga_caps l t s = (case fpga_available l t s of (ok, s) \<Rightarrow> (if ok then g_caps s else 0, s))"

definition fpga_has_sym :: "'d link \<Rightarrow> u32 \<Rightarrow> 'd fpga \<Rightarrow> bool \<times> 'd fpga" where
  "fpga_has_sym l t s = (case fpga_caps l t s of (c, s) \<Rightarrow> (c AND 0x00000007 = 0x00000007, s))"

definition fpga_has_aes :: "'d link \<Rightarrow> u32 \<Rightarrow> 'd fpga \<Rightarrow> bool \<times> 'd fpga" where
  "fpga_has_aes l t s = (case fpga_caps l t s of (c, s) \<Rightarrow> (c AND 0x00000008 \<noteq> 0, s))"

definition fpga_has_asym :: "'d link \<Rightarrow> u32 \<Rightarrow> 'd fpga \<Rightarrow> bool \<times> 'd fpga" where
  "fpga_has_asym l t s = (case fpga_caps l t s of (c, s) \<Rightarrow> (c AND 0x000000F0 \<noteq> 0, s))"

definition fpga_has_pq :: "'d link \<Rightarrow> u32 \<Rightarrow> 'd fpga \<Rightarrow> bool \<times> 'd fpga" where
  "fpga_has_pq l t s = (case fpga_caps l t s of (c, s) \<Rightarrow> (c AND 0x00000300 \<noteq> 0, s))"

definition fpga_has_rsa :: "'d link \<Rightarrow> u32 \<Rightarrow> 'd fpga \<Rightarrow> bool \<times> 'd fpga" where
  "fpga_has_rsa l t s = (case fpga_caps l t s of (c, s) \<Rightarrow> (c AND 0x00000400 = 0x00000400, s))"

text \<open>\<open>if (!has()) return false;\<close> and a test of the arguments, before the rest of a command.\<close>

definition guarded ::
  "('d fpga \<Rightarrow> bool \<times> 'd fpga) \<Rightarrow> bool \<Rightarrow> ('d fpga \<Rightarrow> 'r option \<times> 'd fpga) \<Rightarrow> 'd fpga \<Rightarrow> 'r option \<times> 'd fpga" where
  "guarded has args_ok k s = (case has s of (ok, s) \<Rightarrow> if \<not> ok \<or> \<not> args_ok then (None, s) else k s)"

text \<open>The two halves of a response.\<close>

definition halves :: "nat \<Rightarrow> bytes option \<times> 'd fpga \<Rightarrow> (bytes \<times> bytes) option \<times> 'd fpga" where
  "halves n = (\<lambda>(r, s). (map_option (\<lambda>r. (take n r, drop n r)) r, s))"

definition fpga_uid :: "'d link \<Rightarrow> u32 \<Rightarrow> 'd fpga \<Rightarrow> bytes option \<times> 'd fpga" where
  "fpga_uid l t = callExact l t 0x02 [] 16 3000"

function fpga_fill_random :: "'d link \<Rightarrow> u32 \<Rightarrow> nat \<Rightarrow> 'd fpga \<Rightarrow> bytes option \<times> 'd fpga" where
  "fpga_fill_random l t len s =
     (if len = 0 then (Some [], s)
      else
        case fpga_has_sym l t s of (hs, s) \<Rightarrow>
        case (if hs then fpga_has_asym l t s else (False, s)) of (ha, s) \<Rightarrow>
        case (if hs \<and> \<not> ha then fpga_has_pq l t s else (False, s)) of (hp, s) \<Rightarrow>
        let symOnly = hs \<and> \<not> ha \<and> \<not> hp in
        case callExact l t 0x03 (if symOnly then [32, 0] else []) 32 3000 s of (r, s) \<Rightarrow>
        case r of
          None \<Rightarrow> (None, s)
        | Some r \<Rightarrow>
            case fpga_fill_random l t (len - min len 32) s of (out, s) \<Rightarrow>
            (map_option ((@) (take (min len 32) r)) out, s))"
  by pat_completeness auto

termination by (relation "measure (\<lambda>(l, t, len, s). len)") auto

declare fpga_fill_random.simps [simp del]

definition fpga_p256_genkey :: "'d link \<Rightarrow> u32 \<Rightarrow> 'd fpga \<Rightarrow> (bytes \<times> bytes) option \<times> 'd fpga" where
  "fpga_p256_genkey l t = guarded (fpga_has_asym l t) True (halves 64 \<circ> callExact l t 0x30 [] 128 3000)"

definition fpga_p256_public :: "'d link \<Rightarrow> u32 \<Rightarrow> bytes \<Rightarrow> 'd fpga \<Rightarrow> bytes option \<times> 'd fpga" where
  "fpga_p256_public l t blob = guarded (fpga_has_asym l t) True (callExact l t 0x31 blob 64 3000)"

definition fpga_p256_sign :: "'d link \<Rightarrow> u32 \<Rightarrow> bytes \<Rightarrow> bytes \<Rightarrow> 'd fpga \<Rightarrow> bytes option \<times> 'd fpga" where
  "fpga_p256_sign l t blob digest =
     guarded (fpga_has_asym l t) True (callExact l t 0x32 (blob @ digest) 64 3000)"

definition fpga_p256_ecdh :: "'d link \<Rightarrow> u32 \<Rightarrow> bytes \<Rightarrow> bytes \<Rightarrow> 'd fpga \<Rightarrow> bytes option \<times> 'd fpga" where
  "fpga_p256_ecdh l t blob peer =
     guarded (fpga_has_asym l t) True (callExact l t 0x33 (blob @ peer) 32 3000)"

definition fpga_p256_verify ::
  "'d link \<Rightarrow> u32 \<Rightarrow> bytes \<Rightarrow> bytes \<Rightarrow> bytes \<Rightarrow> 'd fpga \<Rightarrow> bytes option \<times> 'd fpga" where
  "fpga_p256_verify l t digest sig pub =
     guarded (fpga_has_asym l t) True (callExact l t 0x34 (digest @ sig @ pub) 0 6000)"

definition fpga_p256_import :: "'d link \<Rightarrow> u32 \<Rightarrow> bytes \<Rightarrow> 'd fpga \<Rightarrow> bytes option \<times> 'd fpga" where
  "fpga_p256_import l t raw = guarded (fpga_has_asym l t) True (callExact l t 0x35 raw 64 3000)"

definition fpga_ed25519_genkey :: "'d link \<Rightarrow> u32 \<Rightarrow> 'd fpga \<Rightarrow> (bytes \<times> bytes) option \<times> 'd fpga" where
  "fpga_ed25519_genkey l t = guarded (fpga_has_asym l t) True (halves 64 \<circ> callExact l t 0x40 [] 96 3000)"

definition fpga_ed25519_public :: "'d link \<Rightarrow> u32 \<Rightarrow> bytes \<Rightarrow> 'd fpga \<Rightarrow> bytes option \<times> 'd fpga" where
  "fpga_ed25519_public l t blob = guarded (fpga_has_asym l t) True (callExact l t 0x41 blob 32 3000)"

definition fpga_ed25519_sign :: "'d link \<Rightarrow> u32 \<Rightarrow> bytes \<Rightarrow> bytes \<Rightarrow> 'd fpga \<Rightarrow> bytes option \<times> 'd fpga" where
  "fpga_ed25519_sign l t blob msg =
     guarded (fpga_has_asym l t) (length msg + 64 \<le> FPGA_MAX_PAYLOAD \<and> mallocs l (length msg + 64))
       (callExact l t 0x42 (blob @ msg) 64 5000)"

definition fpga_ed25519_import :: "'d link \<Rightarrow> u32 \<Rightarrow> bytes \<Rightarrow> 'd fpga \<Rightarrow> bytes option \<times> 'd fpga" where
  "fpga_ed25519_import l t seed = guarded (fpga_has_asym l t) True (callExact l t 0x43 seed 64 3000)"

text \<open>Secret key, public key and signature lengths and the command index of an ML-DSA parameter set.\<close>

definition mldsa_dims :: "nat \<Rightarrow> (nat \<times> nat \<times> nat \<times> u8) option" where
  "mldsa_dims ps =
     (if ps = 44 then Some (2560, 1312, 2420, 0)
      else if ps = 65 then Some (4032, 1952, 3309, 1)
      else if ps = 87 then Some (4896, 2592, 4627, 2)
      else None)"

definition fpga_mldsa_blob_len :: "nat \<Rightarrow> nat" where
  "fpga_mldsa_blob_len ps = (case mldsa_dims ps of Some (sk, _) \<Rightarrow> sk + 32 | None \<Rightarrow> 0)"

definition fpga_mldsa_genkey ::
  "'d link \<Rightarrow> u32 \<Rightarrow> nat \<Rightarrow> 'd fpga \<Rightarrow> (bytes \<times> bytes) option \<times> 'd fpga" where
  "fpga_mldsa_genkey l t ps =
     guarded (fpga_has_pq l t) (mldsa_dims ps \<noteq> None)
       (case the (mldsa_dims ps) of (sk, pk, sig, idx) \<Rightarrow> \<lambda>s.
          if \<not> mallocs l (sk + 32 + pk) then (None, s)
          else halves (sk + 32) (callExact l t (0x60 + idx) [] (sk + 32 + pk) 8000 s))"

definition fpga_mldsa_sign ::
  "'d link \<Rightarrow> u32 \<Rightarrow> nat \<Rightarrow> bytes \<Rightarrow> bytes \<Rightarrow> 'd fpga \<Rightarrow> bytes option \<times> 'd fpga" where
  "fpga_mldsa_sign l t ps blob msg =
     guarded (fpga_has_pq l t) (mldsa_dims ps \<noteq> None)
       (case the (mldsa_dims ps) of (sk, pk, sig, idx) \<Rightarrow> \<lambda>s.
          let total = sk + 32 + 32 + length msg in
          if total > FPGA_MAX_PAYLOAD \<or> \<not> mallocs l total then (None, s)
          else callExact l t (0x68 + idx) (blob @ replicate 32 0 @ msg) sig 30000 s)"

definition fpga_rsa_genkey :: "'d link \<Rightarrow> u32 \<Rightarrow> 'd fpga \<Rightarrow> (bytes \<times> bytes) option \<times> 'd fpga" where
  "fpga_rsa_genkey l t =
     guarded (fpga_has_rsa l t) (mallocs l (FPGA_RSA_BLOB_LEN + 256))
       (halves FPGA_RSA_BLOB_LEN \<circ> callExact l t 0x70 [] (FPGA_RSA_BLOB_LEN + 256) 600000)"

definition fpga_rsa_public :: "'d link \<Rightarrow> u32 \<Rightarrow> bytes \<Rightarrow> 'd fpga \<Rightarrow> bytes option \<times> 'd fpga" where
  "fpga_rsa_public l t blob = guarded (fpga_has_rsa l t) True (callExact l t 0x71 blob 256 10000)"

definition fpga_rsa_sign_sha256 :: "'d link \<Rightarrow> u32 \<Rightarrow> bytes \<Rightarrow> bytes \<Rightarrow> 'd fpga \<Rightarrow> bytes option \<times> 'd fpga" where
  "fpga_rsa_sign_sha256 l t blob digest =
     guarded (fpga_has_rsa l t) True (callExact l t 0x72 (blob @ digest) 256 30000)"

definition fpga_sha512 :: "'d link \<Rightarrow> u32 \<Rightarrow> bytes \<Rightarrow> 'd fpga \<Rightarrow> bytes option \<times> 'd fpga" where
  "fpga_sha512 l t data = guarded (fpga_has_asym l t) True (callExact l t 0x50 data 64 3000)"

definition fpga_sha256 :: "'d link \<Rightarrow> u32 \<Rightarrow> bytes \<Rightarrow> 'd fpga \<Rightarrow> bytes option \<times> 'd fpga" where
  "fpga_sha256 l t data = guarded (fpga_has_sym l t) True (callExact l t 0x10 data 32 3000)"

definition fpga_hmac_sha256 :: "'d link \<Rightarrow> u32 \<Rightarrow> bytes \<Rightarrow> bytes \<Rightarrow> 'd fpga \<Rightarrow> bytes option \<times> 'd fpga" where
  "fpga_hmac_sha256 l t key data =
     guarded (fpga_has_sym l t)
       (length key \<le> 64 \<and> length data + 1 + length key \<le> FPGA_MAX_PAYLOAD \<and>
        mallocs l (1 + length key + length data))
       (callExact l t 0x11 ([of_nat (length key)] @ key @ data) 32 3000)"

definition fpga_pbkdf2_sha256 ::
  "'d link \<Rightarrow> u32 \<Rightarrow> bytes \<Rightarrow> bytes \<Rightarrow> u32 \<Rightarrow> nat \<Rightarrow> 'd fpga \<Rightarrow> bytes option \<times> 'd fpga" where
  "fpga_pbkdf2_sha256 l t pw salt iterations outLen =
     (let blocks = (of_nat ((outLen + 31) div 32) :: u32);
          timeout = 3000 + blocks * (ucast ((ucast iterations :: u64) * 6 div 1000 + 50)) in
      guarded (fpga_has_sym l t)
        (length pw \<le> 64 \<and> outLen \<noteq> 0 \<and> outLen \<le> 1024 \<and> iterations \<noteq> 0 \<and>
         7 + length pw + length salt \<le> FPGA_MAX_PAYLOAD \<and> mallocs l (7 + length pw + length salt))
        (callExact l t 0x12
          ([ucast iterations, ucast (drop_bit 8 iterations), ucast (drop_bit 16 iterations),
            ucast (drop_bit 24 iterations), of_nat (outLen mod 256), of_nat (outLen div 256),
            of_nat (length pw)] @ pw @ salt) outLen timeout))"

definition fpga_aes_set_key :: "'d link \<Rightarrow> u32 \<Rightarrow> bytes \<Rightarrow> 'd fpga \<Rightarrow> bytes option \<times> 'd fpga" where
  "fpga_aes_set_key l t key = guarded (fpga_has_aes l t) True (call l t 0x20 key 0 3000)"

definition aes_op ::
  "'d link \<Rightarrow> u32 \<Rightarrow> u8 \<Rightarrow> bytes \<Rightarrow> bytes \<Rightarrow> bytes \<Rightarrow> bytes \<Rightarrow> 'd fpga \<Rightarrow> (bytes \<times> bytes) option \<times> 'd fpga" where
  "aes_op l t mode iv aad inp tagIn =
     (let total = 21 + length aad + length inp + length tagIn;
          want = length inp + (if mode = 4 then 16 else 0) in
      guarded (fpga_has_aes l t)
        (total \<le> FPGA_MAX_PAYLOAD \<and> mallocs l total \<and> mallocs l (length inp + 16))
        (\<lambda>s. case call l t 0x21
             ([mode] @ iv @ replicate (16 - length iv) 0 @
              [of_nat (length aad mod 256), of_nat (length aad div 256),
               of_nat (length inp mod 256), of_nat (length inp div 256)] @ aad @ inp @ tagIn)
             (length inp + 16) 5000 s of (r, s) \<Rightarrow>
           halves (length inp) (case r of Some r \<Rightarrow> if length r = want then Some r else None | None \<Rightarrow> None, s)))"

definition fpga_aes_cbc :: "'d link \<Rightarrow> u32 \<Rightarrow> bool \<Rightarrow> bytes \<Rightarrow> bytes \<Rightarrow> 'd fpga \<Rightarrow> bytes option \<times> 'd fpga" where
  "fpga_aes_cbc l t encrypt iv inp s =
     (case aes_op l t (if encrypt then 2 else 3) iv [] inp [] s of (r, s) \<Rightarrow> (map_option fst r, s))"

definition fpga_aes_gcm_encrypt ::
  "'d link \<Rightarrow> u32 \<Rightarrow> bytes \<Rightarrow> bytes \<Rightarrow> bytes \<Rightarrow> 'd fpga \<Rightarrow> (bytes \<times> bytes) option \<times> 'd fpga" where
  "fpga_aes_gcm_encrypt l t iv aad inp = aes_op l t 4 iv aad inp []"

definition fpga_aes_gcm_decrypt ::
  "'d link \<Rightarrow> u32 \<Rightarrow> bytes \<Rightarrow> bytes \<Rightarrow> bytes \<Rightarrow> bytes \<Rightarrow> 'd fpga \<Rightarrow> bytes option \<times> 'd fpga" where
  "fpga_aes_gcm_decrypt l t iv aad inp tag s =
     (case aes_op l t 5 iv aad inp tag s of (r, s) \<Rightarrow> (map_option fst r, s))"

section \<open>The CRC detects a wrong byte\<close>

lemma xor_cancel: "x XOR k = y XOR k \<longleftrightarrow> x = y" for x y :: "'a::len word"
  by (metis xor.assoc xor_self_eq xor.right_neutral)

lemma crc_bit_inj: "crc_bit a = crc_bit b \<Longrightarrow> a = b"
proof -
  have top: "(c AND 0x8000 \<noteq> 0) = bit c 15" for c :: u16
    using bit_iff_and_push_bit_not_eq_0 [of c 15] by simp
  have z: "\<not> bit (push_bit 1 c) 0" for c :: u16 unfolding bit_push_bit_iff by simp
  have o: "bit (0x1021 :: u16) 0" by simp
  assume e: "crc_bit a = crc_bit b"
  have low: "bit (crc_bit c) 0 = bit c 15" for c
    unfolding crc_bit_def top using z [of c] o by (auto simp: bit_xor_iff)
  have t: "bit a 15 = bit b 15" using low [of a] low [of b] e by simp
  have p: "push_bit 1 a = push_bit 1 b"
  proof (cases "bit a 15")
    case True
    then show ?thesis using e t unfolding crc_bit_def top by (simp add: xor_cancel)
  next
    case False
    then show ?thesis using e t unfolding crc_bit_def top by simp
  qed
  show "a = b"
  proof (rule bit_word_eqI)
    fix n assume n: "n < LENGTH(16)"
    show "bit a n = bit b n"
    proof (cases "n = 15")
      case True
      then show ?thesis using t by simp
    next
      case False
      have "bit (push_bit 1 a) (Suc n) = bit (push_bit 1 b) (Suc n)" by (simp only: p)
      then show ?thesis using n False unfolding bit_push_bit_iff by simp
    qed
  qed
qed

lemma crc_bits_inj: "(crc_bit ^^ n) a = (crc_bit ^^ n) b \<Longrightarrow> a = b"
  by (induction n) (auto dest: crc_bit_inj)

lemma crc_byte_inj_state: "crc_byte a d = crc_byte b d \<Longrightarrow> a = b"
  by (auto simp: crc_byte_def xor_cancel dest: crc_bits_inj)

lemma crc_byte_inj_data: "crc_byte a d = crc_byte a d' \<Longrightarrow> d = d'"
proof -
  assume "crc_byte a d = crc_byte a d'"
  then have e: "push_bit 8 (ucast d) = (push_bit 8 (ucast d') :: u16)"
    unfolding crc_byte_def by (metis crc_bits_inj xor_cancel xor.commute)
  show "d = d'"
  proof (rule bit_word_eqI)
    fix n assume n: "n < LENGTH(8)"
    have "bit (push_bit 8 (ucast d) :: u16) (n + 8) = bit (push_bit 8 (ucast d') :: u16) (n + 8)"
      by (simp only: e)
    then show "bit d n = bit d' n" using n unfolding bit_push_bit_iff by (simp add: bit_simps)
  qed
qed

lemma crc16_inj_state: "crc16 x a = crc16 x b \<Longrightarrow> a = b"
  by (induction x arbitrary: a b) (auto simp: crc16_def dest: crc_byte_inj_state)

lemma crc16_append: "crc16 (x @ y) c = crc16 y (crc16 x c)"
  by (simp add: crc16_def)

lemma crc16_wrong_byte: "i < length x \<Longrightarrow> d \<noteq> x ! i \<Longrightarrow> crc16 (x[i := d]) c \<noteq> crc16 x c"
proof
  assume i: "i < length x" "d \<noteq> x ! i" and e: "crc16 (x[i := d]) c = crc16 x c"
  have "crc16 (drop (Suc i) x) (crc_byte (crc16 (take i x) c) d) =
      crc16 (drop (Suc i) x) (crc_byte (crc16 (take i x) c) (x ! i))"
    using e unfolding upd_conv_take_nth_drop [OF i(1)]
    by (subst (asm) (2) id_take_nth_drop [OF i(1)]) (simp add: crc16_append, simp add: crc16_def)
  then show False using crc16_inj_state crc_byte_inj_data i(2) by blast
qed

lemma length_crc_bytes [simp]: "length (crc_bytes c) = 2"
  by (simp add: crc_bytes_def)

lemma crc_bytes_inj: "crc_bytes a = crc_bytes b \<Longrightarrow> a = b"
proof -
  assume e: "crc_bytes a = crc_bytes b"
  have k: "(255 :: u16) = mask 8" by (simp add: mask_eq_exp_minus_1)
  show "a = b"
  proof (rule bit_word_eqI)
    fix n assume n: "n < LENGTH(16)"
    have "bit (ucast (a AND mask 8) :: u8) n = bit (ucast (b AND mask 8) :: u8) n"
      "bit (ucast (drop_bit 8 a) :: u8) (n - 8) = bit (ucast (drop_bit 8 b) :: u8) (n - 8)"
      using e unfolding crc_bytes_def k by simp_all
    then show "bit a n = bit b n" using n by (cases "n < 8") (auto simp: bit_simps)
  qed
qed

section \<open>The transport delivers the stream after the start byte\<close>

lemma upt_append: "i \<le> j \<Longrightarrow> j \<le> k \<Longrightarrow> [i..<j] @ [j..<k] = [i..<k]"
  using upt_add_eq_append [of i j "k - j"] by simp

definition at :: "nat \<Rightarrow> 'd fpga \<Rightarrow> bool" where
  "at k s \<longleftrightarrow> k \<le> wire_pos s \<and> g_left s = map (wire s) [k..<wire_pos s]"

lemma tp_read_at:
  assumes "at k s" "tp_read n s = (bs, s')"
  shows "bs = map (wire s) [k..<k + n]" "at (k + n) s'" "wire s' = wire s"
    "g_tp_ready s' = g_tp_ready s"
proof -
  let ?p = "wire_pos s" and ?w = "wire s"
  have l: "length (take n (g_left s)) = min n (?p - k)" "k \<le> ?p" "g_left s = map ?w [k..<?p]"
    using assms(1) by (auto simp: at_def)
  have "take n (g_left s) @ map ?w [?p..<?p + (n - length (take n (g_left s)))] = map ?w [k..<k + n]"
  proof (cases "n \<le> ?p - k")
    case True
    then show ?thesis unfolding l(3) using l(2) by (simp add: take_map take_upt)
  next
    case False
    then have "?p + (n - (?p - k)) = k + n" using l(2) by simp
    then show ?thesis unfolding l(3) using False l(2) by (simp add: upt_append add.commute flip: map_append)
  qed
  then show "bs = map ?w [k..<k + n]"
    using assms(2) by (auto simp: tp_read_def spi_read_def Let_def)
  show "wire s' = wire s" "g_tp_ready s' = g_tp_ready s"
    using assms(2) by (auto simp: tp_read_def spi_read_def Let_def)
  show "at (k + n) s'"
    using assms(2) l(2,3) by (auto simp: tp_read_def spi_read_def Let_def at_def drop_map drop_upt min_def)
qed

lemma wait_sof_at:
  assumes "wire_pos s \<le> k" "k < wire_pos s + 8 * n" "wire s k = 0x5A"
    "\<And>j. wire_pos s \<le> j \<Longrightarrow> j < k \<Longrightarrow> wire s j \<noteq> 0x5A"
  obtains s' where "tp_wait_sof n s = (True, s')" "at (Suc k) s'" "wire s' = wire s"
    "g_tp_ready s' = g_tp_ready s"
  using assms
proof (induction n arbitrary: s thesis)
  case 0
  then show ?case by simp
next
  case (Suc n)
  let ?p = "wire_pos s" and ?w = "wire s"
  let ?s = "s\<lparr>wire_pos := ?p + 8\<rparr>"
  show ?case
  proof (cases "k < ?p + 8")
    case True
    then have u: "[?p..<?p + 8] = [?p..<k] @ k # [Suc k..<?p + 8]"
      using Suc.prems(2) by (metis upt_conv_Cons upt_append less_imp_le_nat)
    have "dropWhile (\<lambda>b. b \<noteq> 0x5A) (map ?w [?p..<?p + 8]) = 0x5A # map ?w [Suc k..<?p + 8]"
      using Suc.prems(4,5) unfolding u by (simp add: dropWhile_append2 dropWhile_append)
    then have "tp_wait_sof (Suc n) s = (True, ?s\<lparr>g_left := map ?w [Suc k..<?p + 8]\<rparr>)"
      by (simp add: spi_read_def)
    then show ?thesis by (rule Suc.prems(1)) (use True in \<open>simp_all add: at_def\<close>)
  next
    case False
    have "dropWhile (\<lambda>b. b \<noteq> 0x5A) (map ?w [?p..<?p + 8]) = []"
      using Suc.prems(5) False by (auto simp: dropWhile_eq_Nil_conv)
    then have e: "tp_wait_sof (Suc n) s = tp_wait_sof n ?s"
      unfolding tp_wait_sof.simps spi_read_def prod.case by (simp only: list.case)
    show ?thesis
      by (rule Suc.IH [of ?s]) (use Suc.prems False e in auto)
  qed
qed

section \<open>One exchange\<close>

definition reply :: "u8 \<Rightarrow> bytes \<Rightarrow> bytes" where
  "reply st pl = (let h = [st, of_nat (length pl mod 256), of_nat (length pl div 256)] in
     h @ pl @ crc_bytes (crc16 (h @ pl) 0xFFFF))"

text \<open>
  The state after the request has gone out and the start byte has been found: what the exchange
  returns depends on the bytes from there on.
\<close>

definition sends :: "'d link \<Rightarrow> 'd fpga \<Rightarrow> u8 \<Rightarrow> bytes \<Rightarrow> u32 \<Rightarrow> bytes \<Rightarrow> bool" where
  "sends l s cmd pl ms frame \<longleftrightarrow>
     (\<exists>w k. snd (board l (board_state s) (request cmd pl)) = w \<and> k < 8 * polls l ms \<and>
       (\<forall>j < k. w j \<noteq> 0x5A) \<and> w k = 0x5A \<and> map w [Suc k..<Suc k + length frame] = frame)"

lemma map_upt_split:
  "map w [k..<k + length (a @ b)] = a @ b \<longleftrightarrow>
    map w [k..<k + length a] = a \<and> map w [k + length a..<k + length a + length b] = b"
proof -
  have "[k..<k + length (a @ b)] = [k..<k + length a] @ [k + length a..<k + length a + length b]"
    by (simp add: upt_append add.assoc)
  then show ?thesis by (metis append_eq_append_conv length_map length_upt add_diff_cancel_left' map_append)
qed

lemma call_raw_frame:
  assumes ready: "g_tp_ready s" "length pl \<le> FPGA_MAX_PAYLOAD" "mallocs l (length pl + 6)"
    and frame: "sends l s cmd pl ms (h @ rsp @ cc)"
    and h: "length h = 3" "length rsp = unat (h ! 1) + 256 * unat (h ! 2)" "length rsp \<le> rspMax"
    and cc: "length cc = 2"
  obtains s' where "call_raw l t cmd pl rspMax ms s =
    (if crc_bytes (crc16 (h @ rsp) 0xFFFF) \<noteq> cc then io_fail t FPGA_IO_CRC s'
     else (if h ! 0 = FPGA_OK then Some rsp else None, s'\<lparr>g_last := h ! 0\<rparr>))"
proof -
  obtain w k where w: "snd (board l (board_state s) (request cmd pl)) = w" "k < 8 * polls l ms"
    "\<forall>j < k. w j \<noteq> 0x5A" "w k = 0x5A" "map w [Suc k..<Suc k + length (h @ rsp @ cc)] = h @ rsp @ cc"
    using frame by (auto simp: sends_def)
  let ?k3 = "Suc k + 3" and ?n = "length rsp"
  have parts: "map w [Suc k..<?k3] = h" "map w [?k3..<?k3 + ?n] = rsp"
    "map w [?k3 + ?n..<?k3 + ?n + 2] = cc"
    using w(5) h(1) cc unfolding map_upt_split by simp_all
  define s0 where "s0 = tp_write l (request cmd pl) s"
  have s0: "wire s0 = w" "wire_pos s0 = 0"
    using w(1) by (auto simp: s0_def tp_write_def split: prod.splits)
  obtain s1 where s1: "tp_wait_sof (polls l ms) s0 = (True, s1)" "at (Suc k) s1" "wire s1 = w"
    using wait_sof_at [of s0 k "polls l ms"] s0 w(2-4) by auto
  obtain s2 where s2: "tp_read 3 s1 = (h, s2)" "at ?k3 s2" "wire s2 = w"
    using tp_read_at [OF s1(2)] s1(3) parts(1) by (metis surj_pair)
  obtain s3 where s3: "tp_read ?n s2 = (rsp, s3)" "at (?k3 + ?n) s3" "wire s3 = w"
    using tp_read_at [OF s2(2)] s2(3) parts(2) by (metis surj_pair)
  obtain s4 where s4: "tp_read 2 s3 = (cc, s4)"
    using tp_read_at [OF s3(2)] s3(3) parts(3) by (metis surj_pair)
  show thesis
  proof (rule that [of s4])
    have "\<not> rspMax < ?n" using h(3) by simp
    with ready show "call_raw l t cmd pl rspMax ms s =
      (if crc_bytes (crc16 (h @ rsp) 0xFFFF) \<noteq> cc then io_fail t FPGA_IO_CRC s4
       else (if h ! 0 = FPGA_OK then Some rsp else None, s4\<lparr>g_last := h ! 0\<rparr>))"
      unfolding call_raw_def Let_def s0_def [symmetric] s1(1) prod.case s2(1) h(2) [symmetric] s3(1) s4(1)
        crc16_append by simp
  qed
qed


lemma reply_parts:
  assumes "length pl < 65536"
  shows "reply st pl = [st, of_nat (length pl mod 256), of_nat (length pl div 256)] @ pl @
      crc_bytes (crc16 ([st, of_nat (length pl mod 256), of_nat (length pl div 256)] @ pl) 0xFFFF)"
    "length pl = unat (of_nat (length pl mod 256) :: u8) + 256 * unat (of_nat (length pl div 256) :: u8)"
proof -
  have "length pl div 256 < 256" using assms by (simp add: less_mult_imp_div_less)
  then show "length pl = unat (of_nat (length pl mod 256) :: u8) + 256 * unat (of_nat (length pl div 256) :: u8)"
    using small_byte [of "length pl mod 256"] small_byte [of "length pl div 256"] by (simp del: of_nat_mod)
qed (simp add: reply_def Let_def)

lemma length_reply: "length (reply st pl) = length pl + 5"
  by (simp add: reply_def Let_def)

lemma corrupt_reply:
  fixes st :: u8
  assumes "length pl < 65536" "i < length pl + 5" "i \<notin> {1, 2}" "d \<noteq> reply st pl ! i"
  obtains h rsp cc where "(reply st pl)[i := d] = h @ rsp @ cc" "length h = 3" "length rsp = length pl"
    "length rsp = unat (h ! 1) + 256 * unat (h ! 2)" "length cc = 2"
    "crc_bytes (crc16 (h @ rsp) 0xFFFF) \<noteq> cc"
proof -
  let ?h = "[st, of_nat (length pl mod 256), of_nat (length pl div 256)]"
  let ?c = "crc_bytes (crc16 (?h @ pl) 0xFFFF)"
  note r = reply_parts(1) [OF assms(1), of st] reply_parts(2) [OF assms(1)]
  have body: "crc_bytes (crc16 ((?h @ pl)[i := d]) 0xFFFF) \<noteq> ?c" if "i < length pl + 3"
  proof -
    have i: "i < length (?h @ pl)" using that by simp
    have "reply st pl = (?h @ pl) @ ?c" using r(1) by simp
    moreover have "((?h @ pl) @ ?c) ! i = (?h @ pl) ! i" by (rule nth_append_left [OF i])
    ultimately have "d \<noteq> (?h @ pl) ! i" using assms(4) by metis
    from crc16_wrong_byte [OF i this, of "0xFFFF"] crc_bytes_inj show ?thesis by blast
  qed
  consider "i = 0" | "3 \<le> i" "i < length pl + 3" | "length pl + 3 \<le> i" using assms(3) by fastforce
  then show thesis
  proof cases
    case 1
    show thesis
      by (rule that [of "?h[i := d]" pl ?c]) (use 1 r body in \<open>simp_all del: of_nat_mod\<close>)
  next
    case 2
    define j where "j = i - 3"
    have j: "i = j + 3" "j < length pl" using 2 unfolding j_def by simp_all
    show thesis
      by (rule that [of ?h "pl[j := d]" ?c])
        (use j r body in \<open>simp_all add: list_update_append numeral_3_eq_3 del: of_nat_mod\<close>)
  next
    case 3
    define j where "j = i - (length pl + 3)"
    have j: "i = length pl + 3 + j" "j < 2" using 3 assms(2) unfolding j_def by simp_all
    have "?c[j := d] \<noteq> ?c"
      using assms(4) j unfolding r(1) by (auto simp: nth_append list_update_same_conv)
    then show thesis
      by (intro that [of ?h pl "?c[j := d]"])
        (use j r in \<open>simp_all add: list_update_append numeral_3_eq_3 del: of_nat_mod\<close>)
  qed
qed

lemma call_raw_reply:
  assumes "g_tp_ready s" "length pl \<le> 8000" "mallocs l (length pl + 6)"
    and "length rsp < 65536" "length rsp \<le> rspMax" "sends l s cmd pl ms (reply st rsp)"
  shows "\<exists>s'. call_raw l t cmd pl rspMax ms s = (if st = FPGA_OK then Some rsp else None, s') \<and> g_last s' = st"
proof -
  let ?h = "[st, of_nat (length rsp mod 256), of_nat (length rsp div 256)]"
  note r = reply_parts(1) [OF assms(4), of st] reply_parts(2) [OF assms(4)]
  have pl: "length pl \<le> FPGA_MAX_PAYLOAD" using assms(2) by (simp add: FPGA_MAX_PAYLOAD_def)
  have n: "length rsp = unat (?h ! 1) + 256 * unat (?h ! 2)" using r(2) by simp
  obtain s' where "call_raw l t cmd pl rspMax ms s =
    (if crc_bytes (crc16 (?h @ rsp) 0xFFFF) \<noteq> crc_bytes (crc16 (?h @ rsp) 0xFFFF) then io_fail t FPGA_IO_CRC s'
     else (if ?h ! 0 = FPGA_OK then Some rsp else None, s'\<lparr>g_last := ?h ! 0\<rparr>))"
    by (rule call_raw_frame [OF assms(1) pl assms(3) assms(6) [unfolded r(1)] _ n assms(5)]) simp_all
  then show ?thesis by simp
qed

section \<open>Properties\<close>

text \<open>
  An exchange delivers exactly what the board answered: when a well-formed reply follows any filler
  without a start byte within the timeout, the caller gets its payload if the status is OK and nothing
  otherwise, and the last status is the one received, wherever the start byte falls in the chunks read.
\<close>

theorem exchange_exact:
  assumes "g_tp_ready s" "length pl \<le> 8000" "mallocs l (length pl + 6)"
    and "length rsp < 65536" "length rsp \<le> rspMax" "sends l s cmd pl ms (reply st rsp)"
  shows "\<exists>s'. call_raw l t cmd pl rspMax ms s = (if st = FPGA_OK then Some rsp else None, s') \<and> g_last s' = st"
  by (rule call_raw_reply [OF assms])

definition toy_link :: "bytes \<Rightarrow> unit link" where
  "toy_link frame = \<lparr>board = (\<lambda>d r. (d, \<lambda>j. (replicate 11 0 @ 0x5A # frame) ! j)), polls = (\<lambda>ms. 2),
     mallocs = (\<lambda>n. True)\<rparr>"

definition toy_fpga :: "unit fpga" where
  "toy_fpga = \<lparr>g_tp_ready = True, g_ok = True, g_retry_at = 0, g_caps = 7, g_last = 0, g_left = [],
     wire_pos = 0, wire = (\<lambda>j. 0), board_state = ()\<rparr>"

lemma toy_sends: "sends (toy_link frame) toy_fpga cmd pl ms frame"
proof -
  let ?w = "\<lambda>j. (replicate 11 0 @ 0x5A # frame) ! j"
  have "map ?w [Suc 11..<Suc 11 + length frame] = frame"
    by (rule nth_equalityI) (simp_all add: nth_append)
  moreover have "\<forall>j < 11. ?w j \<noteq> 0x5A" "?w 11 = 0x5A" by (simp_all add: nth_append)
  moreover have "snd (board (toy_link frame) (board_state toy_fpga) (request cmd pl)) = ?w"
    "11 < 8 * polls (toy_link frame) ms" by (simp_all add: toy_link_def)
  ultimately show ?thesis unfolding sends_def by blast
qed

theorem exchange_exact_witness:
  "\<exists>s'. call_raw (toy_link (reply 0 [1, 2, 3])) 5 0x10 [9] 32 60 toy_fpga = (Some [1, 2, 3], s') \<and> g_last s' = 0"
proof -
  have "g_tp_ready toy_fpga" "length [9 :: u8] \<le> 8000" "mallocs (toy_link (reply 0 [1, 2, 3])) (length [9 :: u8] + 6)"
    "length [1, 2, 3 :: u8] < 65536" "length [1, 2, 3 :: u8] \<le> 32" by (simp_all add: toy_fpga_def toy_link_def)
  from exchange_exact [OF this toy_sends, of 5 "0x10" 60] show ?thesis by (simp add: FPGA_OK_def)
qed



text \<open>Every buffer a command fills is filled completely.\<close>

lemma callExact_length: "callExact l t cmd pl want ms s = (Some r, s') \<Longrightarrow> length r = want"
  by (auto simp: callExact_def split: prod.splits option.splits if_splits)

lemma guardedE:
  assumes "guarded has ok k s = (Some r, s')"
  obtains s1 where "k s1 = (Some r, s')"
  using assms by (auto simp: guarded_def split: prod.splits if_splits)

lemma halves_length:
  "halves n (r, s) = (Some (a, b), s') \<Longrightarrow> (\<And>r'. r = Some r' \<Longrightarrow> length r' = n + m) \<Longrightarrow>
    length a = n \<and> length b = m"
  by (auto simp: halves_def)

lemma aes_op_length:
  assumes "aes_op l t mode iv aad inp tagIn s = (Some (a, b), s')"
  shows "length a = length inp \<and> length b = (if mode = 4 then 16 else 0)"
  using assms unfolding aes_op_def Let_def
  by (elim guardedE) (auto simp: halves_def split: prod.splits option.splits if_splits)

lemma fill_random_length:
  "fpga_fill_random l t len s = (Some r, s') \<Longrightarrow> length r = len"
proof (induction len arbitrary: s r s' rule: less_induct)
  case (less len)
  show ?case
  proof (cases "len = 0")
    case True
    then show ?thesis using less.prems by (simp add: fpga_fill_random.simps)
  next
    case False
    obtain s1 s2 payload chunk rest where
      "callExact l t 0x03 payload 32 3000 s1 = (Some chunk, s2)"
      and rest: "fpga_fill_random l t (len - min len 32) s2 = (Some rest, s')"
      and r: "r = take (min len 32) chunk @ rest"
      using less.prems False by (subst (asm) fpga_fill_random.simps)
        (auto simp: Let_def split: prod.splits option.splits)
    then have "length chunk = 32" by (simp add: callExact_length)
    moreover have "length rest = len - min len 32" using less.IH [OF _ rest] False by simp
    ultimately show ?thesis by (simp add: r min_def)
  qed
qed

text \<open>
  A command that succeeds has filled its output exactly: random bytes and derived keys of the length
  asked for, hashes of 32 bytes, ciphertexts as long as their input with a tag of 16 bytes, and keys and
  blobs of the lengths that their readers use.
\<close>

theorem results_sized:
  "(fpga_fill_random l t n s = (Some r, s') \<longrightarrow> length r = n) \<and>
    (fpga_sha256 l t d s = (Some r, s') \<longrightarrow> length r = 32) \<and>
    (fpga_hmac_sha256 l t k d s = (Some r, s') \<longrightarrow> length r = 32) \<and>
    (fpga_pbkdf2_sha256 l t pw salt it n s = (Some r, s') \<longrightarrow> length r = n) \<and>
    (fpga_aes_cbc l t enc iv d s = (Some r, s') \<longrightarrow> length r = length d) \<and>
    (fpga_aes_gcm_encrypt l t iv aad d s = (Some (c, tag), s') \<longrightarrow> length c = length d \<and> length tag = 16) \<and>
    (fpga_p256_genkey l t s = (Some (c, tag), s') \<longrightarrow> length c = 64 \<and> length tag = 64) \<and>
    (fpga_rsa_genkey l t s = (Some (c, tag), s') \<longrightarrow> length c = FPGA_RSA_BLOB_LEN \<and> length tag = 256)"
proof (intro conjI impI)
  show "length r = n" if "fpga_fill_random l t n s = (Some r, s')"
    by (rule fill_random_length [OF that])
  show "length r = 32" if "fpga_sha256 l t d s = (Some r, s')"
    using that unfolding fpga_sha256_def by (rule guardedE) (rule callExact_length)
  show "length r = 32" if "fpga_hmac_sha256 l t k d s = (Some r, s')"
    using that unfolding fpga_hmac_sha256_def by (rule guardedE) (rule callExact_length)
  show "length r = n" if "fpga_pbkdf2_sha256 l t pw salt it n s = (Some r, s')"
    using that unfolding fpga_pbkdf2_sha256_def Let_def by (rule guardedE) (rule callExact_length)
  show "length r = length d" if "fpga_aes_cbc l t enc iv d s = (Some r, s')"
    using that by (auto simp: fpga_aes_cbc_def split: prod.splits dest: aes_op_length)
  show "length c = length d" "length tag = 16"
    if "fpga_aes_gcm_encrypt l t iv aad d s = (Some (c, tag), s')"
    using aes_op_length [OF that [unfolded fpga_aes_gcm_encrypt_def]] by simp_all
  have h: "length a = n \<and> length b = m"
    if e: "guarded has ok (halves n \<circ> callExact l t cmd pl (n + m) ms) s = (Some (a, b), s')"
    for has ok cmd pl n m ms a b
  proof -
    obtain s1 where "halves n (callExact l t cmd pl (n + m) ms s1) = (Some (a, b), s')"
      using e by (rule guardedE) simp
    then show ?thesis
      by (cases "callExact l t cmd pl (n + m) ms s1") (auto simp: halves_def dest: callExact_length)
  qed
  show "length c = 64" "length tag = 64" if "fpga_p256_genkey l t s = (Some (c, tag), s')"
    using h [of "fpga_has_asym l t" True 64 "0x30" "[]" 64 3000 c tag] that
    by (simp_all add: fpga_p256_genkey_def)
  show "length c = FPGA_RSA_BLOB_LEN" "length tag = 256" if "fpga_rsa_genkey l t s = (Some (c, tag), s')"
    using h [OF that [unfolded fpga_rsa_genkey_def]] by simp_all
qed


theorem results_sized_witness:
  "\<exists>s'. fpga_sha256 (toy_link (reply 0 (replicate 32 5))) 5 [1, 2] toy_fpga = (Some (replicate 32 5), s') \<and>
    length (replicate 32 (5 :: u8)) = 32"
proof -
  let ?l = "toy_link (reply 0 (replicate 32 5))"
  have "g_tp_ready toy_fpga" "length [1, 2 :: u8] \<le> 8000" "mallocs ?l (length [1, 2 :: u8] + 6)"
    "length (replicate 32 (5 :: u8)) < 65536" "length (replicate 32 (5 :: u8)) \<le> 32"
    by (simp_all add: toy_fpga_def toy_link_def)
  from call_raw_reply [OF this toy_sends, of 5 "0x10" 3000] obtain s' where
    c: "call_raw ?l 5 0x10 [1, 2] 32 3000 toy_fpga = (Some (replicate 32 5), s')"
    by (auto simp: FPGA_OK_def)
  have "fpga_has_sym ?l 5 toy_fpga = (True, toy_fpga)" "fpga_available ?l 5 toy_fpga = (True, toy_fpga)"
    by (simp_all add: fpga_has_sym_def fpga_caps_def fpga_available_def toy_fpga_def)
  then have e: "fpga_sha256 ?l 5 [1, 2] toy_fpga = (Some (replicate 32 5), s')"
    using c by (simp add: fpga_sha256_def guarded_def callExact_def call_def)
  then show ?thesis using results_sized [of ?l 5 _ _ "replicate 32 5" _ "[1, 2]"] by blast
qed

end
