(* ===== verification/CredKeys.thy ===== *)
theory CredKeys
  imports VaultCrypto FpgaDriver
begin

text \<open>
  Credential keys (\<open>src/CryptoManager.cpp\<close>): generation and signing for the four COSE algorithms, in
  software or in the FPGA. A key made by the FPGA is stored as a wrapped blob, which the signing
  functions recognize by its length.

  The primitives are parameters, the record \<open>signers\<close>: the FPGA's commands (\<open>None\<close> is their \<open>false\<close>),
  mbedTLS, the Ed25519 library and PQClean (\<open>None\<close> is an error code), with the random choices of key
  generation and signing inside them.
\<close>

record signers =
  accel_present :: bool
  accel_has_asym_keys :: bool
  accel_has_rsa_keys :: bool
  has_pq :: bool
  p256_genkey :: "(bytes \<times> bytes) option"
  p256_sign :: "bytes \<Rightarrow> bytes \<Rightarrow> bytes option"
  ed_genkey :: "(bytes \<times> bytes) option"
  ed_blob_sign :: "bytes \<Rightarrow> bytes \<Rightarrow> bytes option"
  rsa_genkey :: "(bytes \<times> bytes) option"
  rsa_blob_sign :: "bytes \<Rightarrow> bytes \<Rightarrow> bytes option"
  mldsa_genkey :: "nat \<Rightarrow> (bytes \<times> bytes) option"
  mldsa_blob_sign :: "nat \<Rightarrow> bytes \<Rightarrow> bytes \<Rightarrow> bytes option"
  mbedtls_ecdsa_genkey :: "(bytes \<times> bytes) option"
  mbedtls_ecdsa_sign :: "bytes \<Rightarrow> bytes \<Rightarrow> (nat \<times> nat) option"
  mbedtls_rsa_gen_key :: "(bytes \<times> bytes \<times> bytes) option"
  mbedtls_pk_parse_key :: "bytes \<Rightarrow> bool"
  mbedtls_pk_sign :: "bytes \<Rightarrow> bytes \<Rightarrow> bytes option"
  mbedtls_asn1_write_mpi :: "nat \<Rightarrow> bytes"
  mbedtls_asn1_write_len :: "nat \<Rightarrow> bytes"
  secureFillRandom :: "nat \<Rightarrow> bytes"
  ed_derivePublicKey :: "bytes \<Rightarrow> bytes"
  ed_sign :: "bytes \<Rightarrow> bytes \<Rightarrow> bytes \<Rightarrow> bytes"
  crypto_sign_keypair :: "nat \<Rightarrow> (bytes \<times> bytes) option"
  crypto_sign_signature :: "nat \<Rightarrow> bytes \<Rightarrow> bytes \<Rightarrow> bytes option"
  sha256 :: "bytes \<Rightarrow> bytes"

section \<open>DER signatures\<close>

text \<open>
  \<open>derEncodeSignature\<close> builds the encoding from the end of a buffer of 128 bytes; every writer of
  mbedTLS fails when the front is reached. \<open>cap\<close> is the size of the caller's buffer.
\<close>

definition derEncodeSignature :: "signers \<Rightarrow> nat \<Rightarrow> nat \<Rightarrow> nat \<Rightarrow> bytes option" where
  "derEncodeSignature k cap r s =
     (let body = mbedtls_asn1_write_mpi k r @ mbedtls_asn1_write_mpi k s;
          der = [0x30] @ mbedtls_asn1_write_len k (length body) @ body in
      if length der > 128 then None
      else if length der > cap then None
      else Some der)"

section \<open>P-256\<close>

definition generateKeypairP256 :: "signers \<Rightarrow> (bytes \<times> bytes) option" where
  "generateKeypairP256 k = do {
     (priv, pub) \<leftarrow> mbedtls_ecdsa_genkey k;
     if length pub = 65 then Some (priv, pub) else None }"

definition signECDSA_P256 :: "signers \<Rightarrow> bytes \<Rightarrow> bytes \<Rightarrow> nat \<Rightarrow> bytes option" where
  "signECDSA_P256 k priv digest cap =
     (if length digest \<noteq> 32 then None
      else do { (r, s) \<leftarrow> mbedtls_ecdsa_sign k priv digest; derEncodeSignature k cap r s })"

definition generateFido2Signature :: "signers \<Rightarrow> bytes \<Rightarrow> bytes \<Rightarrow> nat \<Rightarrow> bytes option" where
  "generateFido2Signature k privateKeyHex hash cap =
     (if length privateKeyHex = 0 \<or> length hash \<noteq> 32 then None
      else if length privateKeyHex = 2 * FPGA_BLOB_LEN then
        let blob = fromHex privateKeyHex FPGA_BLOB_LEN in
        if accel_has_asym_keys k then do {
          raw \<leftarrow> p256_sign k blob hash;
          derEncodeSignature k cap (be_value (take 32 raw)) (be_value (drop 32 raw)) }
        else None
      else if length privateKeyHex \<noteq> 64 then None
      else signECDSA_P256 k (fromHex privateKeyHex (length privateKeyHex div 2)) hash cap)"

text \<open>The private key as hexadecimal text and the uncompressed public key.\<close>

definition generateCredentialKeyP256 :: "signers \<Rightarrow> (bytes \<times> bytes) option" where
  "generateCredentialKeyP256 k =
     (let software = map_option (\<lambda>(priv, pub). (toHex priv, pub)) (generateKeypairP256 k) in
      if accel_has_asym_keys k then
        (case p256_genkey k of
           Some (blob, pub64) \<Rightarrow> Some (toHex blob, 0x04 # pub64)
         | None \<Rightarrow> software)
      else software)"

section \<open>Ed25519 and RSA\<close>

definition generateEd25519KeyPair :: "signers \<Rightarrow> (bytes \<times> bytes) option" where
  "generateEd25519KeyPair k =
     (let priv = secureFillRandom k 32;
          software = Some (toHex priv, ed_derivePublicKey k priv) in
      if accel_has_asym_keys k then
        (case ed_genkey k of
           Some (blob, pub) \<Rightarrow> Some (toHex blob, pub)
         | None \<Rightarrow> software)
      else software)"

text \<open>Private key, modulus and exponent; \<open>mbedtls_rsa_gen_key\<close> stands for the key as DER, N and E.\<close>

definition generateRsa2048KeyPair :: "signers \<Rightarrow> (bytes \<times> bytes \<times> bytes) option" where
  "generateRsa2048KeyPair k =
     (let software = map_option (\<lambda>(der, n, e). (toHex der, n, e)) (mbedtls_rsa_gen_key k) in
      if accel_has_rsa_keys k then
        (case rsa_genkey k of
           Some (blob, n) \<Rightarrow> Some (toHex blob, n, [0x01, 0x00, 0x01])
         | None \<Rightarrow> software)
      else software)"

section \<open>ML-DSA\<close>

definition parameter_set :: "int \<Rightarrow> nat option" where
  "parameter_set algId =
     (if algId = - 48 then Some 44 else if algId = - 49 then Some 65 else if algId = - 50 then Some 87 else None)"

definition generateMlDsaKeyPair :: "signers \<Rightarrow> int \<Rightarrow> (bytes \<times> bytes) option" where
  "generateMlDsaKeyPair k algId = do { ps \<leftarrow> parameter_set algId; crypto_sign_keypair k ps }"

definition generateMlDsaKeyPairEx :: "signers \<Rightarrow> int \<Rightarrow> nat \<Rightarrow> (bytes \<times> bytes) option" where
  "generateMlDsaKeyPairEx k algId privCap = do {
     ps \<leftarrow> parameter_set algId;
     let blobLen = fpga_mldsa_blob_len ps;
     let software = (if blobLen - 32 > privCap then None else generateMlDsaKeyPair k algId);
     if accel_present k \<and> has_pq k \<and> blobLen \<le> privCap then
       (case mldsa_genkey k ps of Some r \<Rightarrow> Some r | None \<Rightarrow> software)
     else software }"

definition mldsa_sign :: "signers \<Rightarrow> int \<Rightarrow> bytes \<Rightarrow> bytes \<Rightarrow> bytes option" where
  "mldsa_sign k algId msg priv = do { ps \<leftarrow> parameter_set algId; crypto_sign_signature k ps priv msg }"

section \<open>Signing\<close>

text \<open>
  \<open>h\<close> is \<open>malloc\<close>. The outer option: \<open>None\<close> is the write of \<open>fromHex\<close> through the unchecked null
  pointer of the RSA branch.
\<close>

definition generateAlgSignature ::
  "(nat \<Rightarrow> bool) \<Rightarrow> signers \<Rightarrow> int \<Rightarrow> bytes \<Rightarrow> bytes \<Rightarrow> bytes option option" where
  "generateAlgSignature h k algId privateKeyHex msg =
     (let len = length privateKeyHex in
      if algId = - 7 then
        Some (if \<not> h 300 then None else generateFido2Signature k privateKeyHex (sha256 k msg) 300)
      else if algId = - 8 then
        Some (if \<not> h 64 then None
          else if len = 2 * FPGA_BLOB_LEN then
            (if accel_has_asym_keys k then ed_blob_sign k (fromHex privateKeyHex FPGA_BLOB_LEN) msg else None)
          else
            let priv = fromHex privateKeyHex 32 in
            Some (ed_sign k priv (ed_derivePublicKey k priv) msg))
      else if algId = - 257 then
        let hash = sha256 k msg in
        if len = 2 * FPGA_RSA_BLOB_LEN then
          Some (if h 256 \<and> accel_has_rsa_keys k
            then rsa_blob_sign k (fromHex privateKeyHex FPGA_RSA_BLOB_LEN) hash else None)
        else if \<not> h (len div 2) then None
        else
          let der = fromHex privateKeyHex (len div 2) in
          Some (if \<not> mbedtls_pk_parse_key k der then None
            else if \<not> h 512 then None
            else mbedtls_pk_sign k der hash)
      else case parameter_set algId of
          None \<Rightarrow> Some None
        | Some ps \<Rightarrow>
            let keyLen = len div 2 in
            Some (if \<not> h keyLen then None
              else
                let priv = fromHex privateKeyHex keyLen;
                    sigLen = (if ps = 44 then 2420 else if ps = 65 then 3309 else 4627) in
                if \<not> h sigLen then None
                else if keyLen = fpga_mldsa_blob_len ps then
                  (if accel_present k \<and> has_pq k then mldsa_blob_sign k ps priv msg else None)
                else mldsa_sign k algId msg priv))"

section \<open>A key signs with the back end that made it\<close>

text \<open>
  Documented lengths of the keys: 64-byte FPGA blobs, 32-byte P-256 keys, FPGA RSA blobs of 672 bytes
  and no software RSA key of that length, ML-DSA blobs 32 bytes longer than the secret key.
\<close>

definition key_lengths :: "signers \<Rightarrow> bool" where
  "key_lengths k \<longleftrightarrow>
     (\<forall>b p. p256_genkey k = Some (b, p) \<longrightarrow> length b = 64) \<and>
     (\<forall>b p. ed_genkey k = Some (b, p) \<longrightarrow> length b = 64) \<and>
     (\<forall>b n. rsa_genkey k = Some (b, n) \<longrightarrow> length b = 672) \<and>
     (\<forall>ps b p. mldsa_genkey k ps = Some (b, p) \<longrightarrow> length b = fpga_mldsa_blob_len ps) \<and>
     (\<forall>b p. mbedtls_ecdsa_genkey k = Some (b, p) \<longrightarrow> length b = 32) \<and>
     (\<forall>d n e. mbedtls_rsa_gen_key k = Some (d, n, e) \<longrightarrow> length d \<noteq> 672) \<and>
     (\<forall>ps b p. crypto_sign_keypair k ps = Some (b, p) \<longrightarrow> length b + 32 = fpga_mldsa_blob_len ps) \<and>
     length (secureFillRandom k 32) = 32 \<and> (\<forall>x. length (sha256 k x) = 32)"

text \<open>
  Every primitive signs for the key pair it generated: \<open>verifies alg pub msg sig\<close> is a verifier's
  acceptance, with the ECDSA signature as DER.
\<close>

definition primitives_sign :: "(int \<Rightarrow> bytes \<Rightarrow> bytes \<Rightarrow> bytes \<Rightarrow> bool) \<Rightarrow> signers \<Rightarrow> bool" where
  "primitives_sign verifies k \<longleftrightarrow>
     (\<forall>b p m. p256_genkey k = Some (b, p) \<longrightarrow> (\<exists>raw der. p256_sign k b (sha256 k m) = Some raw \<and>
        derEncodeSignature k 300 (be_value (take 32 raw)) (be_value (drop 32 raw)) = Some der \<and>
        verifies (- 7) (0x04 # p) m der)) \<and>
     (\<forall>b p m. mbedtls_ecdsa_genkey k = Some (b, p) \<longrightarrow> (\<exists>r s der. mbedtls_ecdsa_sign k b (sha256 k m) = Some (r, s) \<and>
        derEncodeSignature k 300 r s = Some der \<and> verifies (- 7) p m der)) \<and>
     (\<forall>b p m. ed_genkey k = Some (b, p) \<longrightarrow> (\<exists>sig. ed_blob_sign k b m = Some sig \<and> verifies (- 8) p m sig)) \<and>
     (\<forall>x m. verifies (- 8) (ed_derivePublicKey k x) m (ed_sign k x (ed_derivePublicKey k x) m)) \<and>
     (\<forall>b n m. rsa_genkey k = Some (b, n) \<longrightarrow> (\<exists>sig. rsa_blob_sign k b (sha256 k m) = Some sig \<and>
        verifies (- 257) n m sig)) \<and>
     (\<forall>d n e m. mbedtls_rsa_gen_key k = Some (d, n, e) \<longrightarrow> mbedtls_pk_parse_key k d \<and>
        (\<exists>sig. mbedtls_pk_sign k d (sha256 k m) = Some sig \<and> verifies (- 257) n m sig)) \<and>
     (\<forall>ps alg b p m. parameter_set alg = Some ps \<and> mldsa_genkey k ps = Some (b, p) \<longrightarrow>
        (\<exists>sig. mldsa_blob_sign k ps b m = Some sig \<and> verifies alg p m sig)) \<and>
     (\<forall>ps alg b p m. parameter_set alg = Some ps \<and> crypto_sign_keypair k ps = Some (b, p) \<longrightarrow>
        (\<exists>sig. crypto_sign_signature k ps b m = Some sig \<and> verifies alg p m sig))"

text \<open>The key generation of an algorithm: private key text and public key.\<close>

definition generate :: "signers \<Rightarrow> int \<Rightarrow> nat \<Rightarrow> (bytes \<times> bytes) option" where
  "generate k alg cap =
     (if alg = - 7 then generateCredentialKeyP256 k
      else if alg = - 8 then generateEd25519KeyPair k
      else if alg = - 257 then map_option (\<lambda>(d, n, e). (d, n)) (generateRsa2048KeyPair k)
      else map_option (\<lambda>(d, p). (toHex d, p)) (generateMlDsaKeyPairEx k alg cap))"

lemma key_lengthsD:
  assumes "key_lengths k"
  shows "p256_genkey k = Some (b, p) \<Longrightarrow> length b = 64" "ed_genkey k = Some (b, p) \<Longrightarrow> length b = 64"
    "rsa_genkey k = Some (b, p) \<Longrightarrow> length b = 672"
    "mldsa_genkey k ps = Some (b, p) \<Longrightarrow> length b = fpga_mldsa_blob_len ps"
    "mbedtls_ecdsa_genkey k = Some (b, p) \<Longrightarrow> length b = 32"
    "mbedtls_rsa_gen_key k = Some (b, p, e) \<Longrightarrow> length b \<noteq> 672"
    "crypto_sign_keypair k ps = Some (b, p) \<Longrightarrow> length b + 32 = fpga_mldsa_blob_len ps"
    "length (secureFillRandom k 32) = 32" "length (sha256 k x) = 32"
  using assms unfolding key_lengths_def by blast+

lemma primitives_signD:
  assumes "primitives_sign V k"
  shows "p256_genkey k = Some (b, p) \<Longrightarrow> \<exists>raw der. p256_sign k b (sha256 k m) = Some raw \<and>
        derEncodeSignature k 300 (be_value (take 32 raw)) (be_value (drop 32 raw)) = Some der \<and>
        V (- 7) (0x04 # p) m der"
    "mbedtls_ecdsa_genkey k = Some (b, p) \<Longrightarrow> \<exists>r s der. mbedtls_ecdsa_sign k b (sha256 k m) = Some (r, s) \<and>
        derEncodeSignature k 300 r s = Some der \<and> V (- 7) p m der"
    "ed_genkey k = Some (b, p) \<Longrightarrow> \<exists>sig. ed_blob_sign k b m = Some sig \<and> V (- 8) p m sig"
    "V (- 8) (ed_derivePublicKey k x) m (ed_sign k x (ed_derivePublicKey k x) m)"
    "rsa_genkey k = Some (b, p) \<Longrightarrow> \<exists>sig. rsa_blob_sign k b (sha256 k m) = Some sig \<and> V (- 257) p m sig"
    "mbedtls_rsa_gen_key k = Some (b, p, e) \<Longrightarrow> mbedtls_pk_parse_key k b \<and>
        (\<exists>sig. mbedtls_pk_sign k b (sha256 k m) = Some sig \<and> V (- 257) p m sig)"
    "parameter_set alg = Some ps \<Longrightarrow> mldsa_genkey k ps = Some (b, p) \<Longrightarrow>
        \<exists>sig. mldsa_blob_sign k ps b m = Some sig \<and> V alg p m sig"
    "parameter_set alg = Some ps \<Longrightarrow> crypto_sign_keypair k ps = Some (b, p) \<Longrightarrow>
        \<exists>sig. crypto_sign_signature k ps b m = Some sig \<and> V alg p m sig"
  using assms unfolding primitives_sign_def by (elim conjE; simp)+

lemma blob_lengths: "FPGA_BLOB_LEN = 64" "FPGA_RSA_BLOB_LEN = 672"
  by (simp_all add: FPGA_BLOB_LEN_def FPGA_RSA_BLOB_LEN_def)

definition signs :: "(int \<Rightarrow> bytes \<Rightarrow> bytes \<Rightarrow> bytes \<Rightarrow> bool) \<Rightarrow> (nat \<Rightarrow> bool) \<Rightarrow> signers \<Rightarrow> int \<Rightarrow> bytes \<times> bytes \<Rightarrow> bool" where
  "signs verifies h k alg kp \<longleftrightarrow> (\<forall>m. \<exists>sig. generateAlgSignature h k alg (fst kp) m = Some (Some sig) \<and>
     verifies alg (snd kp) m sig)"

lemma p256_signs:
  assumes "key_lengths k" "primitives_sign V k" "\<forall>n. h n" "generateCredentialKeyP256 k = Some kp"
  shows "signs V h k (- 7) kp"
proof -
  note L = key_lengthsD [OF assms(1)]
  have soft: "signs V h k (- 7) (toHex priv, pub)"
    if g: "mbedtls_ecdsa_genkey k = Some (priv, pub)" for priv pub
  proof -
    have l: "length priv = 32" using L(5) g by blast
    show ?thesis unfolding signs_def
    proof
      fix m
      obtain r s der where "mbedtls_ecdsa_sign k priv (sha256 k m) = Some (r, s)"
        "derEncodeSignature k 300 r s = Some der" "V (- 7) pub m der"
        using primitives_signD(2) [OF assms(2) g] by blast
      then show "\<exists>sig. generateAlgSignature h k (- 7) (fst (toHex priv, pub)) m = Some (Some sig) \<and>
          V (- 7) (snd (toHex priv, pub)) m sig"
        using assms(3) L(9) l by (simp add: generateAlgSignature_def generateFido2Signature_def
            signECDSA_P256_def blob_lengths fromHex_toHex)
    qed
  qed
  have hard: "signs V h k (- 7) (toHex blob, 4 # pub)"
    if g: "p256_genkey k = Some (blob, pub)" "accel_has_asym_keys k" for blob pub
  proof -
    have l: "length blob = 64" using L(1) g by blast
    show ?thesis unfolding signs_def
    proof
      fix m
      obtain raw der where "p256_sign k blob (sha256 k m) = Some raw"
        "derEncodeSignature k 300 (be_value (take 32 raw)) (be_value (drop 32 raw)) = Some der"
        "V (- 7) (4 # pub) m der"
        using primitives_signD(1) [OF assms(2) g(1)] by blast
      then show "\<exists>sig. generateAlgSignature h k (- 7) (fst (toHex blob, 4 # pub)) m = Some (Some sig) \<and>
          V (- 7) (snd (toHex blob, 4 # pub)) m sig"
        using assms(3) L(9) l g(2) by (simp add: generateAlgSignature_def generateFido2Signature_def
            blob_lengths fromHex_toHex)
    qed
  qed
  show ?thesis
    using assms(4) soft hard
    by (auto simp: generateCredentialKeyP256_def generateKeypairP256_def Let_def bind_eq_Some_conv
        split: if_splits option.splits)
qed

lemma ed_signs:
  assumes "key_lengths k" "primitives_sign V k" "\<forall>n. h n" "generateEd25519KeyPair k = Some kp"
  shows "signs V h k (- 8) kp"
proof -
  note L = key_lengthsD [OF assms(1)]
  have "V (- 8) (ed_derivePublicKey k x) m (ed_sign k x (ed_derivePublicKey k x) m)" for x m
    using primitives_signD(4) [OF assms(2)] by blast
  then have soft: "signs V h k (- 8) (toHex (secureFillRandom k 32), ed_derivePublicKey k (secureFillRandom k 32))"
    using assms(3) L(8) by (simp add: signs_def generateAlgSignature_def blob_lengths fromHex_toHex Let_def)
  have hard: "signs V h k (- 8) (toHex blob, pub)"
    if g: "ed_genkey k = Some (blob, pub)" "accel_has_asym_keys k" for blob pub
  proof -
    have "\<exists>sig. ed_blob_sign k blob m = Some sig \<and> V (- 8) pub m sig" for m
      using primitives_signD(3) [OF assms(2)] g by blast
    moreover have "length blob = 64" using L(2) g by blast
    ultimately show ?thesis
      using assms(3) g(2) by (fastforce simp: signs_def generateAlgSignature_def blob_lengths fromHex_toHex)
  qed
  show ?thesis
    using assms(4) soft hard by (auto simp: generateEd25519KeyPair_def Let_def split: if_splits option.splits)
qed

lemma rsa_signs:
  assumes "key_lengths k" "primitives_sign V k" "\<forall>n. h n" "generateRsa2048KeyPair k = Some (d, n, e)"
  shows "signs V h k (- 257) (d, n)"
proof -
  note L = key_lengthsD [OF assms(1)]
  have soft: "signs V h k (- 257) (toHex der, n)"
    if g: "mbedtls_rsa_gen_key k = Some (der, n, e)" for der n e
  proof -
    have "mbedtls_pk_parse_key k der \<and>
        (\<exists>sig. mbedtls_pk_sign k der (sha256 k m) = Some sig \<and> V (- 257) n m sig)" for m
      using primitives_signD(6) [OF assms(2)] g by blast
    moreover have "length der \<noteq> 672" using L(6) g by blast
    ultimately show ?thesis
      using assms(3) by (simp add: signs_def generateAlgSignature_def Let_def blob_lengths fromHex_toHex)
  qed
  have hard: "signs V h k (- 257) (toHex blob, n)"
    if g: "rsa_genkey k = Some (blob, n)" "accel_has_rsa_keys k" for blob n
  proof -
    have "\<exists>sig. rsa_blob_sign k blob (sha256 k m) = Some sig \<and> V (- 257) n m sig" for m
      using primitives_signD(5) [OF assms(2)] g by blast
    moreover have "length blob = 672" using L(3) g by blast
    ultimately show ?thesis
      using assms(3) g(2) by (simp add: signs_def generateAlgSignature_def Let_def blob_lengths fromHex_toHex)
  qed
  show ?thesis
    using assms(4) soft hard by (auto simp: generateRsa2048KeyPair_def Let_def split: if_splits option.splits)
qed

lemma mldsa_signs:
  assumes "key_lengths k" "primitives_sign V k" "\<forall>n. h n" "generateMlDsaKeyPairEx k alg cap = Some (d, pub)"
  shows "signs V h k alg (toHex d, pub)"
proof -
  note L = key_lengthsD [OF assms(1)]
  obtain ps where ps: "parameter_set alg = Some ps"
    using assms(4) by (auto simp: generateMlDsaKeyPairEx_def bind_eq_Some_conv)
  then have alg: "alg \<noteq> - 7" "alg \<noteq> - 8" "alg \<noteq> - 257" by (auto simp: parameter_set_def split: if_splits)
  have soft: "signs V h k alg (toHex priv, pub)"
    if g: "crypto_sign_keypair k ps = Some (priv, pub)" for priv pub
  proof -
    have "\<exists>sig. crypto_sign_signature k ps priv m = Some sig \<and> V alg pub m sig" for m
      using primitives_signD(8) [OF assms(2)] g ps by blast
    moreover have "length priv \<noteq> fpga_mldsa_blob_len ps" using L(7) [OF g] by simp
    ultimately show ?thesis
      using assms(3) ps alg by (simp add: signs_def generateAlgSignature_def Let_def mldsa_sign_def fromHex_toHex)
  qed
  have hard: "signs V h k alg (toHex blob, pub)"
    if g: "mldsa_genkey k ps = Some (blob, pub)" "accel_present k" "has_pq k" for blob pub
  proof -
    have "\<exists>sig. mldsa_blob_sign k ps blob m = Some sig \<and> V alg pub m sig" for m
      using primitives_signD(7) [OF assms(2)] g ps by blast
    moreover have "length blob = fpga_mldsa_blob_len ps" using L(4) g by blast
    ultimately show ?thesis
      using assms(3) ps alg g(2,3) by (simp add: signs_def generateAlgSignature_def Let_def fromHex_toHex)
  qed
  show ?thesis
    using assms(4) soft hard ps
    by (auto simp: generateMlDsaKeyPairEx_def generateMlDsaKeyPair_def Let_def split: if_splits option.splits)
qed

section \<open>Properties\<close>


text \<open>Signing with a toy back end whose FPGA has the asymmetric commands and fails to make Ed25519 keys.\<close>

definition toy_signers :: signers where
  "toy_signers = \<lparr>accel_present = True, accel_has_asym_keys = True, accel_has_rsa_keys = False, has_pq = False,
     p256_genkey = Some (replicate 64 1, replicate 64 2), p256_sign = (\<lambda>b h. Some (b @ h)),
     ed_genkey = None, ed_blob_sign = (\<lambda>b m. None), rsa_genkey = None, rsa_blob_sign = (\<lambda>b m. None),
     mldsa_genkey = (\<lambda>ps. None), mldsa_blob_sign = (\<lambda>ps b m. None),
     mbedtls_ecdsa_genkey = None, mbedtls_ecdsa_sign = (\<lambda>b h. None), mbedtls_rsa_gen_key = None,
     mbedtls_pk_parse_key = (\<lambda>d. False), mbedtls_pk_sign = (\<lambda>d h. None),
     mbedtls_asn1_write_mpi = (\<lambda>n. [2, 1, of_nat n]), mbedtls_asn1_write_len = (\<lambda>n. [of_nat n]),
     secureFillRandom = (\<lambda>n. replicate n 3), ed_derivePublicKey = map (\<lambda>x. x + 1),
     ed_sign = (\<lambda>x p m. p @ m), crypto_sign_keypair = (\<lambda>ps. None),
     crypto_sign_signature = (\<lambda>ps b m. None), sha256 = (\<lambda>x. replicate 32 7)\<rparr>"

definition toy_verifies :: "int \<Rightarrow> bytes \<Rightarrow> bytes \<Rightarrow> bytes \<Rightarrow> bool" where
  "toy_verifies alg pub m sig \<longleftrightarrow> alg = - 7 \<or> sig = pub @ m"

lemma toy_signers_ok: "key_lengths toy_signers" "primitives_sign toy_verifies toy_signers"
  by (simp_all add: key_lengths_def primitives_sign_def toy_signers_def toy_verifies_def derEncodeSignature_def)


end
