(* ===== verification/Passkeys.thy ===== *)
theory Passkeys
  imports VaultCrypto
begin

text \<open>
  The passkey store of \<open>src/StorageManager.cpp\<close>: the binary file \<open>/passkeys.bin\<close>, a sequence of
  records (status byte, 4-byte algorithm, credential id, relying party and sealed payload, the strings
  with a 16-bit length), and the operations that append, look up, enumerate and delete records.

  A SPIFFS file system is a map from paths to contents, an open file is the list of bytes that follow
  its position. Reading past the end is \<open>None\<close> wherever the code then uses a variable or a buffer that
  the short read has not filled; \<open>seek\<close> past the end stops at the end.
\<close>

type_synonym spiffs = "string \<rightharpoonup> bytes"

text \<open>
  The parameters of the store: \<open>malloc\<close>, whether a path can be opened for writing, the crypto back
  end, the factory MAC address (\<open>None\<close>: the fuse cannot be read) and the storage key, if loaded.
\<close>

record platform =
  heap :: "nat \<Rightarrow> bool"
  can_open :: "string \<Rightarrow> bool"
  backend :: backends
  efuse_mac :: "bytes option"
  storageKey :: "bytes option"

definition getFidoHardwareKey :: "platform \<Rightarrow> bytes" where
  "getFidoHardwareKey p = mbed_sha256 (backend p)
     ((case efuse_mac p of Some mac \<Rightarrow> mac | None \<Rightarrow> replicate 6 0xAA) @
      ascii ''VAULT_APP_FIDO2_ISOLATION_SECRET'')"

definition hashSHA256 :: "platform \<Rightarrow> bytes \<Rightarrow> bytes" where
  "hashSHA256 p s = toHex (accel_sha256 (backend p) s)"

section \<open>The file format\<close>

definition le16 :: "nat \<Rightarrow> bytes" where
  "le16 n = [of_nat (n mod 256), of_nat (n div 256 mod 256)]"

definition read_u16 :: "bytes \<Rightarrow> (nat \<times> bytes) option" where
  "read_u16 f = (case f of a # b # f \<Rightarrow> Some (unat a + 256 * unat b, f) | _ \<Rightarrow> None)"

definition read_u32 :: "bytes \<Rightarrow> (u32 \<times> bytes) option" where
  "read_u32 f = (case f of
       a # b # c # d # f \<Rightarrow> Some (push_bit 24 (ucast d) OR push_bit 16 (ucast c) OR
         push_bit 8 (ucast b) OR ucast a, f)
     | _ \<Rightarrow> None)"

text \<open>\<open>file.read(buf, n)\<close> followed by \<open>buf[n] = 0\<close> and \<open>String(buf)\<close>.\<close>

definition read_chars :: "nat \<Rightarrow> bytes \<Rightarrow> (bytes \<times> bytes) option" where
  "read_chars n f = (if n \<le> length f then Some (cstr (take n f), drop n f) else None)"

definition readSpiffsString :: "platform \<Rightarrow> bytes \<Rightarrow> (bytes \<times> bytes) option" where
  "readSpiffsString p f =
     (case read_u16 f of
        None \<Rightarrow> Some ([], [])
      | Some (len, f) \<Rightarrow>
          if len = 0 then Some ([], f)
          else if \<not> heap p (len + 1) then Some ([], f)
          else read_chars len f)"

text \<open>\<open>uint16_t len; file.read(&len, 2); file.seek(len, SeekCur)\<close>\<close>

definition skip_field :: "bytes \<Rightarrow> bytes option" where
  "skip_field f = map_option (\<lambda>(len, f). drop len f) (read_u16 f)"

text \<open>\<open>uint16_t len = s.length(); file.write(&len, 2); file.write(s.c_str(), len)\<close>\<close>

definition string_field :: "bytes \<Rightarrow> bytes" where
  "string_field s = (let len = length s mod 65536 in le16 len @ take len s)"

definition record_bytes :: "u8 \<Rightarrow> u32 \<Rightarrow> bytes \<Rightarrow> bytes \<Rightarrow> bytes \<Rightarrow> bytes" where
  "record_bytes status algId cid rp pay =
     status # rev (u32_bytes algId) @ string_field cid @ string_field rp @ string_field pay"

text \<open>
  The loop \<open>while (file.available())\<close> of every reader: the status byte, then the body on what
  follows, which returns the new accumulator, the rest of the file and whether the loop goes on.
\<close>

partial_function (option) scan ::
  "(u8 \<Rightarrow> bytes \<Rightarrow> 'a \<Rightarrow> ('a \<times> bytes \<times> bool) option) \<Rightarrow> bytes \<Rightarrow> 'a \<Rightarrow> 'a option" where
  "scan body f a =
     (case f of
        [] \<Rightarrow> Some a
      | status # f \<Rightarrow> (case body status f a of
            None \<Rightarrow> None
          | Some (a, f, go) \<Rightarrow> if go then scan body f a else Some a))"

section \<open>Reading\<close>

definition rpFieldMatchesRpId :: "platform \<Rightarrow> bytes \<Rightarrow> bytes \<Rightarrow> bool" where
  "rpFieldMatchesRpId p stored rp \<longleftrightarrow> stored = rp \<or> stored = hashSHA256 p rp"

definition isPasskeyExists :: "platform \<Rightarrow> spiffs \<Rightarrow> bytes \<Rightarrow> bool option" where
  "isPasskeyExists p fs credentialIdHex =
     (case fs ''/passkeys.bin'' of
        None \<Rightarrow> Some False
      | Some file \<Rightarrow> scan (\<lambda>status f found. do {
          (cid, f) \<leftarrow> readSpiffsString p (drop 4 f);
          f \<leftarrow> skip_field f;
          f \<leftarrow> skip_field f;
          if status = 1 \<and> cid = credentialIdHex then Some (True, f, False)
          else Some (found, f, True) }) file False)"

definition findAllCredentialsByRp :: "platform \<Rightarrow> spiffs \<Rightarrow> bytes \<Rightarrow> bytes list option" where
  "findAllCredentialsByRp p fs rpId =
     (case fs ''/passkeys.bin'' of
        None \<Rightarrow> Some []
      | Some file \<Rightarrow> scan (\<lambda>status f results. do {
          (cid, f) \<leftarrow> readSpiffsString p (drop 4 f);
          (rp, f) \<leftarrow> readSpiffsString p f;
          (payLen, f) \<leftarrow> read_u16 f;
          let results = (if status = 1 \<and> rpFieldMatchesRpId p rp rpId then results @ [cid] else results);
          Some (results, drop payLen f, True) }) file [])"

definition getAllStoredCredentialIds :: "platform \<Rightarrow> spiffs \<Rightarrow> bytes list option" where
  "getAllStoredCredentialIds p fs =
     (case fs ''/passkeys.bin'' of
        None \<Rightarrow> Some []
      | Some file \<Rightarrow> scan (\<lambda>status f results. do {
          (cid, f) \<leftarrow> readSpiffsString p (drop 4 f);
          (_, f) \<leftarrow> readSpiffsString p f;
          (payLen, f) \<leftarrow> read_u16 f;
          Some (if status = 1 then results @ [cid] else results, drop payLen f, True) }) file [])"

definition getAllStoredRpIds :: "platform \<Rightarrow> spiffs \<Rightarrow> bytes list option" where
  "getAllStoredRpIds p fs =
     (case fs ''/passkeys.bin'' of
        None \<Rightarrow> Some []
      | Some file \<Rightarrow> scan (\<lambda>status f results. do {
          (_, f) \<leftarrow> readSpiffsString p (drop 4 f);
          (rp, f) \<leftarrow> readSpiffsString p f;
          (payLen, f) \<leftarrow> read_u16 f;
          Some (if status = 1 \<and> rp \<notin> set results then results @ [rp] else results,
            drop payLen f, True) }) file [])"

text \<open>The event of \<open>listFidoWebsites\<close>: the relying parties, the slots used and the slots left.\<close>

definition MAX_DISCOVERABLE_CREDENTIALS :: nat where
  "MAX_DISCOVERABLE_CREDENTIALS = 1000"

definition listFidoWebsites :: "platform \<Rightarrow> spiffs \<Rightarrow> (bytes list \<times> nat \<times> nat) option" where
  "listFidoWebsites p fs =
     (case fs ''/passkeys.bin'' of
        None \<Rightarrow> Some ([], 0, MAX_DISCOVERABLE_CREDENTIALS)
      | Some file \<Rightarrow> do {
          (rpIds, credentialCount) \<leftarrow> scan (\<lambda>status f (rpIds, n). do {
            f \<leftarrow> skip_field (drop 4 f);
            (rp, f) \<leftarrow> readSpiffsString p f;
            f \<leftarrow> skip_field f;
            Some (if status = 1 then (if rp \<in> set rpIds then rpIds else rpIds @ [rp], n + 1) else (rpIds, n),
              f, True) }) file ([], 0);
          Some (rpIds, credentialCount, MAX_DISCOVERABLE_CREDENTIALS - credentialCount) })"

section \<open>Writing\<close>

text \<open>A credential as \<open>savePasskeyRecord\<close> takes it and \<open>getPasskeyRecord\<close> returns it.\<close>

record cred =
  rpId :: bytes
  userIdHex :: bytes
  userName :: bytes
  privateKeyHex :: bytes
  algId :: u32
  credProtect :: int
  largeBlobKeyHex :: bytes
  credBlobHex :: bytes

definition rawPayload :: "cred \<Rightarrow> bytes" where
  "rawPayload c = userIdHex c @ [10] @ userName c @ [10] @ privateKeyHex c @ [10] @
     show_int (credProtect c) @ [10] @ largeBlobKeyHex c @ [10] @ credBlobHex c"

definition savePasskeyRecord ::
  "platform \<Rightarrow> u32 \<Rightarrow> bytes \<Rightarrow> cred \<Rightarrow> spiffs \<times> nonce_state \<Rightarrow>
    (bool \<times> spiffs \<times> nonce_state) option" where
  "savePasskeyRecord p pad credentialIdHex c = (\<lambda>(fs, s). do {
     (encryptedPayload, s) \<leftarrow>
       encryptStoragePayload (backend p) (heap p) pad (rawPayload c) (getFidoHardwareKey p) s;
     if encryptedPayload = [] then Some (False, fs, s)
     else if \<not> can_open p ''/passkeys.bin'' then Some (False, fs, s)
     else
       let file = (case fs ''/passkeys.bin'' of Some file \<Rightarrow> file | None \<Rightarrow> []) in
       Some (True, fs(''/passkeys.bin'' \<mapsto>
         file @ record_bytes 1 (algId c) credentialIdHex (rpId c) encryptedPayload), s) })"

text \<open>The two overloads with default arguments.\<close>

definition savePasskeyRecord8 where
  "savePasskeyRecord8 p pad credentialIdHex c =
     savePasskeyRecord p pad credentialIdHex (c\<lparr>credBlobHex := []\<rparr>)"

definition savePasskeyRecord6 where
  "savePasskeyRecord6 p pad credentialIdHex c =
     savePasskeyRecord p pad credentialIdHex (c\<lparr>credProtect := 1, largeBlobKeyHex := [], credBlobHex := []\<rparr>)"

text \<open>
  The second half of \<open>getPasskeyRecord\<close>: the fields of a decrypted payload. Older records lack the
  fields after the private key.
\<close>

definition split_payload :: "bytes \<Rightarrow> u32 \<Rightarrow> bytes \<Rightarrow> cred option" where
  "split_payload rp alg pay = do {
     n1 \<leftarrow> indexOf 10 pay 0;
     n2 \<leftarrow> indexOf 10 pay (n1 + 1);
     let c = \<lparr>rpId = rp, userIdHex = substring pay 0 n1, userName = substring pay (n1 + 1) n2,
       privateKeyHex = [], algId = alg, credProtect = 1, largeBlobKeyHex = [], credBlobHex = []\<rparr>;
     let protect = (\<lambda>cp. if cp = [] then 1 else toInt cp);
     (case indexOf 10 pay (n2 + 1) of
        None \<Rightarrow> Some (c\<lparr>privateKeyHex := drop (n2 + 1) pay\<rparr>)
      | Some n3 \<Rightarrow>
          let c = c\<lparr>privateKeyHex := substring pay (n2 + 1) n3\<rparr> in
          (case indexOf 10 pay (n3 + 1) of
             None \<Rightarrow> Some (c\<lparr>credProtect := protect (drop (n3 + 1) pay)\<rparr>)
           | Some n4 \<Rightarrow>
               let c = c\<lparr>credProtect := protect (substring pay (n3 + 1) n4)\<rparr> in
               (case indexOf 10 pay (n4 + 1) of
                  None \<Rightarrow> Some (c\<lparr>largeBlobKeyHex := drop (n4 + 1) pay\<rparr>)
                | Some n5 \<Rightarrow> Some (c\<lparr>largeBlobKeyHex := substring pay (n4 + 1) n5,
                    credBlobHex := drop (n5 + 1) pay\<rparr>)))) }"

text \<open>
  The payload of a matching record. When \<open>malloc\<close> fails the position stays in front of the payload.
\<close>

definition read_payload :: "platform \<Rightarrow> nat \<Rightarrow> bytes \<Rightarrow> (bytes option \<times> bytes) option" where
  "read_payload p payLen f =
     (if heap p (payLen + 1) then map_option (\<lambda>(pay, f). (Some pay, f)) (read_chars payLen f)
      else Some (None, f))"

definition getPasskeyRecord :: "platform \<Rightarrow> spiffs \<Rightarrow> bytes \<Rightarrow> cred option option" where
  "getPasskeyRecord p fs credentialIdHex =
     (case fs ''/passkeys.bin'' of
        None \<Rightarrow> Some None
      | Some file \<Rightarrow> do {
          found \<leftarrow> scan (\<lambda>status f found. do {
            (currentAlgId, f) \<leftarrow> read_u32 f;
            (cid, f) \<leftarrow> readSpiffsString p f;
            (rp, f) \<leftarrow> readSpiffsString p f;
            (payLen, f) \<leftarrow> read_u16 f;
            if status = 1 \<and> cid = credentialIdHex then do {
              (pay, f) \<leftarrow> read_payload p payLen f;
              Some (Some (rp, currentAlgId, case pay of Some s \<Rightarrow> s | None \<Rightarrow> []), f, False) }
            else Some (found, drop payLen f, True) }) file None;
          Some (case found of
              None \<Rightarrow> None
            | Some (rp, alg, encryptedPayload) \<Rightarrow>
                if encryptedPayload = [] then None
                else
                  let plain = decryptStoragePayload (backend p) (heap p) encryptedPayload
                    (getFidoHardwareKey p) in
                  if plain = [] then None else split_payload rp alg plain) })"

definition findCredentialIdByRpAndUser :: "platform \<Rightarrow> spiffs \<Rightarrow> bytes \<Rightarrow> bytes \<Rightarrow> bytes option" where
  "findCredentialIdByRpAndUser p fs rp_id user_id =
     (case fs ''/passkeys.bin'' of
        None \<Rightarrow> Some []
      | Some file \<Rightarrow> scan (\<lambda>status f foundCid. do {
          (cid, f) \<leftarrow> readSpiffsString p (drop 4 f);
          (rp, f) \<leftarrow> readSpiffsString p f;
          (payLen, f) \<leftarrow> read_u16 f;
          if status = 1 \<and> rpFieldMatchesRpId p rp rp_id then do {
            (pay, f) \<leftarrow> read_payload p payLen f;
            let plain = (case pay of None \<Rightarrow> []
              | Some s \<Rightarrow> decryptStoragePayload (backend p) (heap p) s (getFidoHardwareKey p));
            case indexOf 10 plain 0 of
              None \<Rightarrow> Some (foundCid, f, True)
            | Some n \<Rightarrow>
                if user_id = [] \<or> substring plain 0 n = user_id then Some (cid, f, False)
                else Some (foundCid, f, True) }
          else Some (foundCid, drop payLen f, True) }) file [])"

definition getBinaryCredentialId :: "platform \<Rightarrow> spiffs \<Rightarrow> bytes \<Rightarrow> bytes \<Rightarrow> nat \<Rightarrow> bytes option" where
  "getBinaryCredentialId p fs rp_id user_id maxOutLen = do {
     cid \<leftarrow> findCredentialIdByRpAndUser p fs rp_id user_id;
     let binIdLen = length cid div 2;
     Some (if cid = [] \<or> binIdLen > maxOutLen then [] else fromHex cid binIdLen) }"

definition getFidoWebsiteInfo :: "platform \<Rightarrow> spiffs \<Rightarrow> bytes \<Rightarrow> bytes option" where
  "getFidoWebsiteInfo p fs rp_id =
     (case storageKey p of None \<Rightarrow> Some [] | Some key \<Rightarrow>
     (case fs ''/passkeys.bin'' of
        None \<Rightarrow> Some []
      | Some file \<Rightarrow> scan (\<lambda>status f result. do {
          (cid, f) \<leftarrow> readSpiffsString p (drop 4 f);
          (rp, f) \<leftarrow> readSpiffsString p f;
          (payLen, f) \<leftarrow> read_u16 f;
          if status = 1 \<and> rp = rp_id then do {
            (pay, f) \<leftarrow> read_payload p payLen f;
            let plain = (case pay of None \<Rightarrow> []
              | Some s \<Rightarrow> decryptStoragePayload (backend p) (heap p) s key);
            let line = do {
              n1 \<leftarrow> indexOf 10 plain 0;
              n2 \<leftarrow> indexOf 10 plain (n1 + 1);
              Some (substring plain (n1 + 1) n2 @ ascii '' | CRED_ID:'' @ cid @ [10]) };
            Some (result @ (case line of Some l \<Rightarrow> l | None \<Rightarrow> []), f, True) }
          else Some (result, drop payLen f, True) }) file []))"

section \<open>Deleting\<close>

text \<open>
  Both deletions copy the records that stay into \<open>/passkeys.tmp\<close>; when something was deleted that
  file replaces \<open>/passkeys.bin\<close>. \<open>doomed cid rp\<close> is the test of the operation.
\<close>

definition copy_records ::
  "platform \<Rightarrow> (bytes \<Rightarrow> bytes \<Rightarrow> bool) \<Rightarrow> bytes \<Rightarrow> (bool \<times> bytes) option" where
  "copy_records p doomed file = scan (\<lambda>status f (deleted, temp). do {
     (alg, f) \<leftarrow> read_u32 f;
     (cid, f) \<leftarrow> readSpiffsString p f;
     (rp, f) \<leftarrow> readSpiffsString p f;
     (pay, f) \<leftarrow> readSpiffsString p f;
     Some (if status = 1 \<and> doomed cid rp then (True, temp)
       else if status = 1 then (deleted, temp @ record_bytes status alg cid rp pay)
       else (deleted, temp), f, True) }) file (False, [])"

definition delete_where ::
  "platform \<Rightarrow> (bytes \<Rightarrow> bytes \<Rightarrow> bool) \<Rightarrow> spiffs \<Rightarrow> (bool \<times> spiffs) option" where
  "delete_where p doomed fs =
     (case fs ''/passkeys.bin'' of
        None \<Rightarrow> Some (False, fs)
      | Some file \<Rightarrow>
          if \<not> can_open p ''/passkeys.tmp'' then Some (False, fs)
          else do {
            (deleted, temp) \<leftarrow> copy_records p doomed file;
            Some (deleted, if deleted
              then fs(''/passkeys.bin'' := Some temp, ''/passkeys.tmp'' := None)
              else fs(''/passkeys.tmp'' := None)) })"

definition deleteFidoWebsite :: "platform \<Rightarrow> bytes \<Rightarrow> spiffs \<Rightarrow> (bool \<times> spiffs) option" where
  "deleteFidoWebsite p rp_id = delete_where p (\<lambda>cid rp. rp = rp_id)"

definition deletePasskeyRecord :: "platform \<Rightarrow> bytes \<Rightarrow> spiffs \<Rightarrow> (bool \<times> spiffs) option" where
  "deletePasskeyRecord p credentialIdHex = delete_where p (\<lambda>cid rp. cid = credentialIdHex)"

section \<open>Files of records\<close>

record entry =
  e_status :: u8
  e_alg :: u32
  e_cid :: bytes
  e_rp :: bytes
  e_pay :: bytes

definition tail_bytes :: "entry \<Rightarrow> bytes" where
  "tail_bytes e = rev (u32_bytes (e_alg e)) @ string_field (e_cid e) @ string_field (e_rp e) @
     string_field (e_pay e)"

definition file_of :: "entry list \<Rightarrow> bytes" where
  "file_of es = concat (map (\<lambda>e. e_status e # tail_bytes e) es)"

definition plain_string :: "bytes \<Rightarrow> bool" where
  "plain_string s \<longleftrightarrow> length s < 65536 \<and> 0 \<notin> set s"

definition wf_entry :: "entry \<Rightarrow> bool" where
  "wf_entry e \<longleftrightarrow> plain_string (e_cid e) \<and> plain_string (e_rp e) \<and> plain_string (e_pay e)"

definition roomy :: "platform \<Rightarrow> bool" where
  "roomy p \<longleftrightarrow> (\<forall>n. heap p n) \<and> (\<forall>path. can_open p path)"

lemma file_of_simps [simp]:
  "file_of [] = []" "file_of (e # es) = e_status e # tail_bytes e @ file_of es"
  "file_of (es @ es') = file_of es @ file_of es'"
  by (simp_all add: file_of_def)

lemma record_bytes_entry:
  "record_bytes st alg cid rp pay = file_of [\<lparr>e_status = st, e_alg = alg, e_cid = cid, e_rp = rp, e_pay = pay\<rparr>]"
  by (simp add: record_bytes_def tail_bytes_def)

text \<open>Each reader consumes exactly the field that its writer wrote.\<close>

lemma read_u16_le16: "n < 65536 \<Longrightarrow> read_u16 (le16 n @ f) = Some (n, f)"
proof -
  assume n: "n < 65536"
  have b: "unat (of_nat k :: u8) = k" if "k < 256" for k
    using that by (simp add: unat_of_nat take_bit_nat_eq_self)
  have "n div 256 < 256" using n by (simp add: less_mult_imp_div_less)
  with b [of "n div 256"] b [of "n mod 256"] show ?thesis
    by (simp add: read_u16_def le16_def del: of_nat_mod)
qed

lemma read_string_len:
  "plain_string s \<Longrightarrow> read_u16 (string_field s @ f) = Some (length s, s @ f)"
  by (simp add: string_field_def Let_def plain_string_def read_u16_le16)

lemma skip_string: "plain_string s \<Longrightarrow> skip_field (string_field s @ f) = Some f"
  by (simp add: skip_field_def read_string_len)

lemma readSpiffsString_field:
  "roomy p \<Longrightarrow> plain_string s \<Longrightarrow> readSpiffsString p (string_field s @ f) = Some (s, f)"
  by (auto simp: readSpiffsString_def read_string_len read_chars_def roomy_def plain_string_def)

lemma read_payload_field:
  "roomy p \<Longrightarrow> plain_string s \<Longrightarrow> read_payload p (length s) (s @ f) = Some (Some s, f)"
  by (simp add: read_payload_def read_chars_def roomy_def plain_string_def)

lemma read_u32_bytes: "read_u32 (rev (u32_bytes w) @ f) = Some (w, f)"
proof -
  have k: "(255 :: u32) = mask 8" by (simp add: mask_eq_exp_minus_1)
  have "push_bit 24 (ucast (ucast (drop_bit 24 w AND 0xFF) :: u8)) OR
      push_bit 16 (ucast (ucast (drop_bit 16 w AND 0xFF) :: u8)) OR
      push_bit 8 (ucast (ucast (drop_bit 8 w AND 0xFF) :: u8)) OR ucast (ucast (w AND 0xFF) :: u8) = w"
    unfolding k
  proof (rule bit_word_eqI)
    fix n assume "n < LENGTH(32)"
    then consider "n < 8" | "8 \<le> n" "n < 16" | "16 \<le> n" "n < 24" | "24 \<le> n" "n < 32" by fastforce
    then show "bit (push_bit 24 (ucast (ucast (drop_bit 24 w AND mask 8) :: u8)) OR
      push_bit 16 (ucast (ucast (drop_bit 16 w AND mask 8) :: u8)) OR
      push_bit 8 (ucast (ucast (drop_bit 8 w AND mask 8) :: u8)) OR ucast (ucast (w AND mask 8) :: u8) :: u32) n = bit w n"
      by cases (auto simp: bit_simps not_less)
  qed
  then show ?thesis by (simp add: read_u32_def u32_bytes_def)
qed

lemma drop_u32_bytes: "drop 4 (rev (u32_bytes w) @ f) = f"
  by simp

lemmas field_reads = drop_u32_bytes read_u32_bytes read_string_len skip_string readSpiffsString_field
  read_payload_field

text \<open>A scan of a well-formed file runs over its records, up to a break.\<close>

fun run_entries :: "(entry \<Rightarrow> 'a \<Rightarrow> 'a \<times> bool) \<Rightarrow> entry list \<Rightarrow> 'a \<Rightarrow> 'a" where
  "run_entries g [] a = a"
| "run_entries g (e # es) a = (case g e a of (a, go) \<Rightarrow> if go then run_entries g es a else a)"

lemma scan_entries:
  assumes "list_all wf_entry es"
    and "\<And>e f a. wf_entry e \<Longrightarrow> \<exists>f'. body (e_status e) (tail_bytes e @ f) a =
      Some (fst (g e a), f', snd (g e a)) \<and> (snd (g e a) \<longrightarrow> f' = f)"
  shows "scan body (file_of es) a = Some (run_entries g es a)"
  using assms(1)
proof (induction es arbitrary: a)
  case Nil
  then show ?case by (subst scan.simps) simp
next
  case (Cons e es)
  from Cons.prems have e: "wf_entry e" by simp
  obtain f' where f': "body (e_status e) (tail_bytes e @ file_of es) a = Some (fst (g e a), f', snd (g e a))"
    "snd (g e a) \<Longrightarrow> f' = file_of es"
    using assms(2) [OF e] by blast
  show ?case
    by (subst scan.simps) (use f' Cons in \<open>auto simp: case_prod_beta\<close>)
qed

lemma run_entries_fold:
  "(\<And>e a. g e a = (h e a, True)) \<Longrightarrow> run_entries g es a = foldl (\<lambda>a e. h e a) a es"
  by (induction es arbitrary: a) auto

abbreviation live :: "entry \<Rightarrow> bool" where
  "live e \<equiv> e_status e = 1"

definition stores :: "spiffs \<Rightarrow> entry list \<Rightarrow> bool" where
  "stores fs es \<longleftrightarrow> list_all wf_entry es \<and>
     (fs ''/passkeys.bin'' = Some (file_of es) \<or> es = [] \<and> fs ''/passkeys.bin'' = None)"

lemma storesE:
  assumes "stores fs es"
  obtains "fs ''/passkeys.bin'' = None" "es = []"
    | "fs ''/passkeys.bin'' = Some (file_of es)" "list_all wf_entry es"
  using assms by (auto simp: stores_def)

section \<open>The readers on a stored list\<close>

lemma isPasskeyExists_stored:
  assumes "roomy p" "stores fs es"
  shows "isPasskeyExists p fs cid = Some (\<exists>e \<in> set es. live e \<and> e_cid e = cid)"
proof -
  define g where "g e a = (if live e \<and> e_cid e = cid then (True, False) else (a, True))" for e :: entry and a
  have r: "run_entries g es False = (\<exists>e \<in> set es. live e \<and> e_cid e = cid)"
    by (induction es) (auto simp: g_def)
  show ?thesis using assms(2)
  proof (cases rule: storesE)
    case 2
    then show ?thesis unfolding isPasskeyExists_def
      using assms(1) by (auto simp: g_def wf_entry_def tail_bytes_def field_reads r [symmetric]
          intro!: scan_entries [where g = g])
  qed (simp add: isPasskeyExists_def)
qed


lemmas entry_reads = wf_entry_def tail_bytes_def field_reads

lemma findAll_stored:
  assumes "roomy p" "stores fs es"
  shows "findAllCredentialsByRp p fs rp =
    Some (map e_cid (filter (\<lambda>e. live e \<and> rpFieldMatchesRpId p (e_rp e) rp) es))"
proof -
  define h where "h e a = (if live e \<and> rpFieldMatchesRpId p (e_rp e) rp then a @ [e_cid e] else a)" for e a
  have r: "foldl (\<lambda>a e. h e a) a es = a @ map e_cid (filter (\<lambda>e. live e \<and> rpFieldMatchesRpId p (e_rp e) rp) es)" for a
    by (induction es arbitrary: a) (auto simp: h_def)
  show ?thesis using assms(2)
  proof (cases rule: storesE)
    case 2
    have "findAllCredentialsByRp p fs rp = Some (run_entries (\<lambda>e a. (h e a, True)) es [])"
      unfolding findAllCredentialsByRp_def 2(1) option.case
      by (rule scan_entries [OF 2(2)]) (auto simp: h_def entry_reads assms(1))
    then show ?thesis by (simp add: run_entries_fold r)
  qed (simp add: findAllCredentialsByRp_def)
qed

lemma allIds_stored:
  assumes "roomy p" "stores fs es"
  shows "getAllStoredCredentialIds p fs = Some (map e_cid (filter live es))"
proof -
  define h where "h e a = (if live e then a @ [e_cid e] else a)" for e :: entry and a
  have r: "foldl (\<lambda>a e. h e a) a es = a @ map e_cid (filter live es)" for a
    by (induction es arbitrary: a) (auto simp: h_def)
  show ?thesis using assms(2)
  proof (cases rule: storesE)
    case 2
    have "getAllStoredCredentialIds p fs = Some (run_entries (\<lambda>e a. (h e a, True)) es [])"
      unfolding getAllStoredCredentialIds_def 2(1) option.case
      by (rule scan_entries [OF 2(2)]) (auto simp: h_def entry_reads assms(1))
    then show ?thesis by (simp add: run_entries_fold r)
  qed (simp add: getAllStoredCredentialIds_def)
qed

text \<open>The distinct elements of a list in the order of their first occurrence.\<close>

definition firsts :: "'a list \<Rightarrow> 'a list" where
  "firsts xs = foldl (\<lambda>a x. if x \<in> set a then a else a @ [x]) [] xs"

lemma firsts_acc: "set (foldl (\<lambda>a x. if x \<in> set a then a else a @ [x]) a xs) = set a \<union> set xs"
  by (induction xs arbitrary: a) auto

lemma set_firsts [simp]: "set (firsts xs) = set xs"
  by (simp add: firsts_def firsts_acc)

lemma distinct_firsts: "distinct (firsts xs)"
proof -
  have "distinct a \<Longrightarrow> distinct (foldl (\<lambda>a x. if x \<in> set a then a else a @ [x]) a xs)" for a
    by (induction xs arbitrary: a) auto
  then show ?thesis by (simp add: firsts_def)
qed

lemma allRps_stored:
  assumes "roomy p" "stores fs es"
  shows "getAllStoredRpIds p fs = Some (firsts (map e_rp (filter live es)))"
proof -
  define h where "h e a = (if live e \<and> e_rp e \<notin> set a then a @ [e_rp e] else a)" for e :: entry and a
  have r: "foldl (\<lambda>a e. h e a) a es =
      foldl (\<lambda>a x. if x \<in> set a then a else a @ [x]) a (map e_rp (filter live es))" for a
    by (induction es arbitrary: a) (auto simp: h_def)
  show ?thesis using assms(2)
  proof (cases rule: storesE)
    case 2
    have "getAllStoredRpIds p fs = Some (run_entries (\<lambda>e a. (h e a, True)) es [])"
      unfolding getAllStoredRpIds_def 2(1) option.case
      by (rule scan_entries [OF 2(2)]) (auto simp: h_def entry_reads assms(1))
    then show ?thesis by (simp add: run_entries_fold r firsts_def)
  qed (simp add: getAllStoredRpIds_def firsts_def)
qed

lemma listFido_stored:
  assumes "roomy p" "stores fs es"
  shows "listFidoWebsites p fs =
    Some (firsts (map e_rp (filter live es)), length (filter live es), 1000 - length (filter live es))"
proof -
  define h where "h e a = (case a of (rps, n) \<Rightarrow> if live e
    then (if e_rp e \<in> set rps then rps else rps @ [e_rp e], n + 1) else (rps, n))"
    for e :: entry and a :: "bytes list \<times> nat"
  have r: "foldl (\<lambda>a e. h e a) (rps, n) es =
      (foldl (\<lambda>a x. if x \<in> set a then a else a @ [x]) rps (map e_rp (filter live es)),
       n + length (filter live es))" for rps n
    by (induction es arbitrary: rps n) (auto simp: h_def)
  show ?thesis using assms(2)
  proof (cases rule: storesE)
    case 2
    have "scan (\<lambda>status f (rpIds, n). do {
            f \<leftarrow> skip_field (drop 4 f);
            (rp, f) \<leftarrow> readSpiffsString p f;
            f \<leftarrow> skip_field f;
            Some (if status = 1 then (if rp \<in> set rpIds then rpIds else rpIds @ [rp], n + 1) else (rpIds, n),
              f, True) }) (file_of es) ([], 0) = Some (run_entries (\<lambda>e a. (h e a, True)) es ([], 0))"
      by (rule scan_entries [OF 2(2)]) (auto simp: h_def entry_reads assms(1))
    then show ?thesis
      by (simp add: listFidoWebsites_def 2(1) run_entries_fold r firsts_def MAX_DISCOVERABLE_CREDENTIALS_def)
  qed (simp add: listFidoWebsites_def firsts_def MAX_DISCOVERABLE_CREDENTIALS_def)
qed

text \<open>A deletion keeps the live records it does not delete, and drops the dead ones.\<close>

lemma copy_stored:
  assumes "roomy p" "list_all wf_entry es"
  shows "copy_records p doomed (file_of es) =
    Some (\<exists>e \<in> set es. live e \<and> doomed (e_cid e) (e_rp e),
      file_of (filter (\<lambda>e. live e \<and> \<not> doomed (e_cid e) (e_rp e)) es))"
proof -
  define h where "h e a = (case a of (deleted, temp) \<Rightarrow>
    if live e \<and> doomed (e_cid e) (e_rp e) then (True, temp)
    else if live e then (deleted, temp @ file_of [e]) else (deleted, temp))"
    for e :: entry and a :: "bool \<times> bytes"
  have r: "foldl (\<lambda>a e. h e a) (b, t) es = (b \<or> (\<exists>e \<in> set es. live e \<and> doomed (e_cid e) (e_rp e)),
      t @ file_of (filter (\<lambda>e. live e \<and> \<not> doomed (e_cid e) (e_rp e)) es))" for b t
    by (induction es arbitrary: b t) (auto simp: h_def)
  have "copy_records p doomed (file_of es) = Some (run_entries (\<lambda>e a. (h e a, True)) es (False, []))"
    unfolding copy_records_def
    by (rule scan_entries [OF assms(2)])
      (auto simp: h_def entry_reads assms(1) record_bytes_def split: if_splits)
  then show ?thesis by (simp add: run_entries_fold r)
qed

lemma stores_filter: "stores fs es \<Longrightarrow> list_all wf_entry (filter P es)"
  by (auto simp: stores_def list_all_iff)

lemma delete_stored:
  assumes "roomy p" "stores fs es"
  obtains fs' es' where
    "delete_where p doomed fs = Some (\<exists>e \<in> set es. live e \<and> doomed (e_cid e) (e_rp e), fs')"
    "stores fs' es'" "filter live es' = filter (\<lambda>e. live e \<and> \<not> doomed (e_cid e) (e_rp e)) es"
proof -
  have o: "can_open p ''/passkeys.tmp''" using assms(1) by (simp add: roomy_def)
  show thesis using assms(2)
  proof (cases rule: storesE)
    case 1
    then show thesis
      using assms(2) by (intro that [of fs "[]"]) (auto simp: delete_where_def)
  next
    case 2
    let ?keep = "filter (\<lambda>e. live e \<and> \<not> doomed (e_cid e) (e_rp e)) es"
    let ?del = "\<exists>e \<in> set es. live e \<and> doomed (e_cid e) (e_rp e)"
    have k: "list_all wf_entry ?keep" "filter live ?keep = ?keep"
      using 2(2) by (auto simp: list_all_iff conj_ac intro: filter_cong)
    have eq: "delete_where p doomed fs = Some (?del, if ?del
        then fs(''/passkeys.bin'' := Some (file_of ?keep), ''/passkeys.tmp'' := None)
        else fs(''/passkeys.tmp'' := None))"
      by (simp add: delete_where_def 2(1) o copy_stored [OF assms(1) 2(2)])
    show thesis
    proof (cases ?del)
      case True
      then show thesis
        by (intro that [OF eq, of ?keep]) (simp_all add: stores_def k del: filter_filter)
    next
      case False
      then show thesis
        by (intro that [OF eq, of es]) (auto simp: stores_def 2 intro: filter_cong)
    qed
  qed
qed

section \<open>Payloads\<close>

text \<open>A payload parses back into the credential it was built from.\<close>

definition fields_ok :: "cred \<Rightarrow> bool" where
  "fields_ok c \<longleftrightarrow>
     10 \<notin> set (userIdHex c) \<union> set (userName c) \<union> set (privateKeyHex c) \<union> set (largeBlobKeyHex c) \<and>
     - (2 ^ 31) \<le> credProtect c \<and> credProtect c < 2 ^ 31"

lemma indexOf_field:
  "10 \<notin> set a \<Longrightarrow> from = length pre \<Longrightarrow> pay = pre @ a @ 10 # b \<Longrightarrow>
    indexOf 10 pay from = Some (from + length a) \<and> substring pay from (from + length a) = a \<and>
    drop (Suc (from + length a)) pay = b"
  using indexOf_append [of 10 a "length pre" pre b]
  by (simp add: substring_append [where pre = pre and post = "10 # b"])

lemma split_payload_raw:
  assumes "fields_ok c"
  shows "split_payload (rpId c) (algId c) (rawPayload c) = Some (cred.truncate c)"
proof -
  let ?p = "rawPayload c" and ?cp = "show_int (credProtect c)"
  define n1 where "n1 = length (userIdHex c)"
  define n2 where "n2 = Suc n1 + length (userName c)"
  define n3 where "n3 = Suc n2 + length (privateKeyHex c)"
  define n4 where "n4 = Suc n3 + length ?cp"
  define n5 where "n5 = Suc n4 + length (largeBlobKeyHex c)"
  note nd = n1_def n2_def n3_def n4_def n5_def
  have cp: "10 \<notin> set ?cp" using show_int_plain [of 10] by simp
  have ok: "10 \<notin> set (userIdHex c)" "10 \<notin> set (userName c)" "10 \<notin> set (privateKeyHex c)"
    "10 \<notin> set (largeBlobKeyHex c)" "toInt ?cp = credProtect c"
    using assms toInt_show_int [of "credProtect c"] by (auto simp: fields_ok_def)
  have 1: "indexOf 10 ?p 0 = Some n1" "substring ?p 0 n1 = userIdHex c"
    using indexOf_field [OF ok(1), of 0 "[]" ?p] by (simp_all add: rawPayload_def nd)
  have 2: "indexOf 10 ?p (Suc n1) = Some n2" "substring ?p (Suc n1) n2 = userName c"
    using indexOf_field [OF ok(2), of "Suc n1" "userIdHex c @ [10]" ?p] by (simp_all add: rawPayload_def nd)
  have 3: "indexOf 10 ?p (Suc n2) = Some n3" "substring ?p (Suc n2) n3 = privateKeyHex c"
    using indexOf_field [OF ok(3), of "Suc n2" "userIdHex c @ [10] @ userName c @ [10]" ?p]
    by (simp_all add: rawPayload_def nd)
  have 4: "indexOf 10 ?p (Suc n3) = Some n4" "substring ?p (Suc n3) n4 = ?cp"
    using indexOf_field [OF cp, of "Suc n3" "userIdHex c @ [10] @ userName c @ [10] @ privateKeyHex c @ [10]" ?p]
    by (simp_all add: rawPayload_def nd)
  have 5: "indexOf 10 ?p (Suc n4) = Some n5" "substring ?p (Suc n4) n5 = largeBlobKeyHex c"
    "drop (Suc n5) ?p = credBlobHex c"
    using indexOf_field [OF ok(4), of "Suc n4" "userIdHex c @ [10] @ userName c @ [10] @ privateKeyHex c @ [10] @
      ?cp @ [10]" ?p] by (simp_all add: rawPayload_def nd)
  show ?thesis
    by (simp add: split_payload_def 1 2 3 4 5 ok Let_def cred.defs)
qed

text \<open>A line feed in the user name shifts every later field: the private key is lost.\<close>

lemma newline_in_user_name:
  "map_option privateKeyHex (split_payload [] 0 (rawPayload
    \<lparr>rpId = [], userIdHex = [49], userName = [97, 10, 98], privateKeyHex = [50, 50], algId = 0,
     credProtect = 1, largeBlobKeyHex = [], credBlobHex = []\<rparr>)) = Some [98]"
  by code_simp

section \<open>The store as a list of credentials\<close>

definition opens :: "platform \<Rightarrow> entry \<Rightarrow> cred \<Rightarrow> bool" where
  "opens p e c \<longleftrightarrow> e_rp e = rpId c \<and> e_alg e = algId c \<and> e_pay e \<noteq> [] \<and> fields_ok c \<and>
     decryptStoragePayload (backend p) (heap p) (e_pay e) (getFidoHardwareKey p) = rawPayload c"

type_synonym store = "(bytes \<times> cred) list"

definition holds :: "platform \<Rightarrow> spiffs \<Rightarrow> store \<Rightarrow> bool" where
  "holds p fs st \<longleftrightarrow> (\<exists>es. stores fs es \<and>
     list_all2 (\<lambda>e (cid, c). e_cid e = cid \<and> opens p e c) (filter live es) st)"

lemma rawPayload_not_Nil [simp]: "rawPayload c \<noteq> []"
  by (simp add: rawPayload_def)

definition first_with :: "bytes \<Rightarrow> entry list \<Rightarrow> (bytes \<times> u32 \<times> bytes) option" where
  "first_with cid es = map_option (\<lambda>e. (e_rp e, e_alg e, e_pay e)) (find (\<lambda>e. live e \<and> e_cid e = cid) es)"

lemma find_holds:
  "list_all2 (\<lambda>e (cid, c). e_cid e = cid \<and> opens p e c) (filter live es) st \<Longrightarrow>
    (case find (\<lambda>e. live e \<and> e_cid e = cid) es of
       None \<Rightarrow> map_of st cid = None
     | Some e \<Rightarrow> \<exists>c. map_of st cid = Some c \<and> opens p e c)"
proof (induction es arbitrary: st)
  case (Cons e es)
  show ?case
  proof (cases "live e")
    case True
    with Cons.prems obtain cid' c st' where "st = (cid', c) # st'" "e_cid e = cid'" "opens p e c"
      "list_all2 (\<lambda>e (cid, c). e_cid e = cid \<and> opens p e c) (filter live es) st'"
      by (auto simp: list_all2_Cons1)
    then show ?thesis using True Cons.IH [of st'] by (auto split: option.splits)
  next
    case False
    then show ?thesis using Cons by simp
  qed
qed simp

lemma getPasskey_holds:
  assumes "roomy p" "holds p fs st"
  shows "getPasskeyRecord p fs cid = Some (map_option cred.truncate (map_of st cid))"
proof -
  obtain es where es: "stores fs es"
    "list_all2 (\<lambda>e (cid, c). e_cid e = cid \<and> opens p e c) (filter live es) st"
    using assms(2) by (auto simp: holds_def)
  define g where "g e a = (if live e \<and> e_cid e = cid then (Some (e_rp e, e_alg e, e_pay e), False)
    else (a, True))" for e :: entry and a :: "(bytes \<times> u32 \<times> bytes) option"
  have r: "run_entries g es None = first_with cid es"
    by (induction es) (auto simp: g_def first_with_def)
  show ?thesis using es(1)
  proof (cases rule: storesE)
    case 1
    then show ?thesis using es(2) by (simp add: getPasskeyRecord_def)
  next
    case 2
    have s: "scan (\<lambda>status f found. do {
            (currentAlgId, f) \<leftarrow> read_u32 f;
            (cid', f) \<leftarrow> readSpiffsString p f;
            (rp, f) \<leftarrow> readSpiffsString p f;
            (payLen, f) \<leftarrow> read_u16 f;
            if status = 1 \<and> cid' = cid then do {
              (pay, f) \<leftarrow> read_payload p payLen f;
              Some (Some (rp, currentAlgId, case pay of Some s \<Rightarrow> s | None \<Rightarrow> []), f, False) }
            else Some (found, drop payLen f, True) }) (file_of es) None = Some (first_with cid es)"
      unfolding r [symmetric]
      by (rule scan_entries [OF 2(2)]) (auto simp: g_def entry_reads assms(1))
    show ?thesis
      unfolding getPasskeyRecord_def 2(1) option.case s bind.bind_lunit
      using find_holds [OF es(2), of cid]
      by (auto simp: first_with_def opens_def split_payload_raw split: option.splits)
  qed
qed

text \<open>Sealing a payload.\<close>

lemma seal_shape:
  assumes "consistent b" "gcm_ok b" "encryptStoragePayload b h pad x key s = Some (e, s')" "e \<noteq> []"
  shows "length e = 58 + 2 * length x \<and> 0 \<notin> set e"
proof -
  obtain iv where iv: "generate_aes_gcm_nonce pad s = Some (iv, s')" "length iv = 12"
    using assms(3) nonce_length
    by (auto simp: encryptStoragePayload_def bind_eq_Some_conv split: if_splits option.splits)
  then obtain c t where c: "mbed_gcm_encrypt b key iv [] x = Some (c, t)"
    "e = toHex iv @ [58] @ toHex c @ [58] @ toHex t"
    using assms by (auto simp: encryptStoragePayload_def accel_gcm_encrypt_eq split: if_splits option.splits)
  have "length c = length x" "length t = 16"
    using assms(2) c(1) unfolding gcm_ok_def by blast+
  with iv(2) show ?thesis by (simp add: c(2) toHex_plain)
qed

definition cred_ok :: "bytes \<Rightarrow> cred \<Rightarrow> bool" where
  "cred_ok cid c \<longleftrightarrow> fields_ok c \<and> plain_string cid \<and> plain_string (rpId c) \<and>
     0 \<notin> set (rawPayload c) \<and> 58 + 2 * length (rawPayload c) < 65536"

definition sound :: "platform \<Rightarrow> bool" where
  "sound p \<longleftrightarrow> roomy p \<and> consistent (backend p) \<and> gcm_ok (backend p)"

lemma save_holds:
  assumes "sound p" "holds p fs st" "cred_ok cid c" "nonce_subsystem_initialized s"
  obtains r fs' s' where "savePasskeyRecord p pad cid c (fs, s) = Some (r, fs', s')"
    "holds p fs' (if r then st @ [(cid, c)] else st)" "nonce_subsystem_initialized s'"
proof -
  have p: "roomy p" "consistent (backend p)" "gcm_ok (backend p)" "\<And>n. heap p n" "\<And>x. can_open p x"
    using assms(1) by (simp_all add: sound_def roomy_def)
  obtain iv s' where iv: "generate_aes_gcm_nonce pad s = Some (iv, s')" "nonce_subsystem_initialized s'"
    using assms(4) by (auto simp: generate_aes_gcm_nonce_def Let_def)
  let ?k = "getFidoHardwareKey p"
  obtain e where e: "encryptStoragePayload (backend p) (heap p) pad (rawPayload c) ?k s = Some (e, s')"
    using iv(1) p(4) by (cases "accel_aes256_gcm_encrypt (backend p) ?k iv [] (rawPayload c)")
      (auto simp: encryptStoragePayload_def)
  show thesis
  proof (cases "e = []")
    case True
    then show thesis
      using e iv(2) assms(2) that [of False fs s'] by (simp add: savePasskeyRecord_def)
  next
    case False
    note sh = seal_shape [OF p(2,3) e False]
    have dec: "decryptStoragePayload (backend p) (heap p) e ?k = rawPayload c"
      using storage_roundtrip [OF p(2,3) rawPayload_not_Nil, of c "heap p" pad ?k s e s'] assms(3) p(4) e False
      by (simp add: cred_ok_def)
    define n where "n = \<lparr>e_status = 1, e_alg = algId c, e_cid = cid, e_rp = rpId c, e_pay = e\<rparr>"
    obtain es where es: "stores fs es"
      "list_all2 (\<lambda>e (cid, c). e_cid e = cid \<and> opens p e c) (filter live es) st"
      using assms(2) by (auto simp: holds_def)
    define fs' where "fs' = fs(''/passkeys.bin'' \<mapsto> file_of (es @ [n]))"
    have "savePasskeyRecord p pad cid c (fs, s) = Some (True, fs', s')"
      using es(1) e False p(5) by (cases rule: storesE)
        (simp_all add: savePasskeyRecord_def fs'_def record_bytes_entry n_def)
    moreover have "stores fs' (es @ [n])"
      using es(1) assms(3) sh by (auto simp: stores_def fs'_def n_def wf_entry_def plain_string_def cred_ok_def)
    moreover have "opens p n c"
      using dec False assms(3) by (simp add: opens_def n_def cred_ok_def)
    then have "list_all2 (\<lambda>e (cid, c). e_cid e = cid \<and> opens p e c) (filter live (es @ [n])) (st @ [(cid, c)])"
      using es(2) by (simp add: n_def list_all2_appendI)
    ultimately show thesis
      using iv(2) by (intro that [of True fs' s']) (auto simp: holds_def)
  qed
qed

text \<open>The enumerations and deletions in terms of the credentials.\<close>

lemma filter_holds:
  assumes "list_all2 (\<lambda>e (cid, c). e_cid e = cid \<and> opens p e c) es st"
  shows "list_all2 (\<lambda>e (cid, c). e_cid e = cid \<and> opens p e c)
    (filter (\<lambda>e. P (e_cid e) (e_rp e)) es) (filter (\<lambda>(cid, c). P cid (rpId c)) st)"
  using assms by (induction rule: list_all2_induct) (auto simp: opens_def)

lemma map_holds:
  assumes "list_all2 (\<lambda>e (cid, c). e_cid e = cid \<and> opens p e c) es st"
  shows "map e_cid es = map fst st" "map e_rp es = map (rpId \<circ> snd) st"
  using assms by (induction rule: list_all2_induct) (auto simp: opens_def)

lemma delete_holds:
  assumes "roomy p" "holds p fs st"
  obtains fs' where "delete_where p doomed fs = Some (\<exists>(cid, c) \<in> set st. doomed cid (rpId c), fs')"
    "holds p fs' (filter (\<lambda>(cid, c). \<not> doomed cid (rpId c)) st)"
proof -
  obtain es where es: "stores fs es"
    and all: "list_all2 (\<lambda>e (cid, c). e_cid e = cid \<and> opens p e c) (filter live es) st"
    using assms(2) by (auto simp: holds_def)
  obtain fs' es' where d: "delete_where p doomed fs = Some (\<exists>e \<in> set es. live e \<and> doomed (e_cid e) (e_rp e), fs')"
    "stores fs' es'" "filter live es' = filter (\<lambda>e. live e \<and> \<not> doomed (e_cid e) (e_rp e)) es"
    using delete_stored [OF assms(1) es, of doomed] .
  have "(\<exists>e \<in> set es. live e \<and> doomed (e_cid e) (e_rp e)) \<longleftrightarrow>
      filter (\<lambda>e. doomed (e_cid e) (e_rp e)) (filter live es) \<noteq> []"
    by (auto simp: filter_empty_conv)
  also have "\<dots> \<longleftrightarrow> filter (\<lambda>(cid, c). doomed cid (rpId c)) st \<noteq> []"
    using filter_holds [OF all, of doomed] by auto
  also have "\<dots> \<longleftrightarrow> (\<exists>(cid, c) \<in> set st. doomed cid (rpId c))"
    by (auto simp: filter_empty_conv)
  finally have 1: "(\<exists>e \<in> set es. live e \<and> doomed (e_cid e) (e_rp e)) \<longleftrightarrow>
    (\<exists>(cid, c) \<in> set st. doomed cid (rpId c))" .
  have "filter live es' = filter (\<lambda>e. \<not> doomed (e_cid e) (e_rp e)) (filter live es)"
    by (simp add: d(3) conj_commute)
  with d(2) filter_holds [OF all, of "\<lambda>a b. \<not> doomed a b"] have "holds p fs' (filter (\<lambda>(cid, c). \<not> doomed cid (rpId c)) st)"
    by (auto simp: holds_def)
  with d(1) show thesis unfolding 1 by (rule that)
qed

lemma readers_hold:
  assumes "roomy p" "holds p fs st"
  shows "isPasskeyExists p fs cid = Some (cid \<in> fst ` set st)"
    "getAllStoredCredentialIds p fs = Some (map fst st)"
    "findAllCredentialsByRp p fs rp =
      Some (map fst (filter (\<lambda>(cid, c). rpFieldMatchesRpId p (rpId c) rp) st))"
    "getAllStoredRpIds p fs = Some (firsts (map (rpId \<circ> snd) st))"
    "listFidoWebsites p fs = Some (firsts (map (rpId \<circ> snd) st), length st, 1000 - length st)"
proof -
  obtain es where es: "stores fs es"
    and all: "list_all2 (\<lambda>e (cid, c). e_cid e = cid \<and> opens p e c) (filter live es) st"
    using assms(2) by (auto simp: holds_def)
  note m = map_holds [OF all]
  have "(\<exists>e \<in> set es. live e \<and> e_cid e = cid) \<longleftrightarrow> cid \<in> set (map e_cid (filter live es))" by auto
  then show "isPasskeyExists p fs cid = Some (cid \<in> fst ` set st)"
    using isPasskeyExists_stored [OF assms(1) es, of cid] by (simp add: m)
  show "getAllStoredCredentialIds p fs = Some (map fst st)"
    using allIds_stored [OF assms(1) es] by (simp only: m)
  have "filter (\<lambda>e. live e \<and> rpFieldMatchesRpId p (e_rp e) rp) es =
      filter (\<lambda>e. rpFieldMatchesRpId p (e_rp e) rp) (filter live es)"
    by (simp add: conj_commute)
  then show "findAllCredentialsByRp p fs rp =
      Some (map fst (filter (\<lambda>(cid, c). rpFieldMatchesRpId p (rpId c) rp) st))"
    using findAll_stored [OF assms(1) es, of rp]
      map_holds(1) [OF filter_holds [OF all, of "\<lambda>_ x. rpFieldMatchesRpId p x rp"]] by simp
  show "getAllStoredRpIds p fs = Some (firsts (map (rpId \<circ> snd) st))"
    using allRps_stored [OF assms(1) es] by (simp only: m)
  show "listFidoWebsites p fs = Some (firsts (map (rpId \<circ> snd) st), length st, 1000 - length st)"
    using listFido_stored [OF assms(1) es] list_all2_lengthD [OF all] by (simp only: m)
qed

definition first_match :: "platform \<Rightarrow> bytes \<Rightarrow> bytes \<Rightarrow> store \<Rightarrow> bytes" where
  "first_match p rp uid st = (case find (\<lambda>(cid, c). rpFieldMatchesRpId p (rpId c) rp \<and>
     (uid = [] \<or> userIdHex c = uid)) st of None \<Rightarrow> [] | Some (cid, _) \<Rightarrow> cid)"

lemma rawPayload_user:
  "fields_ok c \<Longrightarrow> indexOf 10 (rawPayload c) 0 = Some (length (userIdHex c)) \<and>
    substring (rawPayload c) 0 (length (userIdHex c)) = userIdHex c"
  using indexOf_field [of "userIdHex c" 0 "[]" "rawPayload c"] by (simp add: rawPayload_def fields_ok_def)

lemma find_by_user_holds:
  assumes "roomy p" "holds p fs st"
  shows "findCredentialIdByRpAndUser p fs rp uid = Some (first_match p rp uid st)"
proof -
  obtain es where es: "stores fs es"
    and all: "list_all2 (\<lambda>e (cid, c). e_cid e = cid \<and> opens p e c) (filter live es) st"
    using assms(2) by (auto simp: holds_def)
  define plain where "plain e = decryptStoragePayload (backend p) (heap p) (e_pay e) (getFidoHardwareKey p)"
    for e :: entry
  define g where "g e a = (if live e \<and> rpFieldMatchesRpId p (e_rp e) rp
    then (case indexOf 10 (plain e) 0 of None \<Rightarrow> (a, True)
      | Some n \<Rightarrow> if uid = [] \<or> substring (plain e) 0 n = uid then (e_cid e, False) else (a, True))
    else (a, True))" for e :: entry and a :: bytes
  have r: "run_entries g es [] = first_match p rp uid st" using all
  proof (induction es arbitrary: st)
    case (Cons e es)
    show ?case
    proof (cases "live e")
      case True
      with Cons.prems obtain cid c st' where st: "st = (cid, c) # st'" "e_cid e = cid" "opens p e c"
        "list_all2 (\<lambda>e (cid, c). e_cid e = cid \<and> opens p e c) (filter live es) st'"
        by (auto simp: list_all2_Cons1)
      then have "plain e = rawPayload c" "e_rp e = rpId c" "fields_ok c" by (simp_all add: opens_def plain_def)
      then show ?thesis
        using True st Cons.IH [OF st(4)] rawPayload_user [of c] by (simp add: g_def first_match_def)
    next
      case False
      then show ?thesis using Cons.IH [of st] Cons.prems by (simp add: g_def)
    qed
  qed (simp add: first_match_def)
  show ?thesis using es
  proof (cases rule: storesE)
    case 1
    then show ?thesis using r by (simp add: findCredentialIdByRpAndUser_def)
  next
    case 2
    show ?thesis
      unfolding findCredentialIdByRpAndUser_def 2(1) option.case r [symmetric]
      by (rule scan_entries [OF 2(2)])
        (auto simp: g_def entry_reads assms(1) plain_def split: option.splits)
  qed
qed

section \<open>Sessions\<close>

datatype pk_op = Save u32 bytes cred | Delete_Key bytes | Delete_Site bytes

fun pk_step :: "platform \<Rightarrow> pk_op \<Rightarrow> spiffs \<times> nonce_state \<Rightarrow> (bool \<times> spiffs \<times> nonce_state) option" where
  "pk_step p (Save pad cid c) (fs, s) = savePasskeyRecord p pad cid c (fs, s)"
| "pk_step p (Delete_Key cid) (fs, s) = map_option (\<lambda>(r, fs). (r, fs, s)) (deletePasskeyRecord p cid fs)"
| "pk_step p (Delete_Site rp) (fs, s) = map_option (\<lambda>(r, fs). (r, fs, s)) (deleteFidoWebsite p rp fs)"

fun pk_run :: "platform \<Rightarrow> pk_op list \<Rightarrow> spiffs \<times> nonce_state \<Rightarrow>
    (bool list \<times> spiffs \<times> nonce_state) option" where
  "pk_run p [] (fs, s) = Some ([], fs, s)"
| "pk_run p (op # ops) st = do {
     (r, fs, s) \<leftarrow> pk_step p op st;
     (rs, fs, s) \<leftarrow> pk_run p ops (fs, s);
     Some (r # rs, fs, s) }"

text \<open>
  The specification: an association list of credentials. A save that reports success appends, a
  deletion filters and reports whether it removed anything.
\<close>

fun spec_step :: "pk_op \<Rightarrow> bool \<Rightarrow> store \<Rightarrow> store option" where
  "spec_step (Save pad cid c) r st = Some (if r then st @ [(cid, c)] else st)"
| "spec_step (Delete_Key cid) r st =
     (if r = (cid \<in> fst ` set st) then Some (filter (\<lambda>(i, c). i \<noteq> cid) st) else None)"
| "spec_step (Delete_Site rp) r st =
     (if r = (rp \<in> rpId ` snd ` set st) then Some (filter (\<lambda>(i, c). rpId c \<noteq> rp) st) else None)"

fun spec_run :: "pk_op list \<Rightarrow> bool list \<Rightarrow> store \<Rightarrow> store option" where
  "spec_run [] [] st = Some st"
| "spec_run (op # ops) (r # rs) st = do { st \<leftarrow> spec_step op r st; spec_run ops rs st }"
| "spec_run _ _ st = None"

fun op_ok :: "pk_op \<Rightarrow> bool" where
  "op_ok (Save pad cid c) = cred_ok cid c"
| "op_ok _ = True"

lemma pk_step_simulates:
  assumes "sound p" "op_ok op" "holds p fs st" "nonce_subsystem_initialized s"
  obtains r fs' s' st' where "pk_step p op (fs, s) = Some (r, fs', s')" "spec_step op r st = Some st'"
    "holds p fs' st'" "nonce_subsystem_initialized s'"
proof (cases op)
  case (Save pad cid c)
  then obtain r fs' s' where "savePasskeyRecord p pad cid c (fs, s) = Some (r, fs', s')"
    "holds p fs' (if r then st @ [(cid, c)] else st)" "nonce_subsystem_initialized s'"
    using save_holds [OF assms(1,3) _ assms(4), of cid c pad] assms(2) by auto
  then show thesis using that Save by simp
next
  case (Delete_Key cid)
  obtain fs' where "deletePasskeyRecord p cid fs = Some (\<exists>(i, c) \<in> set st. i = cid, fs')"
    "holds p fs' (filter (\<lambda>(i, c). i \<noteq> cid) st)"
    using delete_holds [of p fs st "\<lambda>i rp. i = cid"] assms by (auto simp: deletePasskeyRecord_def sound_def)
  moreover have "(\<exists>(i, c) \<in> set st. i = cid) \<longleftrightarrow> cid \<in> fst ` set st" by force
  ultimately show thesis using that [of "cid \<in> fst ` set st" fs' s] Delete_Key assms(4) by simp
next
  case (Delete_Site rp)
  obtain fs' where "deleteFidoWebsite p rp fs = Some (\<exists>(i, c) \<in> set st. rpId c = rp, fs')"
    "holds p fs' (filter (\<lambda>(i, c). rpId c \<noteq> rp) st)"
    using delete_holds [of p fs st "\<lambda>i x. x = rp"] assms by (auto simp: deleteFidoWebsite_def sound_def)
  moreover have "(\<exists>(i, c) \<in> set st. rpId c = rp) \<longleftrightarrow> rp \<in> rpId ` snd ` set st" by force
  ultimately show thesis using that [of "rp \<in> rpId ` snd ` set st" fs' s] Delete_Site assms(4) by simp
qed

lemma pk_run_simulates:
  assumes "sound p" "\<forall>op \<in> set ops. op_ok op" "holds p fs st" "nonce_subsystem_initialized s"
  shows "\<exists>rs fs' s' st'. pk_run p ops (fs, s) = Some (rs, fs', s') \<and> spec_run ops rs st = Some st' \<and>
    holds p fs' st'"
  using assms(2-)
proof (induction ops arbitrary: fs s st)
  case (Cons op ops)
  from Cons.prems have "op_ok op" by simp
  from pk_step_simulates [OF assms(1) this Cons.prems(2,3)] obtain r fs1 s1 st1 where
    1: "pk_step p op (fs, s) = Some (r, fs1, s1)" "spec_step op r st = Some st1"
    and h: "holds p fs1 st1" "nonce_subsystem_initialized s1" .
  obtain rs fs' s' st' where "pk_run p ops (fs1, s1) = Some (rs, fs', s')"
    "spec_run ops rs st1 = Some st'" "holds p fs' st'"
    using Cons.IH [OF _ h] Cons.prems(1) by auto
  with 1 show ?case by auto
qed auto

lemma holds_empty: "holds p Map.empty []"
  by (auto simp: holds_def stores_def intro: exI [of _ "[]"])

text \<open>What a file system that holds a store answers.\<close>

definition answers :: "platform \<Rightarrow> spiffs \<Rightarrow> store \<Rightarrow> bool" where
  "answers p fs st \<longleftrightarrow> (\<forall>cid rp uid.
      isPasskeyExists p fs cid = Some (cid \<in> fst ` set st) \<and>
      getPasskeyRecord p fs cid = Some (map_option cred.truncate (map_of st cid)) \<and>
      getAllStoredCredentialIds p fs = Some (map fst st) \<and>
      findAllCredentialsByRp p fs rp =
        Some (map fst (filter (\<lambda>(cid, c). rpFieldMatchesRpId p (rpId c) rp) st)) \<and>
      findCredentialIdByRpAndUser p fs rp uid = Some (first_match p rp uid st) \<and>
      getAllStoredRpIds p fs = Some (firsts (map (rpId \<circ> snd) st)) \<and>
      listFidoWebsites p fs = Some (firsts (map (rpId \<circ> snd) st), length st, 1000 - length st))"

lemma holds_answers: "roomy p \<Longrightarrow> holds p fs st \<Longrightarrow> answers p fs st"
  by (simp add: answers_def readers_hold getPasskey_holds find_by_user_holds)

section \<open>Properties\<close>

text \<open>
  C4: the passkey file implements a list of credentials: after any sequence of saves and deletions from
  an empty file system, nothing was read beyond the file, the results reported are those of the list,
  and every lookup and enumeration (existence, record, credential ids, ids of a relying party, first id
  of a user, relying parties, slots used and left) answers from that list.
\<close>

theorem passkey_store_refines:
  assumes "sound p" "\<forall>op \<in> set ops. op_ok op" "nonce_subsystem_initialized s"
  shows "\<exists>rs fs s' st. pk_run p ops (Map.empty, s) = Some (rs, fs, s') \<and>
    spec_run ops rs [] = Some st \<and> answers p fs st"
proof -
  have "roomy p" using assms(1) by (simp add: sound_def)
  with pk_run_simulates [OF assms(1,2) holds_empty assms(3)] holds_answers show ?thesis by blast
qed

definition toy_platform :: platform where
  "toy_platform = \<lparr>heap = (\<lambda>n. True), can_open = (\<lambda>path. True), backend = toy_gcm, efuse_mac = None,
     storageKey = None\<rparr>"

definition toy_cred :: cred where
  "toy_cred = \<lparr>rpId = ascii ''example.com'', userIdHex = ascii ''01'', userName = ascii ''ann'',
     privateKeyHex = ascii ''c0ffee'', algId = - 7, credProtect = 2, largeBlobKeyHex = [],
     credBlobHex = []\<rparr>"

lemma toy_sound: "sound toy_platform"
  by (simp add: sound_def roomy_def toy_platform_def toy_gcm_ok)

lemma toy_cred_ok: "cred_ok (ascii ''ab'') toy_cred"
  by (simp add: cred_ok_def fields_ok_def plain_string_def toy_cred_def ascii_def rawPayload_def
      show_int_def show_nat.simps)

theorem passkey_store_refines_witness:
  "\<exists>rs fs s' st. pk_run toy_platform [Save 7 (ascii ''ab'') toy_cred, Delete_Site (ascii ''other.org'')]
      (Map.empty, \<lparr>boot_counter = 1, session_counter = 0, nonce_subsystem_initialized = True\<rparr>) =
      Some (rs, fs, s') \<and>
    spec_run [Save 7 (ascii ''ab'') toy_cred, Delete_Site (ascii ''other.org'')] rs [] = Some st \<and>
    answers toy_platform fs st"
  by (rule passkey_store_refines [OF toy_sound]) (simp_all add: toy_cred_ok)

text \<open>
  a credential that was saved is returned by the next lookup with all its fields, whatever was
  stored before under other identifiers, and is gone after its deletion.
\<close>

theorem save_get_delete:
  assumes "sound p" "holds p fs st" "cred_ok cid c" "nonce_subsystem_initialized s"
    and "cid \<notin> fst ` set st" "savePasskeyRecord p pad cid c (fs, s) = Some (True, fs1, s1)"
  shows "getPasskeyRecord p fs1 cid = Some (Some (cred.truncate c)) \<and>
    (\<exists>fs2. deletePasskeyRecord p cid fs1 = Some (True, fs2) \<and> getPasskeyRecord p fs2 cid = Some None \<and>
      holds p fs2 st)"
proof -
  have p: "roomy p" using assms(1) by (simp add: sound_def)
  obtain r fs' s' where "savePasskeyRecord p pad cid c (fs, s) = Some (r, fs', s')"
    "holds p fs' (if r then st @ [(cid, c)] else st)"
    using save_holds [OF assms(1-4)] by metis
  with assms(6) have h: "holds p fs1 (st @ [(cid, c)])" by simp
  have m: "map_of st cid = None" using assms(5) by (simp add: map_of_eq_None_iff)
  have f: "filter (\<lambda>(i, c). i \<noteq> cid) st = st"
    using assms(5) by (intro filter_True) force
  obtain fs2 where d: "deletePasskeyRecord p cid fs1 = Some (True, fs2)" "holds p fs2 st"
    using delete_holds [OF p h, of "\<lambda>i rp. i = cid"] by (auto simp: deletePasskeyRecord_def f)
  show ?thesis
    using getPasskey_holds [OF p h, of cid] getPasskey_holds [OF p d(2), of cid] d m
    by (simp add: map_add_def)
qed

lemma toy_save:
  obtains fs1 s1 where "savePasskeyRecord toy_platform 7 (ascii ''ab'') toy_cred
      (Map.empty, \<lparr>boot_counter = 1, session_counter = 0, nonce_subsystem_initialized = True\<rparr>) =
      Some (True, fs1, s1)"
proof -
  have "mbed_gcm_encrypt toy_gcm k v a d = Some (d, replicate 16 9)" for k v a d
    by (simp add: toy_gcm_def)
  then show thesis
    using that by (simp add: savePasskeyRecord_def encryptStoragePayload_def toy_platform_def
        accel_gcm_encrypt_eq [OF toy_gcm_ok(1)] generate_aes_gcm_nonce_def)
qed

theorem save_get_delete_witness:
  "\<exists>fs1 s1. savePasskeyRecord toy_platform 7 (ascii ''ab'') toy_cred
      (Map.empty, \<lparr>boot_counter = 1, session_counter = 0, nonce_subsystem_initialized = True\<rparr>) =
      Some (True, fs1, s1) \<and>
    getPasskeyRecord toy_platform fs1 (ascii ''ab'') = Some (Some toy_cred)"
proof -
  obtain fs1 s1 where s: "savePasskeyRecord toy_platform 7 (ascii ''ab'') toy_cred
      (Map.empty, \<lparr>boot_counter = 1, session_counter = 0, nonce_subsystem_initialized = True\<rparr>) =
      Some (True, fs1, s1)"
    by (rule toy_save)
  then show ?thesis
    using save_get_delete [OF toy_sound holds_empty toy_cred_ok _ _ s]
    by (simp add: cred.defs toy_cred_def)
qed

text \<open>
  \<open>getFidoWebsiteInfo\<close> opens the payloads with the storage key, under which none was sealed: it lists
  nothing unless a payload happens to open under that key.
\<close>

lemma website_info_uses_other_key:
  assumes "roomy p" "stores fs es" "storageKey p = Some key"
    and "\<And>e. e \<in> set es \<Longrightarrow> decryptStoragePayload (backend p) (heap p) (e_pay e) key = []"
  shows "getFidoWebsiteInfo p fs rp = Some []"
proof -
  have "scan body (file_of es) a = Some a"
    if b: "\<And>e f. e \<in> set es \<Longrightarrow> body (e_status e) (tail_bytes e @ f) a = Some (a, f, True)"
    for body and a :: bytes
    using b
  proof (induction es)
    case (Cons e es)
    then show ?case by (subst scan.simps) simp
  qed (subst scan.simps, simp)
  note sc = this
  show ?thesis using assms(2)
  proof (cases rule: storesE)
    case 1
    then show ?thesis by (simp add: getFidoWebsiteInfo_def assms(3))
  next
    case 2
    show ?thesis
      unfolding getFidoWebsiteInfo_def 2(1) assms(3) option.case
      by (rule sc) (use 2(2) assms(4) in
        \<open>auto simp: list_all_iff entry_reads assms(1) indexOf_def\<close>)
  qed
qed

end
