(* ===== verification/PinStore.thy ===== *)
theory PinStore
  imports Passkeys
begin

text \<open>
  The PIN, the attempt counters, the FIDO settings, the large-blob file, the attestation and stateless
  secrets in NVS and the two resets of \<open>src/StorageManager.cpp\<close>.

  The state is the file system with the static variables of the firmware and what the operations have
  sent out; a reading operation is a function of the state, a writing one returns the new state. The
  platform says which files can be opened for writing, \<open>nvs\<close> whether \<open>nvs_open\<close> succeeds, and the
  random bytes of \<open>esp_fill_random\<close> are arguments.
\<close>

datatype notice =
    Send_Error string string
  | Send_Event string string
  | Delete_All_Fingerprints
  | Restart

record system =
  files :: spiffs
  storage_key :: bytes
  isStorageKeyLoaded :: bool
  authenticated :: bool
  state_ready :: bool
  sl_secret :: "bytes option"
  attest_chain :: "bytes option"
  attest_privkey :: "bytes option"
  outputs :: "notice list"

definition send :: "notice \<Rightarrow> system \<Rightarrow> system" where
  "send e s = s\<lparr>outputs := outputs s @ [e]\<rparr>"

text \<open>\<open>SPIFFS.open(path, "w")\<close>, \<open>print\<close>, \<open>close\<close>; nothing happens when the file cannot be opened.\<close>

definition write_file :: "platform \<Rightarrow> string \<Rightarrow> bytes \<Rightarrow> system \<Rightarrow> system" where
  "write_file p path content s =
     (if can_open p path then s\<lparr>files := (files s)(path \<mapsto> content)\<rparr> else s)"

definition remove_file :: "string \<Rightarrow> system \<Rightarrow> system" where
  "remove_file path s = s\<lparr>files := (files s)(path := None)\<rparr>"

section \<open>Storage key\<close>

definition deriveStorageKey :: "platform \<Rightarrow> bytes \<Rightarrow> system \<Rightarrow> system" where
  "deriveStorageKey p pin s =
     s\<lparr>storage_key :=
         (case accel_pbkdf2_sha256 (backend p) pin (ascii ''VAULT_STORAGE_SALT'') 10000 32 of
            Some k \<Rightarrow> k | None \<Rightarrow> storage_key s),
       isStorageKeyLoaded := True\<rparr>"

definition clearStorageKey :: "system \<Rightarrow> system" where
  "clearStorageKey s = s\<lparr>storage_key := replicate 32 0, isStorageKeyLoaded := False\<rparr>"

section \<open>PIN and counters\<close>

definition hashPin :: "platform \<Rightarrow> bytes \<Rightarrow> bytes" where
  "hashPin p pin = toHex (mbed_sha256 (backend p) pin)"

definition isPinSet :: "system \<Rightarrow> bool" where
  "isPinSet s \<longleftrightarrow> files s ''/pin.txt'' \<noteq> None"

definition getMinPinLength :: "system \<Rightarrow> nat" where
  "getMinPinLength s =
     (let res = (case files s ''/fido_min_pin.txt'' of
          None \<Rightarrow> 4 | Some t \<Rightarrow> nat (toInt t mod 256)) in
      if res < 4 then 4 else res)"

definition setMinPinLength :: "platform \<Rightarrow> u8 \<Rightarrow> system \<Rightarrow> system" where
  "setMinPinLength p len = write_file p ''/fido_min_pin.txt'' (show_int (uint len))"

definition createPin :: "platform \<Rightarrow> bytes \<Rightarrow> system \<Rightarrow> bool \<times> system" where
  "createPin p pin s =
     (if length pin < getMinPinLength s then (False, s)
      else (True, write_file p ''/pin.txt'' (hashPin p pin) s))"

definition getFailedPinAttempts :: "system \<Rightarrow> int" where
  "getFailedPinAttempts s = (case files s ''/failures.txt'' of None \<Rightarrow> 0 | Some t \<Rightarrow> toInt t)"

definition incrementFailedPinAttempts :: "platform \<Rightarrow> system \<Rightarrow> system" where
  "incrementFailedPinAttempts p s =
     write_file p ''/failures.txt'' (show_int (getFailedPinAttempts s + 1)) s"

definition resetFailedPinAttempts :: "system \<Rightarrow> system" where
  "resetFailedPinAttempts = remove_file ''/failures.txt''"

definition reset_files :: "string list" where
  "reset_files = [''/passwords.json'', ''/passkeys.json'', ''/passkeys.bin'', ''/passkeys.tmp'',
     ''/totp.json'', ''/pin.txt'', ''/failures.txt'', ''/crypto_alg.txt'', ''/largeblob.bin'',
     ''/fido_uv_fail.txt'', ''/fido_force_pin.txt'', ''/fido_min_pin.txt'', ''/bio_templates.json'']"

definition factoryResetSystem :: "system \<Rightarrow> system" where
  "factoryResetSystem s = send Delete_All_Fingerprints (fold remove_file reset_files s)"

definition deletePin :: "system \<Rightarrow> bool \<times> system" where
  "deletePin s = (if isPinSet s then (True, factoryResetSystem s) else (False, s))"

definition verifyPin :: "platform \<Rightarrow> bytes \<Rightarrow> system \<Rightarrow> bool \<times> system" where
  "verifyPin p pin s =
     (case files s ''/pin.txt'' of
        None \<Rightarrow> (False, s)
      | Some storedHash \<Rightarrow>
          if storedHash = hashPin p pin then (True, resetFailedPinAttempts s)
          else
            let s = incrementFailedPinAttempts p s in
            if 10 \<le> getFailedPinAttempts s then
              (False, send Restart (factoryResetSystem (send (Send_Error ''SECURITY'' ''MAX_ATTEMPTS_EXCEEDED'') s)))
            else (False, send (Send_Error ''SECURITY'' ''BAD_PIN_ATTEMPT'') s))"

definition verifyFidoPinInternal :: "platform \<Rightarrow> bytes \<Rightarrow> system \<Rightarrow> bool" where
  "verifyFidoPinInternal p pin s =
     (case files s ''/pin.txt'' of None \<Rightarrow> False | Some storedHash \<Rightarrow> storedHash = hashPin p pin)"

definition verifyFidoPinHashInternal :: "bytes \<Rightarrow> system \<Rightarrow> bool" where
  "verifyFidoPinHashInternal pinHash16 s =
     (case files s ''/pin.txt'' of
        None \<Rightarrow> False
      | Some storedHash \<Rightarrow>
          if length storedHash < 32 then False
          else fromHex (substring storedHash 0 32) 16 = pinHash16)"

definition isFidoPinSet :: "system \<Rightarrow> bool" where
  "isFidoPinSet = isPinSet"

definition createFidoPin :: "platform \<Rightarrow> bytes \<Rightarrow> system \<Rightarrow> bool \<times> system" where
  "createFidoPin = createPin"

definition getFailedFidoPinAttempts :: "system \<Rightarrow> int" where
  "getFailedFidoPinAttempts = getFailedPinAttempts"

definition incrementFailedFidoPinAttempts :: "platform \<Rightarrow> system \<Rightarrow> system" where
  "incrementFailedFidoPinAttempts = incrementFailedPinAttempts"

definition resetFailedFidoPinAttempts :: "system \<Rightarrow> system" where
  "resetFailedFidoPinAttempts = resetFailedPinAttempts"

section \<open>User verification and settings\<close>

definition getFailedUvAttempts :: "system \<Rightarrow> int" where
  "getFailedUvAttempts s = (case files s ''/fido_uv_fail.txt'' of None \<Rightarrow> 0 | Some t \<Rightarrow> toInt t)"

definition incrementFailedUvAttempts :: "platform \<Rightarrow> system \<Rightarrow> system" where
  "incrementFailedUvAttempts p s =
     write_file p ''/fido_uv_fail.txt'' (show_int (getFailedUvAttempts s + 1)) s"

definition resetFailedUvAttempts :: "system \<Rightarrow> system" where
  "resetFailedUvAttempts = remove_file ''/fido_uv_fail.txt''"

definition getForcePinChange :: "system \<Rightarrow> bool" where
  "getForcePinChange s = (case files s ''/fido_force_pin.txt'' of None \<Rightarrow> False | Some t \<Rightarrow> toInt t = 1)"

definition setForcePinChange :: "platform \<Rightarrow> bool \<Rightarrow> system \<Rightarrow> system" where
  "setForcePinChange p force = write_file p ''/fido_force_pin.txt'' (if force then ascii ''1'' else ascii ''0'')"

definition saveDefaultCryptoAlg :: "platform \<Rightarrow> i32 \<Rightarrow> system \<Rightarrow> system" where
  "saveDefaultCryptoAlg p alg = write_file p ''/crypto_alg.txt'' (show_int (sint alg))"

definition loadDefaultCryptoAlg :: "system \<Rightarrow> int" where
  "loadDefaultCryptoAlg s = (case files s ''/crypto_alg.txt'' of None \<Rightarrow> - 7 | Some t \<Rightarrow> toInt t)"

section \<open>Large blobs\<close>

definition getLargeBlobArray :: "platform \<Rightarrow> system \<Rightarrow> bytes option" where
  "getLargeBlobArray p s =
     (case files s ''/largeblob.bin'' of
        None \<Rightarrow> None
      | Some content \<Rightarrow> if heap p (max 1 (length content)) then Some content else None)"

definition setLargeBlobArray :: "platform \<Rightarrow> bytes \<Rightarrow> system \<Rightarrow> bool \<times> system" where
  "setLargeBlobArray p data s =
     (if can_open p ''/largeblob.bin'' then (True, write_file p ''/largeblob.bin'' data s) else (False, s))"

section \<open>Secrets in NVS\<close>

definition getStatelessMasterSecret :: "bool \<Rightarrow> bytes \<Rightarrow> system \<Rightarrow> bytes \<times> system" where
  "getStatelessMasterSecret nvs fresh s =
     (if \<not> nvs then (replicate 32 0, s)
      else case sl_secret s of
          Some k \<Rightarrow> if length k = 32 then (k, s) else (fresh, s\<lparr>sl_secret := Some fresh\<rparr>)
        | None \<Rightarrow> (fresh, s\<lparr>sl_secret := Some fresh\<rparr>))"

definition rotateStatelessMasterSecret :: "bool \<Rightarrow> bytes \<Rightarrow> system \<Rightarrow> system" where
  "rotateStatelessMasterSecret nvs fresh s = (if nvs then s\<lparr>sl_secret := Some fresh\<rparr> else s)"

definition ATTESTATION_CHAIN_MAX_LEN :: nat where
  "ATTESTATION_CHAIN_MAX_LEN = 2048"

definition isAttestationProvisioned :: "bool \<Rightarrow> system \<Rightarrow> bool" where
  "isAttestationProvisioned nvs s \<longleftrightarrow> nvs \<and> (case attest_chain s of None \<Rightarrow> False | Some c \<Rightarrow> 0 < length c)"

definition loadAttestationCertChain :: "bool \<Rightarrow> nat \<Rightarrow> system \<Rightarrow> bytes option" where
  "loadAttestationCertChain nvs bufCap s =
     (if \<not> nvs then None
      else case attest_chain s of
          None \<Rightarrow> None
        | Some c \<Rightarrow> if length c \<le> bufCap \<and> length c \<noteq> 0 then Some c else None)"

definition saveAttestationCertChain :: "bool \<Rightarrow> bytes \<Rightarrow> system \<Rightarrow> bool \<times> system" where
  "saveAttestationCertChain nvs buf s =
     (if length buf = 0 \<or> length buf > ATTESTATION_CHAIN_MAX_LEN then (False, s)
      else if \<not> nvs then (False, s)
      else (True, s\<lparr>attest_chain := Some buf\<rparr>))"

definition loadAttestationPrivateKey :: "bool \<Rightarrow> system \<Rightarrow> bytes option" where
  "loadAttestationPrivateKey nvs s =
     (if \<not> nvs then None
      else case attest_privkey s of None \<Rightarrow> None | Some k \<Rightarrow> if length k = 32 then Some k else None)"

definition saveAttestationPrivateKey :: "bool \<Rightarrow> bytes \<Rightarrow> system \<Rightarrow> bool \<times> system" where
  "saveAttestationPrivateKey nvs privKey s =
     (if \<not> nvs then (False, s) else (True, s\<lparr>attest_privkey := Some privKey\<rparr>))"

definition eraseAttestationProvisioning :: "bool \<Rightarrow> system \<Rightarrow> bool \<times> system" where
  "eraseAttestationProvisioning nvs s =
     (if \<not> nvs then (False, s) else (True, s\<lparr>attest_chain := None, attest_privkey := None\<rparr>))"

section \<open>FIDO reset\<close>

definition fido_reset_files :: "string list" where
  "fido_reset_files = [''/passwords.json'', ''/passkeys.json'', ''/passkeys.bin'', ''/passkeys.tmp'',
     ''/totp.json'', ''/pin.txt'', ''/failures.txt'', ''/crypto_alg.txt'', ''/fido_uv_fail.txt'',
     ''/fido_force_pin.txt'', ''/fido_min_pin.txt'', ''/largeblob.bin'', ''/bio_templates.json'']"

definition resetFido2System :: "bool \<Rightarrow> bytes \<Rightarrow> system \<Rightarrow> system" where
  "resetFido2System nvs fresh s =
     (let s = fold remove_file fido_reset_files s;
          s = rotateStatelessMasterSecret nvs fresh s;
          s = clearStorageKey s;
          s = s\<lparr>authenticated := False, state_ready := True\<rparr>;
          s = send Delete_All_Fingerprints s in
      send (Send_Event ''FIDO2'' ''RESET_COMPLETE'') s)"

definition clearAllStoredPasswords :: "system \<Rightarrow> system" where
  "clearAllStoredPasswords s =
     (let s = fold remove_file [''/passwords.json'', ''/passkeys.json'', ''/passkeys.bin''] s;
          s = clearStorageKey s in
      send (Send_Event ''STORAGE'' ''PURGE_COMPLETE'') s)"

section \<open>Lemmas\<close>

lemma files_write [simp]:
  "can_open p path \<Longrightarrow> files (write_file p path c s) = (files s)(path \<mapsto> c)"
  by (simp add: write_file_def)

lemma files_remove [simp]: "files (remove_file path s) = (files s)(path := None)"
  by (simp add: remove_file_def)

lemma files_send [simp]: "files (send e s) = files s"
  by (simp add: send_def)

lemma files_fold_remove: "files (fold remove_file ps s) = (\<lambda>q. if q \<in> set ps then None else files s q)"
  by (induction ps arbitrary: s) (auto simp: fun_eq_iff)

lemma files_factoryReset:
  "files (factoryResetSystem s) = (\<lambda>q. if q \<in> set reset_files then None else files s q)"
  by (simp add: factoryResetSystem_def files_fold_remove)

lemma reset_files_eq: "set fido_reset_files = set reset_files"
  by (auto simp: fido_reset_files_def reset_files_def)

lemma files_resetFido:
  "files (resetFido2System nvs fresh s) = (\<lambda>q. if q \<in> set reset_files then None else files s q)"
  by (simp add: resetFido2System_def Let_def clearStorageKey_def rotateStatelessMasterSecret_def
      files_fold_remove reset_files_eq)

lemma failed_after_increment:
  assumes "can_open p ''/failures.txt''" "0 \<le> getFailedPinAttempts s" "getFailedPinAttempts s < 10"
  shows "getFailedPinAttempts (incrementFailedPinAttempts p s) = getFailedPinAttempts s + 1"
  using assms by (simp add: incrementFailedPinAttempts_def getFailedPinAttempts_def [of "write_file _ _ _ _"]
      toInt_show_int)

lemma failed_send [simp]: "getFailedPinAttempts (send e s) = getFailedPinAttempts s"
  by (simp add: getFailedPinAttempts_def)

lemma verifyPin_wrong:
  assumes "can_open p ''/failures.txt''" "files s ''/pin.txt'' = Some h" "hashPin p pin \<noteq> h"
    "0 \<le> getFailedPinAttempts s" "getFailedPinAttempts s < 9"
  obtains s' where "verifyPin p pin s = (False, s')"
    "getFailedPinAttempts s' = getFailedPinAttempts s + 1"
    "\<forall>q. q \<noteq> ''/failures.txt'' \<longrightarrow> files s' q = files s q"
proof -
  let ?s = "incrementFailedPinAttempts p s"
  have c: "getFailedPinAttempts ?s = getFailedPinAttempts s + 1"
    using failed_after_increment assms by simp
  have v: "verifyPin p pin s = (False, send (Send_Error ''SECURITY'' ''BAD_PIN_ATTEMPT'') ?s)"
    using assms c by (simp add: verifyPin_def Let_def)
  show thesis
    by (rule that [OF v]) (use c assms(1) in \<open>simp_all add: incrementFailedPinAttempts_def\<close>)
qed

definition wiped :: "system \<Rightarrow> bool" where
  "wiped s \<longleftrightarrow> Restart \<in> set (outputs s) \<and> (\<forall>q \<in> set reset_files. files s q = None)"

lemma verifyPin_last:
  assumes "can_open p ''/failures.txt''" "files s ''/pin.txt'' = Some h" "hashPin p pin \<noteq> h"
    "getFailedPinAttempts s = 9"
  obtains s' where "verifyPin p pin s = (False, s')" "wiped s'"
proof -
  let ?s = "incrementFailedPinAttempts p s"
  have c: "getFailedPinAttempts ?s = 10"
    using failed_after_increment assms by simp
  let ?s' = "send Restart (factoryResetSystem (send (Send_Error ''SECURITY'' ''MAX_ATTEMPTS_EXCEEDED'') ?s))"
  have "verifyPin p pin s = (False, ?s')"
    using assms c by (simp add: verifyPin_def Let_def)
  moreover have "Restart \<in> set (outputs ?s')" by (simp add: send_def)
  then have "wiped ?s'" by (simp add: wiped_def files_factoryReset)
  ultimately show thesis by (rule that)
qed

fun guess :: "platform \<Rightarrow> bytes list \<Rightarrow> system \<Rightarrow> bool list \<times> system" where
  "guess p [] s = ([], s)"
| "guess p (pin # pins) s =
     (case verifyPin p pin s of (r, s) \<Rightarrow> case guess p pins s of (rs, s) \<Rightarrow> (r # rs, s))"

lemma guess_wiped: "wiped s \<Longrightarrow> guess p pins s = (replicate (length pins) False, s)"
  by (induction pins) (auto simp: wiped_def verifyPin_def reset_files_def)

lemma guess_wrong:
  assumes "can_open p ''/failures.txt''" "files s ''/pin.txt'' = Some h"
    "\<forall>pin \<in> set pins. hashPin p pin \<noteq> h" "getFailedPinAttempts s = int n" "n < 10"
  shows "case guess p pins s of (rs, s') \<Rightarrow> rs = replicate (length pins) False \<and>
    (if n + length pins < 10
     then getFailedPinAttempts s' = int (n + length pins) \<and>
       (\<forall>q. q \<noteq> ''/failures.txt'' \<longrightarrow> files s' q = files s q)
     else wiped s')"
  using assms(2-)
proof (induction pins arbitrary: s n)
  case (Cons pin pins)
  have w: "hashPin p pin \<noteq> h" "\<forall>pin \<in> set pins. hashPin p pin \<noteq> h" using Cons.prems(2) by simp_all
  show ?case
  proof (cases "n = 9")
    case True
    then have "getFailedPinAttempts s = 9" using Cons.prems(3) by simp
    from verifyPin_last [OF assms(1) Cons.prems(1) w(1) this]
    obtain s' where "verifyPin p pin s = (False, s')" "wiped s'" .
    then show ?thesis using True guess_wiped [of s' p pins] by simp
  next
    case False
    with Cons.prems(3,4) have c: "0 \<le> getFailedPinAttempts s" "getFailedPinAttempts s < 9" by simp_all
    obtain s' where s': "verifyPin p pin s = (False, s')"
      "getFailedPinAttempts s' = getFailedPinAttempts s + 1"
      "\<forall>q. q \<noteq> ''/failures.txt'' \<longrightarrow> files s' q = files s q"
      using verifyPin_wrong [OF assms(1) Cons.prems(1) w(1) c] .
    have f: "files s' ''/pin.txt'' = Some h" using Cons.prems(1) s'(3) by simp
    have "getFailedPinAttempts s' = int (Suc n)" using s'(2) Cons.prems(3) by simp
    note IH = Cons.IH [OF f w(2) this]
    obtain rs t where g: "guess p pins s' = (rs, t)" by force
    have n: "Suc n < 10" using False Cons.prems(4) by simp
    have r: "guess p (pin # pins) s = (False # rs, t)" by (simp add: s'(1) g)
    have e: "Suc n + length pins = n + length (pin # pins)" by simp
    from IH [OF n] show ?thesis unfolding r g e prod.case using s'(3) by (auto split: if_splits)
  qed
qed simp

section \<open>Properties\<close>

text \<open>
  C12: PIN guessing is bounded: with \<open>n\<close> failures on record, any further wrong guesses all fail; up to
  nine failures in a row only the counter changes, and the tenth wipes every vault file and restarts
  the device.
\<close>

theorem pin_guessing_bounded:
  assumes "can_open p ''/failures.txt''" "files s ''/pin.txt'' = Some (hashPin p secret)"
    "\<forall>pin \<in> set pins. hashPin p pin \<noteq> hashPin p secret"
    "getFailedPinAttempts s = int n" "n < 10" "guess p pins s = (rs, s')"
  shows "rs = replicate (length pins) False \<and>
    (if n + length pins < 10
     then getFailedPinAttempts s' = int (n + length pins) \<and>
       (\<forall>q. q \<noteq> ''/failures.txt'' \<longrightarrow> files s' q = files s q)
     else Restart \<in> set (outputs s') \<and> (\<forall>q \<in> set reset_files. files s' q = None))"
  using guess_wrong [OF assms(1-5)] unfolding assms(6) prod.case wiped_def .

definition toy_system :: system where
  "toy_system = \<lparr>files = [''/pin.txt'' \<mapsto> toHex [1, 2, 3, 4], ''/totp.json'' \<mapsto> [9]],
     storage_key = replicate 32 0, isStorageKeyLoaded = False, authenticated = False, state_ready = True,
     sl_secret = None, attest_chain = None, attest_privkey = None, outputs = []\<rparr>"

lemma toy_hash: "hashPin toy_platform pin = toHex (take 32 pin)"
  by (simp add: hashPin_def toy_platform_def toy_gcm_def toy_backends_def)

theorem pin_guessing_bounded_witness:
  "\<exists>rs s'. guess toy_platform (replicate 10 [9, 9, 9, 9]) toy_system = (rs, s') \<and>
    Restart \<in> set (outputs s') \<and> files s' ''/totp.json'' = None"
proof -
  obtain rs s' where g: "guess toy_platform (replicate 10 [9, 9, 9, 9]) toy_system = (rs, s')" by force
  have h: "toHex [9, 9, 9, 9] \<noteq> toHex [1, 2, 3, 4]" using toHex_inj by force
  have p: "can_open toy_platform ''/failures.txt''" by (simp add: toy_platform_def)
  have "Restart \<in> set (outputs s') \<and> (\<forall>q \<in> set reset_files. files s' q = None)"
    using pin_guessing_bounded [OF p, of toy_system "[1, 2, 3, 4]" "replicate 10 [9, 9, 9, 9]" 0 rs s'] g h
    by (simp add: toy_hash toy_system_def getFailedPinAttempts_def)
  with g show ?thesis by (simp add: reset_files_def)
qed

lemma half_hash_verifies:
  assumes "length (mbed_sha256 (backend p) pin) = 32" "files s ''/pin.txt'' = Some (hashPin p pin)" "length half = 16"
  shows "verifyFidoPinHashInternal half s \<longleftrightarrow> half = take 16 (mbed_sha256 (backend p) pin)"
proof -
  let ?h = "mbed_sha256 (backend p) pin"
  have "toHex ?h = toHex (take 16 ?h) @ toHex (drop 16 ?h)" by (simp flip: toHex_append)
  then have "substring (toHex ?h) 0 32 = toHex (take 16 ?h)"
    using assms(1) by (simp add: substring_def)
  then have "fromHex (substring (toHex ?h) 0 32) 16 = take 16 ?h"
    using assms(1) by (simp add: fromHex_toHex)
  with assms show ?thesis by (auto simp: verifyFidoPinHashInternal_def hashPin_def)
qed

text \<open>
  A PIN that was created is the PIN: it has at least four characters, \<open>verifyPin\<close> and
  \<open>verifyFidoPinInternal\<close> accept exactly the PINs with its hash, and \<open>verifyFidoPinHashInternal\<close>
  accepts exactly the first sixteen bytes of its hash.
\<close>

theorem created_pin_verifies:
  assumes "\<forall>x. length (mbed_sha256 (backend p) x) = 32" "can_open p ''/pin.txt''"
    "createPin p pin s = (True, s')" "length half = 16"
  shows "4 \<le> length pin \<and> isPinSet s' \<and>
    (fst (verifyPin p pin' s') \<longleftrightarrow> mbed_sha256 (backend p) pin' = mbed_sha256 (backend p) pin) \<and>
    (verifyFidoPinInternal p pin' s' \<longleftrightarrow> mbed_sha256 (backend p) pin' = mbed_sha256 (backend p) pin) \<and>
    (verifyFidoPinHashInternal half s' \<longleftrightarrow> half = take 16 (mbed_sha256 (backend p) pin))"
proof -
  let ?h = "mbed_sha256 (backend p) pin"
  have f: "files s' ''/pin.txt'' = Some (toHex ?h)" "getMinPinLength s \<le> length pin"
    using assms(2,3) by (auto simp: createPin_def hashPin_def split: if_splits)
  have e: "hashPin p pin' = toHex ?h \<longleftrightarrow> mbed_sha256 (backend p) pin' = ?h"
    using toHex_inj by (auto simp: hashPin_def)
  have "4 \<le> getMinPinLength s" by (simp add: getMinPinLength_def Let_def)
  then show ?thesis
    using f e half_hash_verifies [of p pin s' half] assms(1,4)
    by (auto simp: hashPin_def isPinSet_def verifyPin_def verifyFidoPinInternal_def Let_def)
qed

definition const_platform :: platform where
  "const_platform = toy_platform\<lparr>backend := toy_gcm\<lparr>mbed_sha256 := (\<lambda>x. take 32 (x @ replicate 32 0))\<rparr>\<rparr>"

theorem created_pin_verifies_witness:
  "fst (verifyPin const_platform (ascii ''1234'') (snd (createPin const_platform (ascii ''1234'') toy_system)))"
proof -
  have c: "createPin const_platform (ascii ''1234'') toy_system =
      (True, snd (createPin const_platform (ascii ''1234'') toy_system))"
    by (simp add: createPin_def getMinPinLength_def toy_system_def ascii_def)
  have "\<forall>x. length (mbed_sha256 (backend const_platform) x) = 32" "can_open const_platform ''/pin.txt''"
    by (auto simp add: const_platform_def toy_platform_def min_def)
  from created_pin_verifies [OF this c, of "replicate 16 0" "ascii ''1234''"] show ?thesis by simp
qed

text \<open>A PIN file that cannot be opened is reported as a PIN that was created.\<close>

lemma create_reports_success:
  assumes "\<not> can_open p ''/pin.txt''" "getMinPinLength s \<le> length pin"
  shows "createPin p pin s = (True, s)"
  using assms by (simp add: createPin_def write_file_def)


text \<open>The factory reset after ten wrong PINs keeps the master secret: stateless credentials survive it.\<close>

lemma factory_reset_keeps_secret: "sl_secret (factoryResetSystem s) = sl_secret s"
proof -
  have "sl_secret (fold remove_file ps s) = sl_secret s" for ps
    by (induction ps arbitrary: s) (simp_all add: remove_file_def)
  then show ?thesis by (simp add: factoryResetSystem_def send_def)
qed

text \<open>
  what the settings store is what they read: the minimum PIN length (never below four), the forced
  PIN change, the default algorithm, the large-blob array, and the attestation chain within its limit.
\<close>

theorem settings_roundtrip:
  assumes "\<forall>path. can_open p path" "\<forall>n. heap p n"
  shows "getMinPinLength (setMinPinLength p len s) = max 4 (unat len) \<and>
    getForcePinChange (setForcePinChange p force s) = force \<and>
    loadDefaultCryptoAlg (saveDefaultCryptoAlg p alg s) = sint alg \<and>
    (case setLargeBlobArray p blob s of (ok, s') \<Rightarrow> ok \<and> getLargeBlobArray p s' = Some blob) \<and>
    (case saveAttestationCertChain True chain s of (ok, s') \<Rightarrow>
      ok = (0 < length chain \<and> length chain \<le> 2048) \<and>
      (if ok then loadAttestationCertChain True 2048 s' = Some chain else s' = s))"
proof -
  have u: "0 \<le> uint len" "uint len < 256"
    using unsigned_less [of len, where ?'a = int] by simp_all
  have small: "toInt (show_int i) = i" if "0 \<le> i" "i < 256" for i
    by (rule toInt_show_int; simp; use that in linarith)
  have "toInt (show_int (uint len)) = uint len" "nat (uint len mod 256) = unat len"
    using u by (simp_all add: small)
  moreover have "toInt (show_int (sint alg)) = sint alg"
    using sint32_bounds [of alg] by (intro toInt_show_int) simp_all
  moreover have "toInt (ascii ''1'') = 1" "toInt (ascii ''0'') = 0" by code_simp+
  ultimately show ?thesis
    using assms by (auto simp: getMinPinLength_def setMinPinLength_def getForcePinChange_def setForcePinChange_def
        loadDefaultCryptoAlg_def saveDefaultCryptoAlg_def setLargeBlobArray_def getLargeBlobArray_def
        saveAttestationCertChain_def loadAttestationCertChain_def ATTESTATION_CHAIN_MAX_LEN_def Let_def)
qed

theorem settings_roundtrip_witness:
  "getMinPinLength (setMinPinLength toy_platform 6 toy_system) = 6"
  using settings_roundtrip [of toy_platform 6 toy_system] by (simp add: toy_platform_def)

end
