(* ===== verification/StatelessCred.thy ===== *)
theory StatelessCred
  imports PinStore
begin

text \<open>
  Stateless credentials (\<open>wrapStatelessCredential\<close> and \<open>unwrapStatelessCredential\<close> of
  \<open>src/StorageManager.cpp\<close>): the credential itself, encrypted with AES-256-CBC and authenticated with
  HMAC-SHA256 under two keys derived from the master secret, is the credential id.
\<close>

definition getStatelessMasterKeys :: "backends \<Rightarrow> bytes \<Rightarrow> bytes \<times> bytes" where
  "getStatelessMasterKeys b secret =
     (mbed_sha256 b (secret @ ascii ''STATELESS_AES_KEY_SALT''),
      mbed_sha256 b (secret @ ascii ''STATELESS_HMAC_KEY_SALT''))"

text \<open>\<open>(n + 15) & ~15\<close>\<close>

definition pad16 :: "nat \<Rightarrow> nat" where
  "pad16 n = (n + 15) div 16 * 16"

text \<open>A field of fixed width in the zeroed plaintext.\<close>

definition slot :: "nat \<Rightarrow> bytes \<Rightarrow> bytes" where
  "slot w x = take w x @ replicate (w - length x) 0"

definition plaintext :: "backends \<Rightarrow> bytes \<Rightarrow> bytes \<Rightarrow> bytes \<Rightarrow> bytes \<Rightarrow> u32 \<Rightarrow> bytes" where
  "plaintext b rp userId user_name privHex alg =
     (let privLen = length privHex div 2 in
      slot (pad16 (108 + privLen))
        (ascii ''STAT'' @ u32_bytes alg @ mbed_sha256 b rp @
         [of_nat (min 32 (length userId))] @ slot 32 userId @
         [of_nat (min 32 (length user_name))] @ slot 32 user_name @
         [of_nat (privLen div 256 mod 256), of_nat (privLen mod 256)] @ fromHex privHex privLen))"

text \<open>
  \<open>heap\<close> is the \<open>calloc\<close> and \<open>malloc\<close>, \<open>iv\<close> the sixteen random bytes. \<open>None\<close> is the answer false;
  \<open>mbedtls_aes_crypt_cbc\<close> does not fail on whole blocks.
\<close>

definition wrapStatelessCredential ::
  "platform \<Rightarrow> bytes \<Rightarrow> bytes \<Rightarrow> bytes \<Rightarrow> bytes \<Rightarrow> bytes \<Rightarrow> bytes \<Rightarrow> u32 \<Rightarrow> bytes option" where
  "wrapStatelessCredential p secret iv rp userId user_name privHex alg =
     (case getStatelessMasterKeys (backend p) secret of (aesKey, hmacKey) \<Rightarrow>
        let paddedLen = pad16 (108 + length privHex div 2) in
        if \<not> heap p paddedLen then None
        else do {
          encrypted \<leftarrow> mbed_aes_cbc (backend p) aesKey True iv
            (plaintext (backend p) rp userId user_name privHex alg);
          Some (iv @ encrypted @ mbed_hmac_sha256 (backend p) hmacKey (iv @ encrypted)) })"

record unwrapped =
  outUserIdHex :: bytes
  outUserName :: bytes
  outPrivateKeyHex :: bytes
  outAlgId :: u32

text \<open>
  The outer option: \<open>None\<close> is a read beyond the decrypted buffer. The length test of the code admits
  bodies of 80 and 96 bytes, which are shorter than the fixed part of 108 bytes.
\<close>

definition unwrapStatelessCredential ::
  "platform \<Rightarrow> bytes \<Rightarrow> bytes \<Rightarrow> bytes \<Rightarrow> unwrapped option option" where
  "unwrapStatelessCredential p secret credId rp =
     (if length credId < 123 then Some None
      else case getStatelessMasterKeys (backend p) secret of (aesKey, hmacKey) \<Rightarrow>
        let encryptedLen = length credId - 48 in
        if encryptedLen mod 16 \<noteq> 0 then Some None
        else
          let iv = take 16 credId;
              encrypted = take encryptedLen (drop 16 credId);
              expectedHmac = drop (16 + encryptedLen) credId in
          if expectedHmac \<noteq> mbed_hmac_sha256 (backend p) hmacKey (iv @ encrypted) then Some None
          else if \<not> heap p encryptedLen then Some None
          else case mbed_aes_cbc (backend p) aesKey False iv encrypted of
              None \<Rightarrow> None
            | Some pt \<Rightarrow>
                if take 4 pt \<noteq> ascii ''STAT'' then Some None
                else if take 32 (drop 8 pt) \<noteq> mbed_sha256 (backend p) rp then Some None
                else if encryptedLen < 108 then None
                else
                  let alg = push_bit 24 (ucast (pt ! 4)) OR push_bit 16 (ucast (pt ! 5)) OR
                        push_bit 8 (ucast (pt ! 6)) OR ucast (pt ! 7);
                      uLen = min 32 (unat (pt ! 40));
                      nLen = min 32 (unat (pt ! 73));
                      pLen = unat (pt ! 106) * 256 + unat (pt ! 107) in
                  if 108 + pLen > encryptedLen then Some None
                  else Some (Some \<lparr>outUserIdHex = toHex (take uLen (drop 41 pt)),
                    outUserName = cstr (take nLen (drop 74 pt)),
                    outPrivateKeyHex = toHex (take pLen (drop 108 pt)), outAlgId = alg\<rparr>))"

section \<open>Wrapping and unwrapping\<close>

text \<open>
  What is used of the primitives: CBC decryption inverts encryption on whole blocks and keeps the
  length, digests and MACs have 32 bytes.
\<close>

definition primitives_ok :: "backends \<Rightarrow> bool" where
  "primitives_ok b \<longleftrightarrow>
     (\<forall>k iv x. length x mod 16 = 0 \<and> length iv = 16 \<longrightarrow> (\<exists>c. mbed_aes_cbc b k True iv x = Some c \<and>
       length c = length x \<and> mbed_aes_cbc b k False iv c = Some x)) \<and>
     (\<forall>x. length (mbed_sha256 b x) = 32) \<and> (\<forall>k x. length (mbed_hmac_sha256 b k x) = 32)"

lemma primitivesD:
  assumes "primitives_ok b"
  shows "length (mbed_sha256 b x) = 32" "length (mbed_hmac_sha256 b k x) = 32"
    "length x mod 16 = 0 \<Longrightarrow> length iv = 16 \<Longrightarrow> \<exists>c. mbed_aes_cbc b k True iv x = Some c \<and>
      length c = length x \<and> mbed_aes_cbc b k False iv c = Some x"
  using assms by (auto simp: primitives_ok_def)

lemma length_slot [simp]: "length (slot w x) = w"
  by (simp add: slot_def)

lemma take_slot: "k \<le> length x \<Longrightarrow> k \<le> w \<Longrightarrow> take k (slot w x) = take k x"
  by (simp add: slot_def min_def)

lemma pad16: "n \<le> pad16 n" "pad16 n mod 16 = 0" "pad16 n < n + 16"
proof -
  have "(n + 15) div 16 * 16 + (n + 15) mod 16 = n + 15" by (rule div_mult_mod_eq)
  moreover have "(n + 15) mod 16 < 16" by simp
  ultimately show "n \<le> pad16 n" "pad16 n < n + 16" unfolding pad16_def by linarith+
qed (simp add: pad16_def)

lemma length_plaintext:
  "length (plaintext b rp u n h a) = pad16 (108 + length h div 2)"
  by (simp add: plaintext_def Let_def)

lemma layout:
  assumes "length s = 4" "length al = 4" "length h = 32" "length U = 32" "length N = 32"
    and "x = s @ al @ h @ [c1] @ U @ [c2] @ N @ [p1, p2] @ K @ Z"
  shows "take 4 x = s" "take 32 (drop 8 x) = h" "x ! 4 = al ! 0" "x ! 5 = al ! 1" "x ! 6 = al ! 2"
    "x ! 7 = al ! 3" "x ! 40 = c1" "x ! 73 = c2" "x ! 106 = p1" "x ! 107 = p2"
    "n \<le> 32 \<Longrightarrow> take n (drop 41 x) = take n U" "n \<le> 32 \<Longrightarrow> take n (drop 74 x) = take n N"
    "take (length K) (drop 108 x) = K"
  using assms by (simp_all add: nth_append)

lemma be_u32_bytes:
  "push_bit 24 (ucast (u32_bytes w ! 0)) OR push_bit 16 (ucast (u32_bytes w ! 1)) OR
    push_bit 8 (ucast (u32_bytes w ! 2)) OR ucast (u32_bytes w ! 3) = w"
  using read_u32_bytes [of w "[]"] by (simp add: read_u32_def u32_bytes_def)

lemma slot_content: "length x \<le> w \<Longrightarrow> slot w x = x @ replicate (w - length x) 0"
  by (simp add: slot_def)

lemma plaintext_layout:
  "plaintext b rp u n h a = ascii ''STAT'' @ u32_bytes a @ mbed_sha256 b rp @
    [of_nat (min 32 (length u))] @ slot 32 u @ [of_nat (min 32 (length n))] @ slot 32 n @
    [of_nat (length h div 2 div 256 mod 256), of_nat (length h div 2 mod 256)] @
    fromHex h (length h div 2) @ replicate (pad16 (108 + length h div 2) - (108 + length h div 2)) 0"
  if "length (mbed_sha256 b rp) = 32"
proof -
  let ?k = "length h div 2"
  let ?c = "ascii ''STAT'' @ u32_bytes a @ mbed_sha256 b rp @
    [of_nat (min 32 (length u))] @ slot 32 u @ [of_nat (min 32 (length n))] @ slot 32 n @
    [of_nat (?k div 256 mod 256), of_nat (?k mod 256)] @ fromHex h ?k"
  have l: "length ?c = 108 + ?k" using that by (simp add: ascii_def)
  have "slot (pad16 (108 + ?k)) ?c = ?c @ replicate (pad16 (108 + ?k) - (108 + ?k)) 0"
    using slot_content [of ?c "pad16 (108 + ?k)"] pad16(1) [of "108 + ?k"] unfolding l by blast
  then show ?thesis unfolding plaintext_def Let_def by simp
qed

lemma unwrap_wrap:
  assumes b: "primitives_ok (backend p)" and h: "\<forall>n. heap p n" and iv: "length iv = 16"
    and k: "length key < 65536"
    and w: "wrapStatelessCredential p secret iv rp u n (toHex key) a = Some credId"
  shows "unwrapStatelessCredential p secret credId rp' =
    Some (if mbed_sha256 (backend p) rp' = mbed_sha256 (backend p) rp
      then Some \<lparr>outUserIdHex = toHex (take 32 u), outUserName = cstr (take 32 n),
        outPrivateKeyHex = toHex key, outAlgId = a\<rparr>
      else None)"
proof -
  obtain aesKey hmacKey where keys: "getStatelessMasterKeys (backend p) secret = (aesKey, hmacKey)"
    by force
  let ?pt = "plaintext (backend p) rp u n (toHex key) a"
  let ?L = "pad16 (108 + length key)"
  have L: "length ?pt = ?L" by (simp add: length_plaintext)
  note P = primitivesD [OF b]
  have "length ?pt mod 16 = 0" unfolding L by (rule pad16(2))
  from P(3) [OF this iv, of aesKey] obtain c where c:
    "mbed_aes_cbc (backend p) aesKey True iv ?pt = Some c" "length c = ?L"
    "mbed_aes_cbc (backend p) aesKey False iv c = Some ?pt" by (auto simp: L)
  let ?tag = "mbed_hmac_sha256 (backend p) hmacKey (iv @ c)"
  have credId: "credId = iv @ c @ ?tag"
    using w h c(1) by (simp add: wrapStatelessCredential_def keys Let_def)
  have len: "length credId = ?L + 48"
    by (simp add: credId iv c(2) P(2))
  have big: "108 + length key \<le> ?L" by (rule pad16(1))
  have parts: "take 16 credId = iv" "take ?L (drop 16 credId) = c" "drop (16 + ?L) credId = ?tag"
    by (simp_all add: credId iv c(2) [symmetric])
  have kh: "fromHex (toHex key) (length (toHex key) div 2) = key" by (simp add: fromHex_toHex)
  have lay: "?pt = ascii ''STAT'' @ u32_bytes a @ mbed_sha256 (backend p) rp @
      [of_nat (min 32 (length u))] @ slot 32 u @ [of_nat (min 32 (length n))] @ slot 32 n @
      [of_nat (length key div 256 mod 256), of_nat (length key mod 256)] @ key @
      replicate (?L - (108 + length key)) 0"
    using plaintext_layout [OF P(1), of rp u n "toHex key" a] kh by simp
  note F = layout [OF _ _ P(1) _ _ lay, unfolded length_slot length_u32_bytes, OF _ refl refl refl]
  have S: "length (ascii ''STAT'') = 4" by (simp add: ascii_def)
  have pl: "unat (of_nat (length key div 256 mod 256) :: u8) * 256 + unat (of_nat (length key mod 256) :: u8) =
      length key"
    using k by (subst small_byte, simp)+ (simp add: less_mult_imp_div_less)
  have al: "push_bit 24 (ucast (?pt ! 4)) OR push_bit 16 (ucast (?pt ! 5)) OR
      push_bit 8 (ucast (?pt ! 6)) OR ucast (?pt ! 7) = a"
    using be_u32_bytes [of a] by (simp only: F(3-6) [OF S])
  have un: "min 32 (unat (?pt ! 40)) = min 32 (length u)" "min 32 (unat (?pt ! 73)) = min 32 (length n)"
    by (simp_all add: F(7,8) [OF S] small_byte)
  have uu: "take (min 32 (length u)) (drop 41 ?pt) = take 32 u" "take (min 32 (length n)) (drop 74 ?pt) = take 32 n"
    by (simp_all add: F(11,12) [OF S] take_slot min_def)
  have pp: "unat (?pt ! 106) * 256 + unat (?pt ! 107) = length key"
    using pl by (simp only: F(9,10) [OF S])
  show ?thesis
    unfolding unwrapStatelessCredential_def keys prod.case Let_def len add_diff_cancel_right' parts c(3) option.case al un uu pp
      F(1,2,13) [OF S]
    using h big pad16(2) by simp
qed


section \<open>Properties\<close>

text \<open>
  a stateless credential that was issued for a relying party is recovered from its id alone, by
  the device that holds the master secret and for that relying party: the user handle and the user
  name (cut to 32 bytes), the private key and the algorithm; for a relying party with another hash the
  id is refused.
\<close>

theorem stateless_roundtrip:
  assumes "primitives_ok (backend p)" "\<forall>n. heap p n" "length iv = 16" "length key < 65536"
    and "wrapStatelessCredential p secret iv rp u n (toHex key) a = Some credId"
  shows "unwrapStatelessCredential p secret credId rp' =
    Some (if mbed_sha256 (backend p) rp' = mbed_sha256 (backend p) rp
      then Some \<lparr>outUserIdHex = toHex (take 32 u), outUserName = cstr (take 32 n),
        outPrivateKeyHex = toHex key, outAlgId = a\<rparr>
      else None)"
  by (rule unwrap_wrap [OF assms])

definition id_platform :: platform where
  "id_platform = toy_platform\<lparr>backend := toy_gcm\<lparr>
     mbed_sha256 := (\<lambda>x. take 32 (rev x @ replicate 32 0)),
     mbed_hmac_sha256 := (\<lambda>k x. replicate 32 7),
     mbed_aes_cbc := (\<lambda>k e iv x. Some (rev x))\<rparr>\<rparr>"

lemma id_platform_ok: "primitives_ok (backend id_platform)"
  by (auto simp: primitives_ok_def id_platform_def min_def)

theorem stateless_roundtrip_witness:
  "\<exists>credId. wrapStatelessCredential id_platform (replicate 32 1) (replicate 16 2) (ascii ''a.org'') [1, 2]
      (ascii ''ann'') (toHex [3, 4, 5]) 9 = Some credId \<and>
    unwrapStatelessCredential id_platform (replicate 32 1) credId (ascii ''a.org'') =
      Some (Some \<lparr>outUserIdHex = toHex [1, 2], outUserName = ascii ''ann'',
        outPrivateKeyHex = toHex [3, 4, 5], outAlgId = 9\<rparr>)"
proof -
  have h: "\<forall>n. heap id_platform n" by (simp add: id_platform_def toy_platform_def)
  obtain credId where w: "wrapStatelessCredential id_platform (replicate 32 1) (replicate 16 2)
      (ascii ''a.org'') [1, 2] (ascii ''ann'') (toHex [3, 4, 5]) 9 = Some credId"
    by (simp add: wrapStatelessCredential_def getStatelessMasterKeys_def Let_def id_platform_def toy_platform_def)
  have "unwrapStatelessCredential id_platform (replicate 32 1) credId (ascii ''a.org'') =
      Some (Some \<lparr>outUserIdHex = toHex [1, 2], outUserName = cstr (ascii ''ann''),
        outPrivateKeyHex = toHex [3, 4, 5], outAlgId = 9\<rparr>)"
    using stateless_roundtrip [OF id_platform_ok h _ _ w, of "ascii ''a.org''"] by (simp add: ascii_def)
  with w show ?thesis by (simp add: ascii_def)
qed

text \<open>
  Nothing of a credential id is used before it is authenticated: if its last 32 bytes are not the
  MAC of the others under the device's key, it is refused, without reading outside any buffer; and
  an accepted id decrypts to a body that names the relying party that asked.
\<close>

theorem stateless_authenticates:
  assumes "length credId = n" "getStatelessMasterKeys (backend p) secret = (aesKey, hmacKey)"
  shows "(drop (n - 32) credId \<noteq> mbed_hmac_sha256 (backend p) hmacKey (take (n - 32) credId) \<longrightarrow>
      unwrapStatelessCredential p secret credId rp = Some None) \<and>
    (unwrapStatelessCredential p secret credId rp = Some (Some r) \<longrightarrow>
      (\<exists>pt. mbed_aes_cbc (backend p) aesKey False (take 16 credId) (take (n - 48) (drop 16 credId)) = Some pt \<and>
        take 32 (drop 8 pt) = mbed_sha256 (backend p) rp))"
proof (cases "n < 123")
  case True
  with assms show ?thesis by (simp add: unwrapStatelessCredential_def)
next
  case False
  then have "16 + (n - 48) = n - 32" by simp
  then have e: "take 16 credId @ take (n - 48) (drop 16 credId) = take (n - 32) credId"
    using take_add [of 16 "n - 48" credId] by simp
  have d: "drop (16 + (n - 48)) credId = drop (n - 32) credId" using False by simp
  show ?thesis
    unfolding unwrapStatelessCredential_def assms prod.case Let_def e d
    by (auto split: if_splits option.splits)
qed

theorem stateless_authenticates_witness:
  "unwrapStatelessCredential id_platform (replicate 32 1) (replicate 160 5) (ascii ''a.org'') = Some None"
proof -
  have k: "getStatelessMasterKeys (backend id_platform) (replicate 32 1) =
      (fst (getStatelessMasterKeys (backend id_platform) (replicate 32 1)),
       snd (getStatelessMasterKeys (backend id_platform) (replicate 32 1)))" by simp
  have "mbed_hmac_sha256 (backend id_platform) h x = replicate 32 7" for h x
    by (simp add: id_platform_def)
  with stateless_authenticates [OF _ k, of "replicate 160 5" 160 "ascii ''a.org''"] show ?thesis by simp
qed

text \<open>An authentic body of 80 bytes passes the length test and is read beyond its end.\<close>

lemma short_body_faults:
  "unwrapStatelessCredential id_platform (replicate 32 1)
    (replicate 16 0 @ rev (ascii ''STAT'' @ replicate 4 0 @ take 32 (rev (ascii ''a.org'') @ replicate 32 0) @
      replicate 40 0) @ replicate 32 7) (ascii ''a.org'') = None"
  by code_simp

end
