(* ===== verification/Vault.thy ===== *)
theory Vault
  imports PinStore
begin

text \<open>
  The password and TOTP vault of \<open>src/StorageManager.cpp\<close>, with its export and import, and the names of
  the enrolled fingerprints.

  The files are JSON. ArduinoJson is a parameter: the record \<open>json\<close> holds its serializer and parser for
  the two shapes of document in use, an object of strings and an object of such objects (\<open>None\<close>: the
  parser reports an error; the document is then empty). An object is the list of its members in order.
  \<open>savePassword\<close> and \<open>saveTotpSecret\<close> draw a nonce: the state is the system and the nonce generator.
\<close>

type_synonym json_obj = "(bytes \<times> bytes) list"
type_synonym json_tree = "(bytes \<times> json_obj) list"

record json =
  ser_obj :: "json_obj \<Rightarrow> bytes"
  parse_obj :: "bytes \<Rightarrow> json_obj option"
  ser_tree :: "json_tree \<Rightarrow> bytes"
  parse_tree :: "bytes \<Rightarrow> json_tree option"

text \<open>\<open>obj[k] = v\<close> and \<open>obj.remove(k)\<close>\<close>

fun set_member :: "bytes \<Rightarrow> 'v \<Rightarrow> (bytes \<times> 'v) list \<Rightarrow> (bytes \<times> 'v) list" where
  "set_member k v [] = [(k, v)]"
| "set_member k v ((k', w) # ms) = (if k' = k then (k, v) # ms else (k', w) # set_member k v ms)"

fun remove_member :: "bytes \<Rightarrow> (bytes \<times> 'v) list \<Rightarrow> (bytes \<times> 'v) list" where
  "remove_member k [] = []"
| "remove_member k ((k', w) # ms) = (if k' = k then ms else (k', w) # remove_member k ms)"

definition or_empty :: "'a list option \<Rightarrow> 'a list" where
  "or_empty x = (case x of Some d \<Rightarrow> d | None \<Rightarrow> [])"

section \<open>Passwords\<close>

text \<open>\<open>/passwords.json\<close> as the readers see it: no file and an unreadable file are an empty document.\<close>

definition passwords_doc :: "json \<Rightarrow> system \<Rightarrow> json_tree" where
  "passwords_doc j s = (case files s ''/passwords.json'' of
     None \<Rightarrow> [] | Some f \<Rightarrow> or_empty (parse_tree j f))"

definition member :: "json_tree \<Rightarrow> bytes \<Rightarrow> bytes \<Rightarrow> bytes option" where
  "member doc website login = do { obj \<leftarrow> map_of doc website; map_of obj login }"

definition isPasswordExists :: "json \<Rightarrow> bytes \<Rightarrow> bytes \<Rightarrow> system \<Rightarrow> bool" where
  "isPasswordExists j website login s \<longleftrightarrow> member (passwords_doc j s) website login \<noteq> None"

definition fail :: "string \<Rightarrow> string \<Rightarrow> system \<Rightarrow> 'n \<Rightarrow> (bool \<times> system \<times> 'n) option" where
  "fail module code s n = Some (False, send (Send_Error module code) s, n)"

definition savePassword ::
  "platform \<Rightarrow> json \<Rightarrow> u32 \<Rightarrow> bytes \<Rightarrow> bytes \<Rightarrow> bytes \<Rightarrow> system \<times> nonce_state \<Rightarrow>
    (bool \<times> system \<times> nonce_state) option" where
  "savePassword p j pad website login password = (\<lambda>(s, n).
     if \<not> isStorageKeyLoaded s then fail ''PASS'' ''KEY_LOCKED'' s n
     else if length website > 64 \<or> length login > 64 then fail ''PASS'' ''IDENTIFIER_TOO_LONG'' s n
     else if length password > 4000 then fail ''PASS'' ''PASS_TOO_LONG'' s n
     else if isPasswordExists j website login s then fail ''PASS'' ''ALREADY_EXISTS'' s n
     else
       let doc = passwords_doc j s;
           totalLogins = sum_list (map (\<lambda>(site, lgs). length lgs) doc) in
       if totalLogins \<ge> 1000 then fail ''PASS'' ''MAX_LIMIT_REACHED'' s n
       else do {
         (encryptedValue, n) \<leftarrow> encryptStoragePayload (backend p) (heap p) pad password (storage_key s) n;
         if encryptedValue = [] then fail ''PASS'' ''ENC_FAILED'' s n
         else
           let site_obj = (case map_of doc website of Some lgs \<Rightarrow> lgs | None \<Rightarrow> []);
               doc = set_member website (set_member login encryptedValue site_obj) doc in
           if \<not> can_open p ''/passwords.json'' then fail ''PASS'' ''FILE_CREATE_FAILED'' s n
           else Some (True, write_file p ''/passwords.json'' (ser_tree j doc) s, n) })"

definition getPasswordFromStorage :: "platform \<Rightarrow> json \<Rightarrow> bytes \<Rightarrow> bytes \<Rightarrow> system \<Rightarrow> bytes" where
  "getPasswordFromStorage p j website login s =
     (if \<not> isStorageKeyLoaded s then []
      else case member (passwords_doc j s) website login of
          None \<Rightarrow> []
        | Some v \<Rightarrow> decryptStoragePayload (backend p) (heap p) v (storage_key s))"

definition deletePassword :: "platform \<Rightarrow> json \<Rightarrow> bytes \<Rightarrow> bytes \<Rightarrow> system \<Rightarrow> bool \<times> system" where
  "deletePassword p j website login s =
     (let doc = passwords_doc j s in
      case member doc website login of
        None \<Rightarrow> (False, s)
      | Some _ \<Rightarrow>
          let lgs = remove_member login (the (map_of doc website));
              doc = (if lgs = [] then remove_member website doc else set_member website lgs doc) in
          if \<not> can_open p ''/passwords.json'' then (False, s)
          else (True, write_file p ''/passwords.json'' (ser_tree j doc) s))"

text \<open>The strength rating of \<open>listPasswords\<close>, given the passwords of the whole vault.\<close>

definition isWeak :: "bytes list \<Rightarrow> bytes \<Rightarrow> bool" where
  "isWeak passwords pwd \<longleftrightarrow>
     length pwd < 12 \<or>
     \<not> (\<exists>c \<in> set pwd. is_digit c) \<or> \<not> (\<exists>c \<in> set pwd. 65 \<le> c \<and> c \<le> 90) \<or>
     \<not> (\<exists>c \<in> set pwd. 97 \<le> c \<and> c \<le> 122) \<or>
     \<not> (\<exists>c \<in> set pwd. \<not> is_digit c \<and> \<not> (65 \<le> c \<and> c \<le> 90) \<and> \<not> (97 \<le> c \<and> c \<le> 122)) \<or>
     1 < length (filter (\<lambda>q. q = pwd) passwords)"

text \<open>The items of the \<open>LIST\<close> event, \<open>None\<close> for \<open>READ_FAILED\<close>.\<close>

definition listPasswords :: "platform \<Rightarrow> json \<Rightarrow> system \<Rightarrow> (bytes \<times> bytes \<times> bool) list option" where
  "listPasswords p j s =
     (case files s ''/passwords.json'' of
        None \<Rightarrow> Some []
      | Some f \<Rightarrow> do {
          doc \<leftarrow> parse_tree j f;
          let entries = concat (map (\<lambda>(site, lgs). map (\<lambda>(login, v). (site, login,
            decryptStoragePayload (backend p) (heap p) v (storage_key s))) lgs) doc);
          let passwords = map (\<lambda>(site, login, pwd). pwd) entries;
          Some (map (\<lambda>(site, login, pwd). (site, login, isWeak passwords pwd)) entries) })"

section \<open>TOTP secrets\<close>

definition totp_doc :: "json \<Rightarrow> system \<Rightarrow> json_obj" where
  "totp_doc j s = (case files s ''/totp.json'' of None \<Rightarrow> [] | Some f \<Rightarrow> or_empty (parse_obj j f))"

definition saveTotpSecret ::
  "platform \<Rightarrow> json \<Rightarrow> u32 \<Rightarrow> bytes \<Rightarrow> bytes \<Rightarrow> system \<times> nonce_state \<Rightarrow> (system \<times> nonce_state) option" where
  "saveTotpSecret p j pad name secret = (\<lambda>(s, n).
     if \<not> isStorageKeyLoaded s then Some (s, n)
     else do {
       (encryptedValue, n) \<leftarrow> encryptStoragePayload (backend p) (heap p) pad secret (storage_key s) n;
       if encryptedValue = [] then Some (send (Send_Error ''TOTP'' ''ENC_FAILED'') s, n)
       else if \<not> can_open p ''/totp.json'' then Some (send (Send_Error ''TOTP'' ''FILE_WRITE_FAILED'') s, n)
       else Some (send (Send_Event ''TOTP'' ''SAVED'')
         (write_file p ''/totp.json'' (ser_obj j (set_member name encryptedValue (totp_doc j s))) s), n) })"

definition getTotpSecret :: "platform \<Rightarrow> json \<Rightarrow> bytes \<Rightarrow> system \<Rightarrow> bytes" where
  "getTotpSecret p j name s =
     (if \<not> isStorageKeyLoaded s then []
      else case map_of (totp_doc j s) name of
          None \<Rightarrow> []
        | Some v \<Rightarrow> decryptStoragePayload (backend p) (heap p) v (storage_key s))"

definition deleteTotpSecret :: "platform \<Rightarrow> json \<Rightarrow> bytes \<Rightarrow> system \<Rightarrow> bool \<times> system" where
  "deleteTotpSecret p j name s =
     (if map_of (totp_doc j s) name = None \<or> \<not> can_open p ''/totp.json'' then (False, s)
      else (True, write_file p ''/totp.json'' (ser_obj j (remove_member name (totp_doc j s))) s))"

text \<open>The codes of the \<open>CODES\<close> event; \<open>None\<close> when a secret overflows the key buffer of \<open>generateTOTP\<close>.\<close>

fun totp_codes ::
  "platform \<Rightarrow> (bytes \<Rightarrow> bytes \<Rightarrow> bytes) \<Rightarrow> bytes \<Rightarrow> u32 \<Rightarrow> json_obj \<Rightarrow> json_obj \<Rightarrow> json_obj option" where
  "totp_codes p hmac_sha1 key currentEpoch [] codes = Some codes"
| "totp_codes p hmac_sha1 key currentEpoch ((name, v) # ms) codes =
     (let secret = decryptStoragePayload (backend p) (heap p) v key in
      if secret = [] then totp_codes p hmac_sha1 key currentEpoch ms codes
      else do {
        code \<leftarrow> generateTOTP hmac_sha1 secret currentEpoch;
        totp_codes p hmac_sha1 key currentEpoch ms (set_member name code codes) })"

definition handleTotpGetAll ::
  "platform \<Rightarrow> json \<Rightarrow> (bytes \<Rightarrow> bytes \<Rightarrow> bytes) \<Rightarrow> u32 \<Rightarrow> system \<Rightarrow> json_obj option" where
  "handleTotpGetAll p j hmac_sha1 currentEpoch s =
     (if \<not> isStorageKeyLoaded s then Some []
      else totp_codes p hmac_sha1 (storage_key s) currentEpoch (totp_doc j s) [])"

section \<open>Export and import\<close>

record archive =
  a_passwords :: "(bytes \<times> bytes \<times> bytes) list"
  a_totp :: "(bytes \<times> bytes) list"
  a_crypto_alg :: "int option"

definition exportVaultPlaintext :: "platform \<Rightarrow> json \<Rightarrow> system \<Rightarrow> archive option" where
  "exportVaultPlaintext p j s =
     (if \<not> isStorageKeyLoaded s then None
      else
        let open_value = (\<lambda>v. decryptStoragePayload (backend p) (heap p) v (storage_key s)) in
        Some \<lparr>a_passwords = filter (\<lambda>(site, login, plain). plain \<noteq> [])
                (concat (map (\<lambda>(site, lgs). map (\<lambda>(login, v). (site, login, open_value v)) lgs)
                  (passwords_doc j s))),
              a_totp = filter (\<lambda>(name, plain). plain \<noteq> []) (map (\<lambda>(name, v). (name, open_value v)) (totp_doc j s)),
              a_crypto_alg = Some (loadDefaultCryptoAlg s)\<rparr>)"

text \<open>The items of an archive; \<open>pads\<close> are the random padding words of the nonces, one per item.\<close>

fun import_passwords ::
  "platform \<Rightarrow> json \<Rightarrow> bool \<Rightarrow> (bytes \<times> bytes \<times> bytes) list \<Rightarrow> u32 list \<Rightarrow> nat \<times> nat \<Rightarrow>
    system \<times> nonce_state \<Rightarrow> ((nat \<times> nat) \<times> system \<times> nonce_state) option" where
  "import_passwords p j overwrite ((site, login, pass) # items) (pad # pads) (imported, skipped) (s, n) =
     (if site = [] \<or> login = [] then
        import_passwords p j overwrite items pads (imported, skipped + 1) (s, n)
      else if isPasswordExists j site login s \<and> \<not> overwrite then
        import_passwords p j overwrite items pads (imported, skipped + 1) (s, n)
      else
        let s = (if isPasswordExists j site login s then snd (deletePassword p j site login s) else s) in
        do {
          (ok, s, n) \<leftarrow> savePassword p j pad site login pass (s, n);
          import_passwords p j overwrite items pads
            (if ok then (imported + 1, skipped) else (imported, skipped + 1)) (s, n) })"
| "import_passwords p j overwrite items pads counts s = Some (counts, s)"

fun import_totp ::
  "platform \<Rightarrow> json \<Rightarrow> bool \<Rightarrow> (bytes \<times> bytes) list \<Rightarrow> u32 list \<Rightarrow> nat \<times> nat \<Rightarrow>
    system \<times> nonce_state \<Rightarrow> ((nat \<times> nat) \<times> system \<times> nonce_state) option" where
  "import_totp p j overwrite ((name, secret) # items) (pad # pads) (imported, skipped) (s, n) =
     (if name = [] \<or> secret = [] then
        import_totp p j overwrite items pads (imported, skipped + 1) (s, n)
      else if getTotpSecret p j name s \<noteq> [] \<and> \<not> overwrite then
        import_totp p j overwrite items pads (imported, skipped + 1) (s, n)
      else do {
        (s, n) \<leftarrow> saveTotpSecret p j pad name secret (s, n);
        import_totp p j overwrite items pads (imported + 1, skipped) (s, n) })"
| "import_totp p j overwrite items pads counts s = Some (counts, s)"

text \<open>The outer option is the \<open>abort()\<close> of the nonce generator; the inner one a locked vault.\<close>

definition importVaultPlaintext ::
  "platform \<Rightarrow> json \<Rightarrow> archive \<Rightarrow> bool \<Rightarrow> u32 list \<Rightarrow> u32 list \<Rightarrow> system \<times> nonce_state \<Rightarrow>
    ((nat \<times> nat) option \<times> system \<times> nonce_state) option" where
  "importVaultPlaintext p j a overwrite pads pads' st =
     (if \<not> isStorageKeyLoaded (fst st) then Some (None, st)
      else do {
        (counts, st) \<leftarrow> import_passwords p j overwrite (a_passwords a) pads (0, 0) st;
        (counts, (s, n)) \<leftarrow> import_totp p j overwrite (a_totp a) pads' counts st;
        let s = (case a_crypto_alg a of Some alg \<Rightarrow> saveDefaultCryptoAlg p (word_of_int alg) s | None \<Rightarrow> s);
        Some (Some counts, s, n) })"

section \<open>Fingerprint names\<close>

definition bio_doc :: "json \<Rightarrow> system \<Rightarrow> json_obj" where
  "bio_doc j s = (case files s ''/bio_templates.json'' of None \<Rightarrow> [] | Some f \<Rightarrow> or_empty (parse_obj j f))"

definition getAllBioTemplateIds :: "json \<Rightarrow> system \<Rightarrow> u8 list" where
  "getAllBioTemplateIds j s = map (\<lambda>(k, v). word_of_int (toInt k)) (bio_doc j s)"

definition getBioTemplateCount :: "json \<Rightarrow> system \<Rightarrow> nat" where
  "getBioTemplateCount j s = length (getAllBioTemplateIds j s)"

definition MAX_BIO_TEMPLATES :: nat where
  "MAX_BIO_TEMPLATES = 127"

definition findFreeBioTemplateSlot :: "json \<Rightarrow> system \<Rightarrow> u8" where
  "findFreeBioTemplateSlot j s =
     (case find (\<lambda>i. of_nat i \<notin> set (getAllBioTemplateIds j s)) [1..<MAX_BIO_TEMPLATES] of
        Some i \<Rightarrow> of_nat i | None \<Rightarrow> 0)"

definition saveBioTemplateName :: "platform \<Rightarrow> json \<Rightarrow> u8 \<Rightarrow> bytes \<Rightarrow> system \<Rightarrow> bool \<times> system" where
  "saveBioTemplateName p j templateId friendlyName s =
     (if \<not> can_open p ''/bio_templates.json'' then (False, s)
      else (True, write_file p ''/bio_templates.json''
        (ser_obj j (set_member (show_int (uint templateId)) friendlyName (bio_doc j s))) s))"

definition getBioTemplateName :: "json \<Rightarrow> u8 \<Rightarrow> system \<Rightarrow> bytes" where
  "getBioTemplateName j templateId s =
     (case map_of (bio_doc j s) (show_int (uint templateId)) of Some n \<Rightarrow> n | None \<Rightarrow> [])"

definition deleteBioTemplateRecord :: "platform \<Rightarrow> json \<Rightarrow> u8 \<Rightarrow> system \<Rightarrow> bool \<times> system" where
  "deleteBioTemplateRecord p j templateId s =
     (let key = show_int (uint templateId) in
      if map_of (bio_doc j s) key = None \<or> \<not> can_open p ''/bio_templates.json'' then (False, s)
      else (True, write_file p ''/bio_templates.json'' (ser_obj j (remove_member key (bio_doc j s))) s))"

section \<open>Documents\<close>

lemma map_of_set_member: "map_of (set_member k v ms) = (map_of ms)(k \<mapsto> v)"
  by (induction ms) (auto simp: fun_eq_iff)

lemma keys_set_member: "fst ` set (set_member k v ms) = insert k (fst ` set ms)"
  by (induction k v ms rule: set_member.induct) auto

lemma distinct_set_member: "distinct (map fst ms) \<Longrightarrow> distinct (map fst (set_member k v ms))"
  by (induction ms) (auto simp: keys_set_member)

lemma set_set_member: "set (set_member k v ms) \<subseteq> insert (k, v) (set ms)"
  by (induction k v ms rule: set_member.induct) auto

lemma set_remove_member: "set (remove_member k ms) \<subseteq> set ms"
  by (induction k ms rule: remove_member.induct) auto

lemma map_of_remove_member:
  "distinct (map fst ms) \<Longrightarrow> map_of (remove_member k ms) = (map_of ms)(k := None)"
proof (induction ms)
  case (Cons m ms)
  then show ?case by (cases m) (auto simp: fun_eq_iff map_of_eq_None_iff)
qed simp

lemma distinct_remove_member: "distinct (map fst ms) \<Longrightarrow> distinct (map fst (remove_member k ms))"
  by (induction ms) (use set_remove_member in \<open>fastforce+\<close>)

definition wf_tree :: "json_tree \<Rightarrow> bool" where
  "wf_tree doc \<longleftrightarrow> distinct (map fst doc) \<and> (\<forall>(site, lgs) \<in> set doc. distinct (map fst lgs))"

text \<open>What is used of ArduinoJson: it parses what it serialized, and objects have distinct keys.\<close>

definition json_ok :: "json \<Rightarrow> bool" where
  "json_ok j \<longleftrightarrow>
     (\<forall>d. wf_tree d \<longrightarrow> parse_tree j (ser_tree j d) = Some d) \<and>
     (\<forall>ob. distinct (map fst ob) \<longrightarrow> parse_obj j (ser_obj j ob) = Some ob) \<and>
     (\<forall>f d. parse_tree j f = Some d \<longrightarrow> wf_tree d) \<and>
     (\<forall>f ob. parse_obj j f = Some ob \<longrightarrow> distinct (map fst ob))"

lemma json_okD:
  assumes "json_ok j"
  shows "wf_tree d \<Longrightarrow> parse_tree j (ser_tree j d) = Some d"
    "distinct (map fst ob) \<Longrightarrow> parse_obj j (ser_obj j ob) = Some ob"
    "parse_tree j f = Some d \<Longrightarrow> wf_tree d" "parse_obj j f = Some ob \<Longrightarrow> distinct (map fst ob)"
  using assms by (auto simp: json_ok_def)

lemma wf_passwords_doc: "json_ok j \<Longrightarrow> wf_tree (passwords_doc j s)"
  by (auto simp: passwords_doc_def or_empty_def wf_tree_def [of "[]"] dest: json_okD(3) split: option.split)

lemma distinct_totp_doc: "json_ok j \<Longrightarrow> distinct (map fst (totp_doc j s))"
  by (auto simp: totp_doc_def or_empty_def dest: json_okD(4) split: option.split)

lemma member_set:
  "member (set_member w (set_member l v (case map_of doc w of Some lgs \<Rightarrow> lgs | None \<Rightarrow> [])) doc) w' l' =
    (if w' = w \<and> l' = l then Some v else member doc w' l')"
  by (auto simp: member_def map_of_set_member split: option.split)

lemma wf_tree_set:
  assumes "wf_tree doc" "distinct (map fst lgs)"
  shows "wf_tree (set_member w lgs doc)"
  using assms set_set_member [of w lgs doc] by (auto simp: wf_tree_def distinct_set_member)

lemma wf_tree_site: "wf_tree doc \<Longrightarrow> map_of doc w = Some lgs \<Longrightarrow> distinct (map fst lgs)"
  by (auto simp: wf_tree_def dest: map_of_SomeD)

lemma member_remove:
  assumes "wf_tree doc" "map_of doc w = Some lgs"
  shows "member (if remove_member l lgs = [] then remove_member w doc else set_member w (remove_member l lgs) doc) w' l' =
    (if w' = w \<and> l' = l then None else member doc w' l')"
proof -
  have d: "distinct (map fst doc)" "distinct (map fst lgs)"
    using assms wf_tree_site by (auto simp: wf_tree_def)
  note m = map_of_remove_member [OF d(1)] map_of_remove_member [OF d(2), of l]
  show ?thesis
  proof (cases "remove_member l lgs = []")
    case True
    then have "(map_of lgs)(l := None) = Map.empty" using m(2) by simp
    then have "map_of lgs l' = None" if "l' \<noteq> l" for l' using that by (metis fun_upd_other)
    with True show ?thesis using assms(2) by (auto simp: member_def m(1))
  next
    case False
    then show ?thesis using assms(2) by (auto simp: member_def map_of_set_member m(2))
  qed
qed

lemma wf_tree_remove:
  assumes "wf_tree doc" "map_of doc w = Some lgs"
  shows "wf_tree (if remove_member l lgs = [] then remove_member w doc else set_member w (remove_member l lgs) doc)"
proof -
  have "wf_tree (remove_member w doc)"
    using assms(1) set_remove_member [of w doc] by (auto simp: wf_tree_def distinct_remove_member)
  moreover have "wf_tree (set_member w (remove_member l lgs) doc)"
    by (rule wf_tree_set [OF assms(1) distinct_remove_member [OF wf_tree_site [OF assms]]])
  ultimately show ?thesis by simp
qed

lemma passwords_doc_write:
  assumes "json_ok j" "can_open p ''/passwords.json''" "wf_tree doc"
  shows "passwords_doc j (write_file p ''/passwords.json'' (ser_tree j doc) s) = doc"
  using assms by (simp add: passwords_doc_def json_okD(1) or_empty_def)

lemma totp_doc_write:
  assumes "json_ok j" "can_open p ''/totp.json''" "distinct (map fst ob)"
  shows "totp_doc j (write_file p ''/totp.json'' (ser_obj j ob) s) = ob"
  using assms by (simp add: totp_doc_def json_okD(2) or_empty_def)

lemma write_file_other [simp]:
  "storage_key (write_file p path c s) = storage_key s"
  "isStorageKeyLoaded (write_file p path c s) = isStorageKeyLoaded s"
  by (simp_all add: write_file_def)

section \<open>One save, one deletion\<close>

text \<open>What a site and login hold, for a vault whose key is loaded.\<close>

definition entry_plain :: "platform \<Rightarrow> bytes \<Rightarrow> bytes \<Rightarrow> bytes" where
  "entry_plain p key v = decryptStoragePayload (backend p) (heap p) v key"

lemma get_password:
  "isStorageKeyLoaded s \<Longrightarrow> getPasswordFromStorage p j w l s =
    (case member (passwords_doc j s) w l of None \<Rightarrow> [] | Some v \<Rightarrow> entry_plain p (storage_key s) v)"
  by (simp add: getPasswordFromStorage_def entry_plain_def split: option.split)

lemma savePassword_success:
  assumes "json_ok j" "sound p" "password \<noteq> []" "0 \<notin> set password"
    and "savePassword p j pad w l password (s, n) = Some (True, s', n')"
  obtains v where "entry_plain p (storage_key s) v = password"
    "passwords_doc j s' = set_member w (set_member l v (case map_of (passwords_doc j s) w of Some lgs \<Rightarrow> lgs | None \<Rightarrow> []))
      (passwords_doc j s)"
    "isStorageKeyLoaded s" "isStorageKeyLoaded s'" "storage_key s' = storage_key s"
    "\<not> isPasswordExists j w l s" "\<And>q. q \<noteq> ''/passwords.json'' \<Longrightarrow> files s' q = files s q"
proof -
  have p: "\<And>n. heap p n" "\<And>x. can_open p x" "consistent (backend p)" "gcm_ok (backend p)"
    using assms(2) by (auto simp: sound_def roomy_def)
  let ?doc = "passwords_doc j s"
  let ?site = "case map_of ?doc w of Some lgs \<Rightarrow> lgs | None \<Rightarrow> []"
  obtain v n1 where v: "encryptStoragePayload (backend p) (heap p) pad password (storage_key s) n = Some (v, n1)"
    "v \<noteq> []" "isStorageKeyLoaded s" "\<not> isPasswordExists j w l s"
    "s' = write_file p ''/passwords.json'' (ser_tree j (set_member w (set_member l v ?site) ?doc)) s"
    using assms(5) p(2) by (auto simp: savePassword_def fail_def Let_def bind_eq_Some_conv split: if_splits)
  have "entry_plain p (storage_key s) v = password"
    using storage_roundtrip [OF p(3,4) assms(3,4) _ _ v(1,2)] p(1) by (simp add: entry_plain_def)
  moreover have "distinct (map fst (set_member l v ?site))"
    using wf_tree_site [OF wf_passwords_doc [OF assms(1)]]
    by (intro distinct_set_member) (auto split: option.split)
  then have "passwords_doc j s' = set_member w (set_member l v ?site) ?doc"
    unfolding v(5) using wf_tree_set [OF wf_passwords_doc [OF assms(1)]] assms(1) p(2)
    by (intro passwords_doc_write) auto
  ultimately show thesis using that v(3-5) p(2) by simp
qed

lemma deletePassword_success:
  assumes "json_ok j" "deletePassword p j w l s = (True, s')"
  shows "member (passwords_doc j s') w' l' = (if w' = w \<and> l' = l then None else member (passwords_doc j s) w' l')"
    "storage_key s' = storage_key s" "isStorageKeyLoaded s' = isStorageKeyLoaded s" "isPasswordExists j w l s"
proof -
  let ?doc = "passwords_doc j s"
  obtain lgs where lgs: "map_of ?doc w = Some lgs" "member ?doc w l \<noteq> None" "can_open p ''/passwords.json''"
    "s' = write_file p ''/passwords.json'' (ser_tree j
      (if remove_member l lgs = [] then remove_member w ?doc else set_member w (remove_member l lgs) ?doc)) s"
    using assms(2) by (auto simp: deletePassword_def Let_def member_def bind_eq_Some_conv
        split: option.splits if_splits)
  note wf = wf_passwords_doc [OF assms(1), of s]
  have "passwords_doc j s' =
      (if remove_member l lgs = [] then remove_member w ?doc else set_member w (remove_member l lgs) ?doc)"
    unfolding lgs(4) by (rule passwords_doc_write [OF assms(1) lgs(3) wf_tree_remove [OF wf lgs(1)]])
  then show "member (passwords_doc j s') w' l' = (if w' = w \<and> l' = l then None else member (passwords_doc j s) w' l')"
    using member_remove [OF wf lgs(1)] by simp
  show "storage_key s' = storage_key s" "isStorageKeyLoaded s' = isStorageKeyLoaded s"
    by (simp_all add: lgs(4))
  show "isPasswordExists j w l s" using lgs(2) by (simp add: isPasswordExists_def)
qed



section \<open>The vault as a map\<close>

definition vault :: "platform \<Rightarrow> json \<Rightarrow> system \<Rightarrow> bytes \<times> bytes \<Rightarrow> bytes option" where
  "vault p j s = (\<lambda>(w, l). map_option (entry_plain p (storage_key s)) (member (passwords_doc j s) w l))"

definition logins :: "json_tree \<Rightarrow> nat" where
  "logins doc = sum_list (map (\<lambda>(site, lgs). length lgs) doc)"

definition storable :: "bytes \<Rightarrow> bool" where
  "storable x \<longleftrightarrow> x \<noteq> [] \<and> 0 \<notin> set x"

lemma get_vault:
  "isStorageKeyLoaded s \<Longrightarrow>
    getPasswordFromStorage p j w l s = (case vault p j s (w, l) of None \<Rightarrow> [] | Some x \<Rightarrow> x)"
  by (simp add: get_password vault_def split: option.split)

lemma exists_vault: "isPasswordExists j w l s \<longleftrightarrow> vault p j s (w, l) \<noteq> None"
  by (simp add: isPasswordExists_def vault_def)

lemma save_vault:
  assumes "json_ok j" "sound p" "storable password"
    and "savePassword p j pad w l password (s, n) = Some (True, s', n')"
  shows "vault p j s (w, l) = None" "vault p j s' = (vault p j s)((w, l) \<mapsto> password)"
    "isStorageKeyLoaded s' = isStorageKeyLoaded s" "storage_key s' = storage_key s"
    "\<forall>q. q \<noteq> ''/passwords.json'' \<longrightarrow> files s' q = files s q"
proof -
  obtain v where v: "entry_plain p (storage_key s) v = password"
    "passwords_doc j s' = set_member w (set_member l v (case map_of (passwords_doc j s) w of Some lgs \<Rightarrow> lgs | None \<Rightarrow> []))
      (passwords_doc j s)"
    "isStorageKeyLoaded s" "isStorageKeyLoaded s'" "storage_key s' = storage_key s"
    "\<not> isPasswordExists j w l s" "\<And>q. q \<noteq> ''/passwords.json'' \<Longrightarrow> files s' q = files s q"
    using savePassword_success [OF assms(1,2) _ _ assms(4)] assms(3) unfolding storable_def by blast
  then show "vault p j s (w, l) = None" "vault p j s' = (vault p j s)((w, l) \<mapsto> password)"
    "isStorageKeyLoaded s' = isStorageKeyLoaded s" "storage_key s' = storage_key s"
    "\<forall>q. q \<noteq> ''/passwords.json'' \<longrightarrow> files s' q = files s q"
    by (auto simp: vault_def member_set isPasswordExists_def fun_eq_iff)
qed

lemma savePassword_failure:
  assumes "savePassword p j pad w l password (s, n) = Some (False, s', n')"
  shows "files s' = files s" "storage_key s' = storage_key s" "isStorageKeyLoaded s' = isStorageKeyLoaded s"
  using assms by (auto simp: savePassword_def fail_def send_def Let_def bind_eq_Some_conv split: if_splits)

lemma vault_files: "files s' = files s \<Longrightarrow> storage_key s' = storage_key s \<Longrightarrow> vault p j s' = vault p j s"
  by (simp add: vault_def passwords_doc_def)

text \<open>The encryption of mbedTLS reports no error.\<close>

definition gcm_total :: "backends \<Rightarrow> bool" where
  "gcm_total b \<longleftrightarrow> (\<forall>k v a d. mbed_gcm_encrypt b k v a d \<noteq> None)"

lemma seal_total:
  assumes "nonce_subsystem_initialized n"
  obtains e n' where "encryptStoragePayload b h pad x key n = Some (e, n')" "nonce_subsystem_initialized n'"
    "consistent b \<Longrightarrow> h (length x) \<Longrightarrow> gcm_total b \<Longrightarrow> e \<noteq> []"
proof -
  obtain iv n' where iv: "generate_aes_gcm_nonce pad n = Some (iv, n')" "nonce_subsystem_initialized n'"
    using assms by (auto simp: generate_aes_gcm_nonce_def Let_def)
  then obtain e where "encryptStoragePayload b h pad x key n = Some (e, n')"
    by (cases "accel_aes256_gcm_encrypt b key iv [] x"; cases "h (length x)")
      (auto simp: encryptStoragePayload_def)
  moreover from this have "e \<noteq> []" if c: "consistent b" "h (length x)" "gcm_total b"
  proof -
    obtain ct where "mbed_gcm_encrypt b key iv [] x = Some ct"
      using c(3) unfolding gcm_total_def by blast
    with \<open>encryptStoragePayload b h pad x key n = Some (e, n')\<close> iv(1) c(1,2) show ?thesis
      by (cases ct) (auto simp: encryptStoragePayload_def accel_gcm_encrypt_eq)
  qed
  ultimately show thesis using iv(2) that by blast
qed

lemma savePassword_total:
  assumes "nonce_subsystem_initialized n"
  obtains ok s' n' where "savePassword p j pad w l x (s, n) = Some (ok, s', n')" "nonce_subsystem_initialized n'"
proof -
  obtain e n' where "encryptStoragePayload (backend p) (heap p) pad x (storage_key s) n = Some (e, n')"
    "nonce_subsystem_initialized n'"
    using seal_total [OF assms] .
  then show thesis
    using assms by (intro that [of "fst (the (savePassword p j pad w l x (s, n)))"
          "fst (snd (the (savePassword p j pad w l x (s, n))))" "snd (snd (the (savePassword p j pad w l x (s, n))))"])
      (auto simp: savePassword_def fail_def Let_def split: if_splits)
qed

lemma deletePassword_vault:
  assumes "json_ok j" "\<forall>q. can_open p q"
  shows "fst (deletePassword p j w l s) \<longleftrightarrow> vault p j s (w, l) \<noteq> None"
    "vault p j (snd (deletePassword p j w l s)) = (vault p j s)((w, l) := None)"
proof -
  show 1: "fst (deletePassword p j w l s) \<longleftrightarrow> vault p j s (w, l) \<noteq> None"
    using assms(2) by (auto simp: deletePassword_def vault_def Let_def split: option.splits)
  show "vault p j (snd (deletePassword p j w l s)) = (vault p j s)((w, l) := None)"
  proof (cases "deletePassword p j w l s")
    case (Pair ok s')
    show ?thesis
    proof (cases ok)
      case True
      then show ?thesis
        using deletePassword_success [OF assms(1), of p w l s s'] Pair by (auto simp: vault_def fun_eq_iff)
    next
      case False
      then have "vault p j s (w, l) = None" "s' = s"
        using 1 Pair assms(2) by (auto simp: deletePassword_def Let_def split: option.splits if_splits)
      then show ?thesis using Pair by (simp add: fun_upd_idem)
    qed
  qed
qed


text \<open>
  C31: the password vault is a map from site and login to password. \<open>savePassword\<close> either inserts an entry
  that was not there and leaves all others alone, or reports an error and changes nothing;
  \<open>getPasswordFromStorage\<close> reads the map; \<open>deletePassword\<close> removes exactly the entry named, and says
  whether it was there.
\<close>

theorem vault_is_a_map:
  assumes "json_ok j" "sound p" "isStorageKeyLoaded s" "nonce_subsystem_initialized n" "storable password"
  shows "(\<exists>ok s' n'. savePassword p j pad w l password (s, n) = Some (ok, s', n') \<and>
        (if ok then vault p j s (w, l) = None \<and> vault p j s' = (vault p j s)((w, l) \<mapsto> password)
         else vault p j s' = vault p j s)) \<and>
      getPasswordFromStorage p j w l s = (case vault p j s (w, l) of None \<Rightarrow> [] | Some x \<Rightarrow> x) \<and>
      (fst (deletePassword p j w l s) \<longleftrightarrow> vault p j s (w, l) \<noteq> None) \<and>
      vault p j (snd (deletePassword p j w l s)) = (vault p j s)((w, l) := None)"
proof (intro conjI)
  obtain ok s' n' where r: "savePassword p j pad w l password (s, n) = Some (ok, s', n')"
    using savePassword_total [OF assms(4)] .
  moreover have "if ok then vault p j s (w, l) = None \<and> vault p j s' = (vault p j s)((w, l) \<mapsto> password)
      else vault p j s' = vault p j s"
  proof (cases ok)
    case True
    then show ?thesis using save_vault(1,2) [OF assms(1,2,5)] r by simp
  next
    case False
    then have "vault p j s' = vault p j s"
      using r by (intro vault_files savePassword_failure(1,2) [of p j pad w l password s n s' n']) simp_all
    with False show ?thesis by simp
  qed
  ultimately show "\<exists>ok s' n'. savePassword p j pad w l password (s, n) = Some (ok, s', n') \<and>
      (if ok then vault p j s (w, l) = None \<and> vault p j s' = (vault p j s)((w, l) \<mapsto> password)
       else vault p j s' = vault p j s)" by (intro exI conjI)
  have c: "\<forall>q. can_open p q" using assms(2) by (simp add: sound_def roomy_def)
  show "getPasswordFromStorage p j w l s = (case vault p j s (w, l) of None \<Rightarrow> [] | Some x \<Rightarrow> x)"
    by (rule get_vault [OF assms(3)])
  show "fst (deletePassword p j w l s) \<longleftrightarrow> vault p j s (w, l) \<noteq> None"
    "vault p j (snd (deletePassword p j w l s)) = (vault p j s)((w, l) := None)"
    by (rule deletePassword_vault [OF assms(1) c])+
qed

lemma length_set_member: "length (set_member k v ms) = (if map_of ms k = None then Suc (length ms) else length ms)"
  by (induction k v ms rule: set_member.induct) auto

lemma logins_set_member:
  "logins (set_member w lgs doc) + length (case map_of doc w of Some x \<Rightarrow> x | None \<Rightarrow> []) = logins doc + length lgs"
  by (induction w lgs doc rule: set_member.induct) (auto simp: logins_def)

lemma logins_save:
  "logins (set_member w (set_member l v (case map_of doc w of Some x \<Rightarrow> x | None \<Rightarrow> [])) doc) \<le> Suc (logins doc)"
  using logins_set_member [of w "set_member l v (case map_of doc w of Some x \<Rightarrow> x | None \<Rightarrow> [])" doc]
    length_set_member [of l v "case map_of doc w of Some x \<Rightarrow> x | None \<Rightarrow> []"] by (simp split: if_splits)

text \<open>A save that meets no limit succeeds.\<close>

lemma savePassword_ok:
  assumes "sound p" "gcm_total (backend p)" "json_ok j" "isStorageKeyLoaded s" "nonce_subsystem_initialized n"
    and "storable x" "length w \<le> 64" "length l \<le> 64" "length x \<le> 4000"
    and "vault p j s (w, l) = None" "logins (passwords_doc j s) < 1000"
  obtains s' n' where "savePassword p j pad w l x (s, n) = Some (True, s', n')" "nonce_subsystem_initialized n'"
    "logins (passwords_doc j s') \<le> Suc (logins (passwords_doc j s))"
proof -
  have p: "heap p (length x)" "can_open p ''/passwords.json''" "consistent (backend p)"
    using assms(1) by (auto simp: sound_def roomy_def)
  obtain e n' where e: "encryptStoragePayload (backend p) (heap p) pad x (storage_key s) n = Some (e, n')"
    "nonce_subsystem_initialized n'" "consistent (backend p) \<Longrightarrow> heap p (length x) \<Longrightarrow> gcm_total (backend p) \<Longrightarrow> e \<noteq> []"
    using seal_total [OF assms(5), of "backend p" "heap p" pad x "storage_key s"] by blast
  then have "e \<noteq> []" using p assms(2) by simp
  note e = e this
  have "\<not> isPasswordExists j w l s" using assms(10) by (simp add: exists_vault [of _ _ _ _ p])
  then obtain s' where s': "savePassword p j pad w l x (s, n) = Some (True, s', n')"
    using e(1,4) p(2) assms(4,7-9,11) by (simp add: savePassword_def Let_def logins_def)
  obtain v where "passwords_doc j s' =
      set_member w (set_member l v (case map_of (passwords_doc j s) w of Some lgs \<Rightarrow> lgs | None \<Rightarrow> [])) (passwords_doc j s)"
    using savePassword_success [OF assms(3,1) _ _ s'] assms(6) unfolding storable_def by blast
  then show thesis by (intro that [OF s' e(2)]) (simp only: logins_save)
qed

section \<open>Import into an empty vault\<close>

definition item_ok :: "bytes \<times> bytes \<times> bytes \<Rightarrow> bool" where
  "item_ok = (\<lambda>(w, l, x). w \<noteq> [] \<and> l \<noteq> [] \<and> length w \<le> 64 \<and> length l \<le> 64 \<and> length x \<le> 4000 \<and> storable x)"

definition pairing :: "(bytes \<times> bytes \<times> bytes) list \<Rightarrow> ((bytes \<times> bytes) \<times> bytes) list" where
  "pairing items = map (\<lambda>(w, l, x). ((w, l), x)) items"

lemma pairing_simps [simp]: "pairing [] = []" "pairing ((w, l, x) # items) = ((w, l), x) # pairing items"
  by (simp_all add: pairing_def)

lemma import_passwords_fresh:
  assumes "sound p" "gcm_total (backend p)" "json_ok j"
    and "\<forall>i \<in> set items. item_ok i" "distinct (map fst (pairing items))" "length items \<le> length pads"
    and "isStorageKeyLoaded s" "nonce_subsystem_initialized n"
    and "\<forall>k \<in> fst ` set (pairing items). vault p j s k = None"
    and "logins (passwords_doc j s) + length items \<le> 1000"
  shows "\<exists>s' n'. import_passwords p j ow items pads (i, k) (s, n) = Some ((i + length items, k), s', n') \<and>
    vault p j s' = vault p j s ++ map_of (pairing items) \<and> storage_key s' = storage_key s \<and>
    isStorageKeyLoaded s' \<and> nonce_subsystem_initialized n' \<and>
    (\<forall>q. q \<noteq> ''/passwords.json'' \<longrightarrow> files s' q = files s q)"
  using assms(4-)
proof (induction items arbitrary: pads s n i)
  case Nil
  then show ?case by simp
next
  case (Cons it items)
  obtain w l x where it: "it = (w, l, x)" by (cases it)
  obtain pad pads' where pads: "pads = pad # pads'" using Cons.prems(3) by (cases pads) auto
  have w: "w \<noteq> []" "l \<noteq> []" "length w \<le> 64" "length l \<le> 64" "length x \<le> 4000" "storable x"
    using Cons.prems(1) by (simp_all add: it item_ok_def)
  have fresh: "vault p j s (w, l) = None" using Cons.prems(6) by (simp add: it)
  have room: "logins (passwords_doc j s) < 1000" using Cons.prems(7) by simp
  obtain s1 n1 where s1: "savePassword p j pad w l x (s, n) = Some (True, s1, n1)" "nonce_subsystem_initialized n1"
    "logins (passwords_doc j s1) \<le> Suc (logins (passwords_doc j s))"
    using savePassword_ok [OF assms(1-3) Cons.prems(4,5) w(6,3-5) fresh room] by blast
  note v = save_vault [OF assms(3,1) w(6) s1(1)]
  have "isStorageKeyLoaded s1" using v(3) Cons.prems(4) by simp
  moreover have "\<forall>k \<in> fst ` set (pairing items). vault p j s1 k = None"
    using Cons.prems(2,6) v(2) by (force simp: it)
  ultimately obtain s2 n2 where s2:
    "import_passwords p j ow items pads' (Suc i, k) (s1, n1) = Some ((Suc i + length items, k), s2, n2)"
    "vault p j s2 = vault p j s1 ++ map_of (pairing items)" "storage_key s2 = storage_key s1"
    "isStorageKeyLoaded s2" "nonce_subsystem_initialized n2"
    "\<forall>q. q \<noteq> ''/passwords.json'' \<longrightarrow> files s2 q = files s1 q"
    using Cons.IH [of pads' s1 n1 "Suc i"] Cons.prems(1-3,7) s1(2,3) by (auto simp: pads it)
  have "import_passwords p j ow (it # items) pads (i, k) (s, n) = Some ((i + length (it # items), k), s2, n2)"
    using w(1,2) fresh s1(1) s2(1) by (simp add: it pads exists_vault [of _ _ _ _ p])
  moreover have "(w, l) \<notin> dom (map_of (pairing items))"
    using Cons.prems(2) by (simp add: it dom_map_of_conv_image_fst)
  then have "vault p j s2 = vault p j s ++ map_of (pairing (it # items))"
    by (simp add: s2(2) v(2) it map_add_upd_left)
  ultimately show ?case using s2 v(3-5) by auto
qed

text \<open>The TOTP names.\<close>

definition totps :: "platform \<Rightarrow> json \<Rightarrow> system \<Rightarrow> bytes \<Rightarrow> bytes option" where
  "totps p j s = (\<lambda>name. map_option (entry_plain p (storage_key s)) (map_of (totp_doc j s) name))"

lemma get_totp:
  "isStorageKeyLoaded s \<Longrightarrow> getTotpSecret p j name s = (case totps p j s name of None \<Rightarrow> [] | Some x \<Rightarrow> x)"
  by (simp add: getTotpSecret_def totps_def entry_plain_def split: option.split)

lemma saveTotp_ok:
  assumes "sound p" "gcm_total (backend p)" "json_ok j" "isStorageKeyLoaded s" "nonce_subsystem_initialized n"
    and "storable x"
  obtains s' n' where "saveTotpSecret p j pad name x (s, n) = Some (s', n')" "nonce_subsystem_initialized n'"
    "totps p j s' = (totps p j s)(name \<mapsto> x)" "isStorageKeyLoaded s'" "storage_key s' = storage_key s"
    "\<forall>q. q \<noteq> ''/totp.json'' \<longrightarrow> files s' q = files s q"
proof -
  have p: "\<And>n. heap p n" "can_open p ''/totp.json''" "consistent (backend p)" "gcm_ok (backend p)"
    using assms(1) by (auto simp: sound_def roomy_def)
  obtain e n' where e: "encryptStoragePayload (backend p) (heap p) pad x (storage_key s) n = Some (e, n')"
    "nonce_subsystem_initialized n'" "consistent (backend p) \<Longrightarrow> heap p (length x) \<Longrightarrow> gcm_total (backend p) \<Longrightarrow> e \<noteq> []"
    using seal_total [OF assms(5), of "backend p" "heap p" pad x "storage_key s"] by blast
  then have ne: "e \<noteq> []" using p assms(2) by simp
  have plain: "entry_plain p (storage_key s) e = x"
    using storage_roundtrip [OF p(3,4) _ _ p(1) p(1) e(1) ne] assms(6) by (simp add: entry_plain_def storable_def)
  define t where "t = write_file p ''/totp.json'' (ser_obj j (set_member name e (totp_doc j s))) s"
  define s' where "s' = send (Send_Event ''TOTP'' ''SAVED'') t"
  have "saveTotpSecret p j pad name x (s, n) = Some (s', n')"
    using e(1) ne p(2) assms(4) by (simp add: saveTotpSecret_def s'_def t_def)
  moreover have "totp_doc j t = set_member name e (totp_doc j s)"
    unfolding t_def by (rule totp_doc_write [OF assms(3) p(2) distinct_set_member [OF distinct_totp_doc [OF assms(3)]]])
  then have d: "totp_doc j s' = set_member name e (totp_doc j s)"
    by (simp add: s'_def send_def totp_doc_def)
  have k: "storage_key s' = storage_key s" "isStorageKeyLoaded s'" "\<forall>q. q \<noteq> ''/totp.json'' \<longrightarrow> files s' q = files s q"
    using assms(4) by (simp_all add: s'_def t_def send_def write_file_def)
  ultimately show thesis
    by (intro that [of s' n'] e(2)) (auto simp: totps_def d k map_of_set_member plain fun_eq_iff)
qed

lemma import_totp_fresh:
  assumes "sound p" "gcm_total (backend p)" "json_ok j"
    and "\<forall>(name, x) \<in> set items. name \<noteq> [] \<and> storable x" "distinct (map fst items)" "length items \<le> length pads"
    and "isStorageKeyLoaded s" "nonce_subsystem_initialized n"
    and "\<forall>k \<in> fst ` set items. totps p j s k = None"
  shows "\<exists>s' n'. import_totp p j ow items pads (i, k) (s, n) = Some ((i + length items, k), s', n') \<and>
    totps p j s' = totps p j s ++ map_of items \<and> storage_key s' = storage_key s \<and>
    isStorageKeyLoaded s' \<and> (\<forall>q. q \<noteq> ''/totp.json'' \<longrightarrow> files s' q = files s q)"
  using assms(4-)
proof (induction items arbitrary: pads s n i)
  case Nil
  then show ?case by simp
next
  case (Cons it items)
  obtain name x where it: "it = (name, x)" by (cases it)
  obtain pad pads' where pads: "pads = pad # pads'" using Cons.prems(3) by (cases pads) auto
  have x: "name \<noteq> []" "storable x" "x \<noteq> []" using Cons.prems(1) by (simp_all add: it storable_def)
  obtain s1 n1 where s1: "saveTotpSecret p j pad name x (s, n) = Some (s1, n1)" "nonce_subsystem_initialized n1"
    "totps p j s1 = (totps p j s)(name \<mapsto> x)" "isStorageKeyLoaded s1" "storage_key s1 = storage_key s"
    "\<forall>q. q \<noteq> ''/totp.json'' \<longrightarrow> files s1 q = files s q"
    using saveTotp_ok [OF assms(1-3) Cons.prems(4,5) x(2), of pad name] by blast
  have "\<forall>k \<in> fst ` set items. totps p j s1 k = None"
    using Cons.prems(2,6) s1(3) by (force simp: it)
  then obtain s2 n2 where s2:
    "import_totp p j ow items pads' (Suc i, k) (s1, n1) = Some ((Suc i + length items, k), s2, n2)"
    "totps p j s2 = totps p j s1 ++ map_of items" "storage_key s2 = storage_key s1" "isStorageKeyLoaded s2"
    "\<forall>q. q \<noteq> ''/totp.json'' \<longrightarrow> files s2 q = files s1 q"
    using Cons.IH [of pads' s1 n1 "Suc i"] Cons.prems(1-3) s1(2,4) by (auto simp: pads)
  have "getTotpSecret p j name s = []"
    using Cons.prems(4,6) by (simp add: get_totp it)
  then have "import_totp p j ow (it # items) pads (i, k) (s, n) = Some ((i + length (it # items), k), s2, n2)"
    using x s1(1) s2(1) by (simp add: it pads)
  moreover have "name \<notin> dom (map_of items)"
    using Cons.prems(2) by (simp add: it dom_map_of_conv_image_fst)
  then have "totps p j s2 = totps p j s ++ map_of (it # items)"
    by (simp add: s2(2) s1(3) it map_add_upd_left)
  ultimately show ?case using s1(5,6) s2(3,4,5) by (intro exI [of _ s2] exI [of _ n2]) (simp del: map_of.simps)
qed


section \<open>A vault moved to a new device\<close>

definition archive_ok :: "archive \<Rightarrow> bool" where
  "archive_ok a \<longleftrightarrow> (\<forall>i \<in> set (a_passwords a). item_ok i) \<and> distinct (map fst (pairing (a_passwords a))) \<and>
     length (a_passwords a) \<le> 1000 \<and>
     (\<forall>(name, x) \<in> set (a_totp a). name \<noteq> [] \<and> storable x) \<and> distinct (map fst (a_totp a))"

lemma totps_other: "\<lbrakk>files s' ''/totp.json'' = files s ''/totp.json''; storage_key s' = storage_key s\<rbrakk> \<Longrightarrow> totps p j s' = totps p j s"
  by (simp add: totps_def totp_doc_def)

lemma vault_other: "\<lbrakk>files s' ''/passwords.json'' = files s ''/passwords.json''; storage_key s' = storage_key s\<rbrakk> \<Longrightarrow> vault p j s' = vault p j s"
  by (simp add: vault_def passwords_doc_def)

text \<open>The passwords and secrets of an archive, imported into an empty vault.\<close>

lemma import_archive:
  assumes "sound p" "gcm_total (backend p)" "json_ok j" "archive_ok a"
    and "length (a_passwords a) \<le> length pads" "length (a_totp a) \<le> length pads'"
    and "isStorageKeyLoaded s" "nonce_subsystem_initialized n"
    and "files s ''/passwords.json'' = None" "files s ''/totp.json'' = None"
  obtains s' n' where "importVaultPlaintext p j a ow pads pads' (s, n) =
      Some (Some (length (a_passwords a) + length (a_totp a), 0), s', n')"
    "vault p j s' = map_of (pairing (a_passwords a))" "totps p j s' = map_of (a_totp a)" "isStorageKeyLoaded s'"
proof -
  have e: "passwords_doc j s = []" "vault p j s = Map.empty" "totps p j s = Map.empty"
    using assms(9,10) by (auto simp: passwords_doc_def vault_def member_def totps_def totp_doc_def fun_eq_iff)
  note a = assms(4) [unfolded archive_ok_def]
  obtain s1 n1 where s1: "import_passwords p j ow (a_passwords a) pads (0, 0) (s, n) = Some ((0 + length (a_passwords a), 0), s1, n1)"
    "vault p j s1 = vault p j s ++ map_of (pairing (a_passwords a))" "storage_key s1 = storage_key s"
    "isStorageKeyLoaded s1" "nonce_subsystem_initialized n1" "\<forall>q. q \<noteq> ''/passwords.json'' \<longrightarrow> files s1 q = files s q"
    using import_passwords_fresh [OF assms(1-3), of "a_passwords a" pads s n ow 0 0] a assms(5,7,8) e by (auto simp: logins_def)
  have t: "totps p j s1 = Map.empty" using totps_other [of s1 s] s1(3,6) e(3) by simp
  obtain s2 n2 where s2: "import_totp p j ow (a_totp a) pads' (length (a_passwords a), 0) (s1, n1) =
      Some ((length (a_passwords a) + length (a_totp a), 0), s2, n2)"
    "totps p j s2 = totps p j s1 ++ map_of (a_totp a)" "storage_key s2 = storage_key s1" "isStorageKeyLoaded s2"
    "\<forall>q. q \<noteq> ''/totp.json'' \<longrightarrow> files s2 q = files s1 q"
    using import_totp_fresh [OF assms(1-3), of "a_totp a" pads' s1 n1 ow "length (a_passwords a)" 0] a assms(6) s1(4,5) t by auto
  define s3 where "s3 = (case a_crypto_alg a of Some alg \<Rightarrow> saveDefaultCryptoAlg p (word_of_int alg) s2 | None \<Rightarrow> s2)"
  have k: "storage_key s3 = storage_key s2" "isStorageKeyLoaded s3 = isStorageKeyLoaded s2"
    "files s3 ''/passwords.json'' = files s2 ''/passwords.json''" "files s3 ''/totp.json'' = files s2 ''/totp.json''"
    by (auto simp: s3_def saveDefaultCryptoAlg_def write_file_def split: option.split)
  have "importVaultPlaintext p j a ow pads pads' (s, n) =
      Some (Some (length (a_passwords a) + length (a_totp a), 0), s3, n2)"
    using assms(7) s1(1) s2(1) by (simp add: importVaultPlaintext_def s3_def)
  moreover have "vault p j s3 = map_of (pairing (a_passwords a))"
    using vault_other [OF k(3,1)] vault_other [of s2 s1] s2(3,5) s1(2) e(2) by simp
  moreover have "totps p j s3 = map_of (a_totp a)"
    using totps_other [OF k(4,1)] s2(2) t by simp
  ultimately show thesis using that k(2) s2(4) by simp
qed

text \<open>What an export holds.\<close>

lemma map_of_filter_val:
  "distinct (map fst xs) \<Longrightarrow> map_of (filter (\<lambda>(k, v). P v) xs) k = (case map_of xs k of Some v \<Rightarrow> if P v then Some v else None | None \<Rightarrow> None)"
  by (induction xs) (auto simp: map_of_eq_None_iff split: option.split)


definition flat :: "(bytes \<Rightarrow> bytes) \<Rightarrow> json_tree \<Rightarrow> (bytes \<times> bytes \<times> bytes) list" where
  "flat f doc = concat (map (\<lambda>(site, lgs). map (\<lambda>(login, v). (site, login, f v)) lgs) doc)"

lemma flat_simps [simp]:
  "flat f [] = []" "flat f ((site, lgs) # doc) = map (\<lambda>(login, v). (site, login, f v)) lgs @ flat f doc"
  by (simp_all add: flat_def)

lemma pairing_append [simp]: "pairing (xs @ ys) = pairing xs @ pairing ys"
  by (simp add: pairing_def)

lemma pairing_filter: "pairing (filter (\<lambda>(w, l, x). P x) xs) = filter (\<lambda>(k, x). P x) (pairing xs)"
  by (induction xs) auto

lemma pairing_site:
  "map_of (pairing (map (\<lambda>(login, v). (site, login, f v)) lgs)) (w, l) =
    (if w = site then map_option f (map_of lgs l) else None)"
  "map fst (pairing (map (\<lambda>(login, v). (site, login, f v)) lgs)) = map (Pair site) (map fst lgs)"
  by (induction lgs) (auto simp: pairing_def)

lemma flat_sites: "k \<in> set (map fst (pairing (flat f doc))) \<Longrightarrow> fst k \<in> set (map fst doc)"
proof (induction doc)
  case (Cons d doc)
  obtain site lgs where d: "d = (site, lgs)" by (cases d)
  have "k \<in> set (map (Pair site) (map fst lgs)) \<or> k \<in> set (map fst (pairing (flat f doc)))"
    using Cons.prems by (simp only: d flat_simps pairing_append map_append set_append pairing_site Un_iff)
  then show ?case using Cons.IH by (auto simp: d)
qed simp

lemma map_of_flat:
  assumes "wf_tree doc"
  shows "map_of (pairing (flat f doc)) (w, l) = map_option f (member doc w l) \<and> distinct (map fst (pairing (flat f doc)))"
  using assms
proof (induction doc)
  case (Cons d doc)
  obtain site lgs where d: "d = (site, lgs)" by (cases d)
  have wf: "wf_tree doc" "site \<notin> set (map fst doc)" "distinct (map fst lgs)"
    using Cons.prems by (auto simp: wf_tree_def d)
  have n: "(site, l) \<notin> set (map fst (pairing (flat f doc)))" for l
    using wf(2) flat_sites [of "(site, l)" f doc] by auto
  then have n': "map_of (pairing (flat f doc)) (site, l) = None" for l
    by (simp add: map_of_eq_None_iff)
  have "distinct (map (Pair site) (map fst lgs) @ map fst (pairing (flat f doc)))"
    using wf(3) n Cons.IH [OF wf(1)] by (auto simp: distinct_map inj_on_def)
  then have "distinct (map fst (pairing (flat f (d # doc))))"
    by (simp only: d flat_simps pairing_append map_append pairing_site)
  moreover have "map_of (pairing (flat f (d # doc))) (w, l) = map_option f (member (d # doc) w l)"
    using Cons.IH [OF wf(1)] n'
    by (cases "w = site") (simp_all add: d member_def map_add_def pairing_site split: option.split)
  ultimately show ?case by simp
qed (simp add: member_def)

lemma export_maps:
  assumes "json_ok j" "exportVaultPlaintext p j s = Some a"
  shows "map_of (pairing (a_passwords a)) k =
      (case vault p j s k of Some x \<Rightarrow> if x \<noteq> [] then Some x else None | None \<Rightarrow> None)"
    "map_of (a_totp a) name = (case totps p j s name of Some x \<Rightarrow> if x \<noteq> [] then Some x else None | None \<Rightarrow> None)"
    "distinct (map fst (pairing (a_passwords a)))" "distinct (map fst (a_totp a))" "isStorageKeyLoaded s"
proof -
  let ?f = "entry_plain p (storage_key s)"
  have a: "a_passwords a = filter (\<lambda>(w, l, x). x \<noteq> []) (flat ?f (passwords_doc j s))"
    "a_totp a = filter (\<lambda>(name, x). x \<noteq> []) (map (\<lambda>(name, v). (name, ?f v)) (totp_doc j s))"
    "isStorageKeyLoaded s"
    using assms(2) by (auto simp: exportVaultPlaintext_def flat_def entry_plain_def Let_def split: if_splits)
  note m = map_of_flat [OF wf_passwords_doc [OF assms(1)], of ?f s]
  have t: "map fst (map (\<lambda>(name, v). (name, ?f v)) (totp_doc j s)) = map fst (totp_doc j s)"
    by (simp add: split_beta comp_def)
  then have dt: "distinct (map fst (map (\<lambda>(name, v). (name, ?f v)) (totp_doc j s)))"
    using distinct_totp_doc [OF assms(1), of s] by (simp only: t)
  have "map_of (pairing (flat ?f (passwords_doc j s))) k = vault p j s k"
    using m by (cases k) (simp add: vault_def)
  then show "map_of (pairing (a_passwords a)) k =
      (case vault p j s k of Some x \<Rightarrow> if x \<noteq> [] then Some x else None | None \<Rightarrow> None)"
    using m by (simp add: a(1) pairing_filter map_of_filter_val)
  have "map_of (map (\<lambda>(name, v). (name, ?f v)) (totp_doc j s)) name = totps p j s name"
    by (simp add: totps_def map_of_map)
  then show "map_of (a_totp a) name = (case totps p j s name of Some x \<Rightarrow> if x \<noteq> [] then Some x else None | None \<Rightarrow> None)"
    using map_of_filter_val [OF dt] by (simp add: a(2))
  show "distinct (map fst (pairing (a_passwords a)))" "distinct (map fst (a_totp a))"
    using m dt by (simp_all add: a(1,2) pairing_filter distinct_map_filter del: map_map)
  show "isStorageKeyLoaded s" by (rule a(3))
qed

section \<open>Fingerprint slots\<close>

lemma bio_doc_write:
  assumes "json_ok j" "can_open p ''/bio_templates.json''" "distinct (map fst ob)"
  shows "bio_doc j (write_file p ''/bio_templates.json'' (ser_obj j ob) s) = ob"
  using assms by (simp add: bio_doc_def json_okD(2) or_empty_def write_file_def)

lemma distinct_bio_doc: "json_ok j \<Longrightarrow> distinct (map fst (bio_doc j s))"
  by (auto simp: bio_doc_def or_empty_def dest: json_okD(4) split: option.split)

lemma ids_image: "set (getAllBioTemplateIds j s) = (\<lambda>k. word_of_int (toInt k)) ` fst ` set (bio_doc j s)"
  by (force simp: getAllBioTemplateIds_def)

text \<open>
  \<open>findFreeBioTemplateSlot\<close> returns 0 only when the slots 1 to 126 are all taken; otherwise the slot is
  free, and after \<open>saveBioTemplateName\<close> it is the one new slot, its name is found under it and every other
  name is unchanged.
\<close>

theorem free_slot_is_free:
  assumes "json_ok j" "can_open p ''/bio_templates.json''"
  shows "(let slot = findFreeBioTemplateSlot j s; s' = snd (saveBioTemplateName p j slot name s) in
     if slot = 0 then \<forall>i \<in> {1..<127}. of_nat i \<in> set (getAllBioTemplateIds j s)
     else slot < 127 \<and> slot \<notin> set (getAllBioTemplateIds j s) \<and> getBioTemplateName j slot s' = name \<and>
       (\<forall>i. i \<noteq> slot \<longrightarrow> getBioTemplateName j i s' = getBioTemplateName j i s) \<and>
       set (getAllBioTemplateIds j s') = insert slot (set (getAllBioTemplateIds j s)) \<and>
       getBioTemplateCount j s' = getBioTemplateCount j s + 1)"
proof -
  let ?used = "set (getAllBioTemplateIds j s)"
  define slot where "slot = findFreeBioTemplateSlot j s"
  define s' where "s' = snd (saveBioTemplateName p j slot name s)"
  have key: "word_of_int (toInt (show_int (uint i))) = (i :: u8)" for i
  proof -
    have "- (2 ^ 31) \<le> uint i" by (rule order_trans [OF _ uint_nonnegative]) simp
    moreover have "uint i < 2 ^ 31" using uint_lt2p [of i] by simp
    ultimately show ?thesis by (simp only: toInt_show_int) simp
  qed
  then have inj: "show_int (uint i) = show_int (uint k) \<longleftrightarrow> i = k" for i k :: u8 by metis
  show ?thesis
  proof (cases "find (\<lambda>i. of_nat i \<notin> ?used) [1..<127]")
    case None
    then have "slot = 0"
      by (simp add: slot_def findFreeBioTemplateSlot_def MAX_BIO_TEMPLATES_def del: upt_Suc)
    moreover from None have "\<forall>i \<in> {1..<127}. of_nat i \<in> ?used"
      by (auto simp: find_None_iff)
    ultimately show ?thesis by (simp add: slot_def)
  next
    case (Some i)
    then have "slot = of_nat i"
      by (simp add: slot_def findFreeBioTemplateSlot_def MAX_BIO_TEMPLATES_def del: upt_Suc)
    moreover from Some have "1 \<le> i \<and> i < 127 \<and> of_nat i \<notin> ?used"
      by (auto simp: find_Some_iff)
    ultimately have i: "1 \<le> i" "i < 127" "of_nat i \<notin> ?used" "slot = of_nat i" by simp_all
    then have u: "unat slot = i" by (simp add: small_byte)
    then have s: "slot \<noteq> 0" "slot < 127" using i by (auto simp: word_less_nat_alt)
    have "bio_doc j s' = set_member (show_int (uint slot)) name (bio_doc j s)"
      using bio_doc_write [OF assms distinct_set_member [OF distinct_bio_doc [OF assms(1)]]] assms(2)
      by (simp add: s'_def saveBioTemplateName_def)
    note d = this
    have new: "map_of (bio_doc j s) (show_int (uint slot)) = None"
    proof -
      have "word_of_int (toInt k) \<noteq> slot" if "k \<in> fst ` set (bio_doc j s)" for k
      proof
        assume "word_of_int (toInt k) = slot"
        then have "slot \<in> ?used" unfolding ids_image by (rule image_eqI [OF _ that, OF sym])
        with i(3,4) show False by simp
      qed
      from this [of "show_int (uint slot)"] key [of slot] show ?thesis
        unfolding map_of_eq_None_iff by blast
    qed
    have "set (getAllBioTemplateIds j s') = insert slot ?used"
      by (simp only: ids_image d keys_set_member image_insert key)
    moreover have "getBioTemplateCount j s' = getBioTemplateCount j s + 1"
      using new by (simp add: getBioTemplateCount_def getAllBioTemplateIds_def d length_set_member)
    ultimately show ?thesis
      using i(3,4) s inj unfolding slot_def [symmetric] Let_def s'_def [symmetric]
      by (simp add: getBioTemplateName_def d map_of_set_member)
  qed
qed

section \<open>A concrete document format\<close>

text \<open>A serializer and parser with the properties asked of ArduinoJson, to instantiate the theorems with.\<close>

fun enc_string :: "bytes \<Rightarrow> bytes" where
  "enc_string [] = [0]"
| "enc_string (b # bs) = 1 # b # enc_string bs"

fun dec_string :: "bytes \<Rightarrow> (bytes \<times> bytes) option" where
  "dec_string (c # f) = (if c = 0 then Some ([], f)
     else case f of [] \<Rightarrow> None | b # f \<Rightarrow> map_option (\<lambda>(s, f). (b # s, f)) (dec_string f))"
| "dec_string [] = None"

fun enc_members :: "('v \<Rightarrow> bytes) \<Rightarrow> (bytes \<times> 'v) list \<Rightarrow> bytes" where
  "enc_members e [] = [0]"
| "enc_members e ((k, v) # ms) = 1 # enc_string k @ e v @ enc_members e ms"

fun dec_members :: "(bytes \<Rightarrow> ('v \<times> bytes) option) \<Rightarrow> nat \<Rightarrow> bytes \<Rightarrow> ((bytes \<times> 'v) list \<times> bytes) option" where
  "dec_members d (Suc n) (c # f) = (if c = 0 then Some ([], f) else do {
     (k, f) \<leftarrow> dec_string f; (v, f) \<leftarrow> d f; (ms, f) \<leftarrow> dec_members d n f; Some ((k, v) # ms, f) })"
| "dec_members d n f = None"

lemma dec_enc_string: "dec_string (enc_string s @ f) = Some (s, f)"
  by (induction s) auto

lemma dec_enc_members:
  "\<forall>v f. d (e v @ f) = Some (v, f) \<Longrightarrow> length ms < n \<Longrightarrow> dec_members d n (enc_members e ms @ f) = Some (ms, f)"
proof (induction e ms arbitrary: n rule: enc_members.induct)
  case (1 e)
  then show ?case by (cases n) auto
next
  case (2 e k v ms)
  then show ?case by (cases n) (auto simp: dec_enc_string)
qed

lemma enc_members_length: "length ms < length (enc_members e ms)"
  by (induction e ms rule: enc_members.induct) auto

definition toy_parse :: "('a \<times> bytes) option \<Rightarrow> ('a \<Rightarrow> bool) \<Rightarrow> 'a option" where
  "toy_parse r P = (case r of Some (x, []) \<Rightarrow> if P x then Some x else None | _ \<Rightarrow> None)"

definition dec_obj :: "bytes \<Rightarrow> (json_obj \<times> bytes) option" where
  "dec_obj f = dec_members dec_string (length f) f"

definition dec_tree :: "bytes \<Rightarrow> (json_tree \<times> bytes) option" where
  "dec_tree f = dec_members dec_obj (length f) f"

definition toy_json :: json where
  "toy_json = \<lparr>ser_obj = enc_members enc_string, parse_obj = (\<lambda>f. toy_parse (dec_obj f) (\<lambda>ob. distinct (map fst ob))),
     ser_tree = enc_members (enc_members enc_string), parse_tree = (\<lambda>f. toy_parse (dec_tree f) wf_tree)\<rparr>"

lemma dec_enc_obj: "dec_obj (enc_members enc_string ms @ f) = Some (ms, f)"
  unfolding dec_obj_def using enc_members_length [of ms enc_string]
  by (intro dec_enc_members) (auto simp: dec_enc_string)

lemma dec_enc_tree: "dec_tree (enc_members (enc_members enc_string) ms @ f) = Some (ms, f)"
  unfolding dec_tree_def using enc_members_length [of ms "enc_members enc_string"]
  by (intro dec_enc_members) (auto simp: dec_enc_obj)

lemma toy_json_ok: "json_ok toy_json"
  using dec_enc_obj [of _ "[]"] dec_enc_tree [of _ "[]"]
  by (auto simp: json_ok_def toy_json_def toy_parse_def split: option.splits list.splits if_splits)

definition open_system :: system where
  "open_system = \<lparr>files = Map.empty, storage_key = replicate 32 5, isStorageKeyLoaded = True, authenticated = True,
     state_ready = True, sl_secret = None, attest_chain = None, attest_privkey = None, outputs = []\<rparr>"

definition booted :: nonce_state where
  "booted = \<lparr>boot_counter = 3, session_counter = 0, nonce_subsystem_initialized = True\<rparr>"

lemma toy_vault:
  "isStorageKeyLoaded open_system" "nonce_subsystem_initialized booted"
  "files open_system = Map.empty" "vault p j open_system = Map.empty"
  by (auto simp: open_system_def booted_def vault_def passwords_doc_def member_def)

lemma toy_gcm_total: "gcm_total (backend toy_platform)"
  by (simp add: gcm_total_def toy_platform_def toy_gcm_def)

theorem vault_is_a_map_witness:
  "\<exists>s' n'. savePassword toy_platform toy_json 7 (ascii ''a.org'') (ascii ''ann'') (ascii ''pw'') (open_system, booted) =
       Some (True, s', n') \<and>
     vault toy_platform toy_json s' = [(ascii ''a.org'', ascii ''ann'') \<mapsto> ascii ''pw'']"
proof -
  have s: "storable (ascii ''pw'')" by (simp add: storable_def ascii_def)
  have e: "vault toy_platform toy_json open_system k = None" for k by (simp add: toy_vault(4))
  have l: "length (ascii ''a.org'') \<le> 64" "length (ascii ''ann'') \<le> 64" "length (ascii ''pw'') \<le> 4000"
    by (simp_all add: ascii_def)
  have d: "logins (passwords_doc toy_json open_system) < 1000"
    by (simp add: logins_def passwords_doc_def toy_vault(3))
  obtain s' n' where r: "savePassword toy_platform toy_json 7 (ascii ''a.org'') (ascii ''ann'') (ascii ''pw'')
      (open_system, booted) = Some (True, s', n')"
    by (rule savePassword_ok [OF toy_sound toy_gcm_total toy_json_ok toy_vault(1,2) s l e d])
  from vault_is_a_map [OF toy_json_ok toy_sound toy_vault(1,2) s, of 7 "ascii ''a.org''" "ascii ''ann''"] r
  show ?thesis by (elim conjE exE) (simp add: toy_vault(4))
qed

theorem free_slot_is_free_witness:
  "findFreeBioTemplateSlot toy_json open_system = 1 \<and>
   getBioTemplateName toy_json 1 (snd (saveBioTemplateName toy_platform toy_json 1 (ascii ''thumb'') open_system)) =
     ascii ''thumb''"
proof -
  have f: "findFreeBioTemplateSlot toy_json open_system = 1"
    by (simp add: findFreeBioTemplateSlot_def getAllBioTemplateIds_def bio_doc_def open_system_def MAX_BIO_TEMPLATES_def
        upt_rec)
  have "can_open toy_platform ''/bio_templates.json''" by (simp add: toy_platform_def)
  from free_slot_is_free [OF toy_json_ok this, of open_system "ascii ''thumb''"] f show ?thesis by (simp add: Let_def)
qed

end
