(* ===== verification/Ctap.thy ===== *)
theory Ctap
  imports CtapParse CredKeys StatelessCred Vault
begin

text \<open>
  The state behind \<open>FIDO2HIDDevice::processCborCommand\<close> (\<open>src/FIDO2Manager.cpp\<close>), the replies of its
  commands, the helper functions at the head of the file, and user verification: one reading of the
  fingerprint sensor (\<open>fidoVerifyFingerprint\<close>) and the loop of at most 15 seconds around it.

  A handler is a function of the environment, of what the command observes (clock, sensor, random
  bytes) and of the state; \<open>None\<close> is undefined behaviour. Messages on the display and the debug log are
  left out; the simulator build is not modelled.
\<close>

section \<open>State\<close>

text \<open>
  \<open>mbedtls_ecdh\<close> is the shared secret of a private key and an uncompressed point, \<open>None\<close> when the point
  is refused; \<open>nvs_ok\<close> the result of \<open>nvs_open\<close>.
\<close>

record env =
  plat :: platform
  json_lib :: json
  signing :: signers
  nvs_ok :: bool
  mbedtls_ecdh :: "bytes \<Rightarrow> bytes \<Rightarrow> bytes option"

text \<open>
  \<open>eeprom_word\<close> is the word at \<open>SIGN_COUNT_ADDR\<close>. A buffer with its length is a list; a command's replies
  and keep-alives are appended to \<open>sent\<close>.
\<close>

record ctap =
  sys :: system
  nonces :: nonce_state
  eeprom_word :: u32
  lastFingerprintSuccessTime :: u32
  lastConfidenceScore :: u16
  defaultCryptoAlg :: i32
  hasPendingCommand :: bool
  attestationReady :: bool
  attestationProvisioned :: bool
  attestationChainCache :: bytes
  attestationPrivKeyCache :: bytes
  dynamicAaguid :: bytes
  isAaguidInitialized :: bool
  nextAssertionCreds :: "bytes list"
  nextAssertionIdx :: nat
  nextAssertionClientHash :: bytes
  nextAssertionRpId :: bytes
  nextAssertionOptionUV :: bool
  nextAssertionExtReq :: bool
  nextAssertionSalt1 :: bytes
  nextAssertionSalt2 :: bytes
  nextAssertionLargeBlobReq :: bool
  nextAssertionCredBlobReq :: bool
  largeBlobWriteBuffer :: "bytes option"
  largeBlobExpectedTotalLen :: nat
  largeBlobReceivedLen :: nat
  enumRpList :: "bytes list"
  enumRpIdx :: nat
  enumCredList :: "bytes list"
  enumCredIdx :: nat
  sessionPrivateKey :: bytes
  sessionKeyValid :: bool
  sessionSharedSecret :: bytes
  activeAuthToken :: bytes
  bioEnrollActive :: bool
  bioEnrollTemplateId :: u8
  bioEnrollSamplesRequired :: u8
  bioEnrollSamplesRemaining :: u8
  sent :: "(u8 \<times> bytes) list"

abbreviation crypt :: "env \<Rightarrow> backends" where
  "crypt e \<equiv> backend (plat e)"

section \<open>Replies\<close>

definition send_hid :: "u8 \<Rightarrow> bytes \<Rightarrow> ctap \<Rightarrow> ctap" where
  "send_hid cmd data s = s\<lparr>sent := sent s @ [(cmd, data)]\<rparr>"

text \<open>\<open>sendCtapResponse(channel, CTAPHID_CBOR, &err, 1)\<close>\<close>

definition fail_with :: "u8 \<Rightarrow> ctap \<Rightarrow> ctap option" where
  "fail_with err s = Some (send_hid 0x90 [err] s)"

text \<open>\<open>responseBuffer[0] = 0\<close>, the calls of the encoder on the remaining 8191 bytes, the results ignored, and the reply.\<close>

definition respond :: "write_call list \<Rightarrow> ctap \<Rightarrow> ctap option" where
  "respond cs s = do {
     (oks, e) \<leftarrow> run_calls cs (new_encoder (replicate 8191 0));
     Some (send_hid 0x90 (0 # written e) s) }"

definition text_lit :: "string \<Rightarrow> write_call" where
  "text_lit s = WText (ascii s)"

section \<open>Helpers\<close>

definition constantTimeEquals :: "bytes \<Rightarrow> bytes \<Rightarrow> nat \<Rightarrow> bool" where
  "constantTimeEquals a b len = (fold (\<lambda>i r. r OR (a ! i XOR b ! i)) [0..<len] 0 = 0)"

definition constantTimeStringEquals :: "bytes \<Rightarrow> bytes \<Rightarrow> bool" where
  "constantTimeStringEquals a b = (if length a \<noteq> length b then False else constantTimeEquals a b (length a))"

definition rpFieldMatchesPlainRpId :: "platform \<Rightarrow> bytes \<Rightarrow> bytes \<Rightarrow> bool" where
  "rpFieldMatchesPlainRpId p storedRpField plainRpId =
     (if constantTimeStringEquals storedRpField plainRpId then True
      else constantTimeStringEquals storedRpField (hashSHA256 p plainRpId))"

definition rpFieldMatchesHash :: "platform \<Rightarrow> bytes \<Rightarrow> bytes \<Rightarrow> bool" where
  "rpFieldMatchesHash p storedRpField hashHex =
     (if constantTimeStringEquals storedRpField hashHex then True
      else constantTimeStringEquals (hashSHA256 p storedRpField) hashHex)"

definition loadPersistedSignCount :: "ctap \<Rightarrow> u32" where
  "loadPersistedSignCount s = (if eeprom_word s = 0xFFFFFFFF then 0 else eeprom_word s)"

definition savePersistedSignCount :: "u32 \<Rightarrow> ctap \<Rightarrow> ctap" where
  "savePersistedSignCount n s = s\<lparr>eeprom_word := n\<rparr>"

definition initFidoAttestation :: "env \<Rightarrow> ctap \<Rightarrow> ctap" where
  "initFidoAttestation e s =
     (if attestationReady s then s
      else
        (case (loadAttestationCertChain (nvs_ok e) 2048 (sys s), loadAttestationPrivateKey (nvs_ok e) (sys s)) of
           (Some chain, Some k) \<Rightarrow>
             s\<lparr>attestationChainCache := chain, attestationPrivKeyCache := k, attestationProvisioned := True\<rparr>
         | _ \<Rightarrow> s\<lparr>attestationProvisioned := False, attestationChainCache := [],
             attestationPrivKeyCache := replicate 32 0\<rparr>)\<lparr>attestationReady := True\<rparr>)"

definition isBatchAttestationAvailable :: "ctap \<Rightarrow> bool" where
  "isBatchAttestationAvailable = attestationProvisioned"

definition getLeafAttestationCert :: "ctap \<Rightarrow> bytes option" where
  "getLeafAttestationCert s =
     (let cache = attestationChainCache s in
      if length cache < 3 then None
      else
        let certLen = unat (cache ! 1) * 256 + unat (cache ! 2) in
        if 3 + certLen > length cache then None else Some (take certLen (drop 3 cache)))"

definition initializeDynamicAaguid :: "env \<Rightarrow> ctap \<Rightarrow> ctap" where
  "initializeDynamicAaguid e s =
     (if isAaguidInitialized s then s
      else
        let mac = (case efuse_mac (plat e) of Some mac \<Rightarrow> mac | None \<Rightarrow> replicate 6 0xAA) in
        s\<lparr>dynamicAaguid := [0x4F, 0xA2, 0xB1, 0x3C, 0x7C, 0x89, 0x4E, 0x5B, 0xBC, 0x6D] @ mac,
          isAaguidInitialized := True\<rparr>)"

section \<open>Sessions of the PIN protocol\<close>

definition fidoEcdhSharedSecret :: "env \<Rightarrow> bytes \<Rightarrow> bytes \<Rightarrow> bytes option" where
  "fidoEcdhSharedSecret e devicePriv peerXY =
     map_option (mbed_sha256 (crypt e)) (mbedtls_ecdh e devicePriv (0x04 # peerXY))"

definition aesCbcZeroIv :: "bool \<Rightarrow> backends \<Rightarrow> bytes \<Rightarrow> bytes \<Rightarrow> bytes option" where
  "aesCbcZeroIv encrypt b k inp =
     (if length inp mod 16 \<noteq> 0 then None else accel_aes256_cbc b encrypt k (replicate 16 0) inp)"

definition aesCbcZeroIvEncrypt :: "backends \<Rightarrow> bytes \<Rightarrow> bytes \<Rightarrow> bytes option" where
  "aesCbcZeroIvEncrypt = aesCbcZeroIv True"

definition aesCbcZeroIvDecrypt :: "backends \<Rightarrow> bytes \<Rightarrow> bytes \<Rightarrow> bytes option" where
  "aesCbcZeroIvDecrypt = aesCbcZeroIv False"

definition hmacSha256Raw :: "backends \<Rightarrow> bytes \<Rightarrow> bytes \<Rightarrow> bytes" where
  "hmacSha256Raw = accel_hmac_sha256"

section \<open>User verification\<close>

text \<open>
  A reading of the sensor: the results of up to four \<open>getImage\<close> calls and of the feature extraction and
  the search, with the confidence of the match.
\<close>

datatype finger_code = FINGERPRINT_OK | FINGERPRINT_NOFINGER | FINGERPRINT_ERROR

record reading =
  getImage :: "nat \<Rightarrow> finger_code"
  image2Tz :: finger_code
  fingerSearch :: finger_code
  match_confidence :: u16

definition MAX_FAILED_UV_ATTEMPTS :: int where "MAX_FAILED_UV_ATTEMPTS = 8"

text \<open>\<open>for (retry = 0; retry < 3 && img != OK && img != NOFINGER; retry++) img = getImage()\<close>\<close>

fun retry_image :: "nat \<Rightarrow> (nat \<Rightarrow> finger_code) \<Rightarrow> finger_code \<Rightarrow> finger_code" where
  "retry_image 0 shot img = img"
| "retry_image (Suc n) shot img =
     (if img \<noteq> FINGERPRINT_OK \<and> img \<noteq> FINGERPRINT_NOFINGER then retry_image n (\<lambda>i. shot (Suc i)) (shot 0)
      else img)"

definition uv_reset :: "ctap \<Rightarrow> ctap" where
  "uv_reset s = s\<lparr>sys := resetFailedUvAttempts (sys s)\<rparr>"

definition uv_increment :: "env \<Rightarrow> ctap \<Rightarrow> ctap" where
  "uv_increment e s = s\<lparr>sys := incrementFailedUvAttempts (plat e) (sys s)\<rparr>"

definition fidoVerifyFingerprint :: "env \<Rightarrow> reading \<Rightarrow> ctap \<Rightarrow> bool \<times> ctap" where
  "fidoVerifyFingerprint e f s =
     (if getFailedUvAttempts (sys s) \<ge> MAX_FAILED_UV_ATTEMPTS then (False, s)
      else
        let bootstrapMode = (getBioTemplateCount (json_lib e) (sys s) = 0);
            img = retry_image 3 (\<lambda>i. getImage f (Suc i)) (getImage f 0) in
        if img \<noteq> FINGERPRINT_OK then (False, s)
        else if bootstrapMode then (True, uv_reset s)
        else if image2Tz f \<noteq> FINGERPRINT_OK then (False, uv_increment e s)
        else if fingerSearch f \<noteq> FINGERPRINT_OK then (False, uv_increment e s)
        else
          let s = s\<lparr>lastConfidenceScore := match_confidence f\<rparr> in
          if match_confidence f > 50 then (True, uv_reset s) else (False, uv_increment e s))"

text \<open>
  One turn of the verification loop: the clock at the condition, whether a cancel of this channel is
  pending, the clock at the keep-alive test and after the keep-alive, the reading, and the clock after
  a success.
\<close>

record turn =
  at_condition :: u32
  cancel_pending :: bool
  at_keepalive :: u32
  after_keepalive :: u32
  reading :: reading
  after_success :: u32

datatype verdict = Verified u32 | Canceled | Timed_Out

text \<open>\<open>if (millis() - lastKeepAlive > 500) \<dots>\<close>\<close>

definition keep_alive :: "turn \<Rightarrow> u32 \<Rightarrow> ctap \<Rightarrow> u32 \<times> ctap" where
  "keep_alive t lastKeepAlive s =
     (if at_keepalive t - lastKeepAlive > 500 then (after_keepalive t, send_hid 0xBB [2] s) else (lastKeepAlive, s))"

text \<open>The loop started at \<open>authStart\<close>; the result is \<open>None\<close> while it is still running after the turns listed.\<close>

fun uv_loop :: "env \<Rightarrow> u32 \<Rightarrow> turn list \<Rightarrow> u32 \<Rightarrow> ctap \<Rightarrow> (verdict \<times> ctap) option" where
  "uv_loop e authStart [] lastKeepAlive s = None"
| "uv_loop e authStart (t # ts) lastKeepAlive s =
     (if at_condition t - authStart < 15000 then
        if cancel_pending t then Some (Canceled, s\<lparr>hasPendingCommand := False\<rparr>)
        else
          let (lastKeepAlive, s) = keep_alive t lastKeepAlive s;
              (ok, s) = fidoVerifyFingerprint e (reading t) s in
          if ok then Some (Verified (after_success t), s) else uv_loop e authStart ts lastKeepAlive s
      else Some (Timed_Out, s))"

text \<open>What a command observes: \<open>millis()\<close> at its start and the turns of its verification loop.\<close>

record watch =
  now :: u32
  turns :: "turn list"

definition verify_user :: "env \<Rightarrow> watch \<Rightarrow> ctap \<Rightarrow> (verdict \<times> ctap) option" where
  "verify_user e w s = uv_loop e (now w) (turns w) 0 s"

text \<open>
  The variant of getAssertion, credentialManagement and bioEnrollment: a success less than five seconds
  ago counts, and a new one is remembered.
\<close>

definition verify_recent_user :: "env \<Rightarrow> watch \<Rightarrow> ctap \<Rightarrow> (verdict \<times> ctap) option" where
  "verify_recent_user e w s =
     (if lastFingerprintSuccessTime s > 0 \<and> now w - lastFingerprintSuccessTime s < 5000
      then Some (Verified (lastFingerprintSuccessTime s), s)
      else do {
        (v, s) \<leftarrow> verify_user e w s;
        Some (v, case v of Verified t \<Rightarrow> s\<lparr>lastFingerprintSuccessTime := t\<rparr> | _ \<Rightarrow> s) })"


section \<open>Replies that fit\<close>

text \<open>A call of the encoder that no limit of its method refuses.\<close>

fun call_ok :: "write_call \<Rightarrow> bool" where
  "call_ok (WNInt v) \<longleftrightarrow> v <s 0"
| "call_ok (WMap n) \<longleftrightarrow> n < 24"
| "call_ok (WArray n) \<longleftrightarrow> n \<le> 0xFF"
| "call_ok (WBytes b) \<longleftrightarrow> length b \<le> 0xFFFF"
| "call_ok (WText b) \<longleftrightarrow> length b \<le> 0xFF"
| "call_ok _ \<longleftrightarrow> True"

definition enc_len :: "write_call list \<Rightarrow> nat" where
  "enc_len cs = length (concat (map call_enc cs))"

lemma enc_len_simps [simp]: "enc_len [] = 0" "enc_len (c # cs) = length (call_enc c) + enc_len cs"
  by (simp_all add: enc_len_def)

lemma enc_len_append [simp]: "enc_len (cs @ ds) = enc_len cs + enc_len ds"
  by (simp add: enc_len_def)

lemma run_call_room:
  assumes "ewf e" "call_ok c" "eoff e + length (call_enc c) + 9 < ecap e" "ecap e < 2 ^ 31"
  shows "\<exists>e'. run_call c e = Some (True, e') \<and> emits e (call_enc c) e'"
proof -
  have "may_emit (run_call c e) e (call_enc c)"
    using assms by (intro call_op.writes) (auto simp: ewf_def)
  moreover have "run_call c e \<noteq> Some (False, e)"
  proof -
    have s: "sz (eoff e + n) = eoff e + n" if "n \<le> length (call_enc c) + 9" for n
      using assms(3,4) that by (intro sz_small) simp
    show ?thesis
    proof (cases c)
      case (WBytes b)
      then have "length b \<le> length (call_enc c)" by simp
      then show ?thesis using assms WBytes s [of "length b + 3"]
        by (simp add: writeByteString_def Let_def add.assoc)
    next
      case (WText b)
      then have "length b \<le> length (call_enc c)" by simp
      then show ?thesis using assms WText s [of "1 + (length b + 2)"]
        by (simp add: writeTextString_def Let_def add.assoc)
    qed (use assms s [of 1] s [of 2] s [of 4] s [of 8] in \<open>auto simp: writeUnsignedInt_def writeNegativeInt_def
        writeMapHeader_def writeArrayHeader_def writeBoolean_def writeNull_def Let_def not_le\<close>)
  qed
  ultimately show ?thesis by (auto simp: may_emit_def)
qed


lemma run_calls_room:
  assumes "ewf e" "\<forall>c \<in> set cs. call_ok c" "eoff e + enc_len cs + 9 < ecap e" "ecap e < 2 ^ 31"
  shows "\<exists>oks e'. run_calls cs e = Some (oks, e') \<and> written e' = written e @ concat (map call_enc cs)"
  using assms
proof (induction cs arbitrary: e)
  case (Cons c cs)
  obtain e1 where 1: "run_call c e = Some (True, e1)" "emits e (call_enc c) e1"
    using run_call_room [of e c] Cons.prems by auto
  have "ewf e1" using emits_ewf Cons.prems(1) 1(2) by blast
  moreover have "eoff e1 + enc_len cs + 9 < ecap e1" "ecap e1 < 2 ^ 31"
    using Cons.prems(3,4) 1(2) by (simp_all add: emits_def)
  ultimately obtain oks e2 where "run_calls cs e1 = Some (oks, e2)" "written e2 = written e1 @ concat (map call_enc cs)"
    using Cons.IH [of e1] Cons.prems(2) by auto
  with 1 show ?case by (auto simp: emits_def)
qed simp

lemma new_encoder_ok: "ewf (new_encoder (replicate 8191 0))" "written (new_encoder b) = []"
  by (simp_all add: ewf_def new_encoder_def written_def)

lemma respond_fits:
  assumes "\<forall>c \<in> set cs. call_ok c" "enc_len cs + 9 < 8191"
  shows "respond cs s = Some (send_hid 0x90 (0 # concat (map call_enc cs)) s)"
proof -
  obtain oks e where "run_calls cs (new_encoder (replicate 8191 0)) = Some (oks, e)" "written e = concat (map call_enc cs)"
    using run_calls_room [OF new_encoder_ok(1) assms(1)] assms(2) new_encoder_ok(2) [of "replicate 8191 0"]
    by (auto simp: new_encoder_def)
  then show ?thesis by (simp add: respond_def)
qed

text \<open>What does not fit is left out; the reply is never longer than the buffer.\<close>

lemma respond_total:
  assumes "\<forall>c \<in> set cs. length (call_enc c) < 2 ^ 31"
  shows "\<exists>d. respond cs s = Some (send_hid 0x90 (0 # d) s) \<and> length d \<le> 8191"
proof -
  have "\<forall>c \<in> set cs. ecap (new_encoder (replicate 8191 0)) + length (call_enc c) + 8 < 2 ^ 32"
    using assms by (auto simp: new_encoder_def)
  then obtain oks e where "run_calls cs (new_encoder (replicate 8191 0)) = Some (oks, e)" "ewf e"
    "ecap e = ecap (new_encoder (replicate 8191 0))"
    using run_calls_ok [OF new_encoder_ok(1)] by blast
  moreover from this(2,3) have "length (written e) \<le> 8191"
    by (simp add: ewf_def written_def new_encoder_def)
  ultimately show ?thesis by (auto simp: respond_def)
qed

lemma empty_reply: "respond [WMap 0] s = Some (send_hid 0x90 [0, 0xA0] s)"
proof -
  have "head 5 0 = [0xA0]" by code_simp
  then show ?thesis using respond_fits [of "[WMap 0]" s] by simp
qed

section \<open>Enumerations\<close>

text \<open>
  Three commands hand out a list one element per call: relying parties, credentials and assertions. The
  contract of such a command: while elements are left it answers for the next one and advances, then it
  answers \<open>finished\<close>.
\<close>

locale enumeration =
  fixes step :: "'s \<Rightarrow> 's option" and items :: "'s \<Rightarrow> 'a list" and idx :: "'s \<Rightarrow> nat"
    and out :: "'s \<Rightarrow> 'o list" and good :: "'s \<Rightarrow> bool" and answers :: "'a \<Rightarrow> 'o \<Rightarrow> bool" and finished :: 'o
  assumes item: "good s \<Longrightarrow> idx s < length (items s) \<Longrightarrow> \<exists>s' x. step s = Some s' \<and> good s' \<and>
      items s' = items s \<and> idx s' = idx s + 1 \<and> out s' = out s @ [x] \<and> answers (items s ! idx s) x"
    and no_item: "good s \<Longrightarrow> \<not> idx s < length (items s) \<Longrightarrow> \<exists>s'. step s = Some s' \<and> out s' = out s @ [finished]"
begin

lemma all_items:
  "good s \<Longrightarrow> idx s \<le> length (items s) \<Longrightarrow> length (items s) - idx s = n \<Longrightarrow>
    \<exists>s' xs. rounds (Suc n) step s = Some s' \<and> out s' = out s @ xs @ [finished] \<and>
      list_all2 answers (drop (idx s) (items s)) xs"
proof (induction n arbitrary: s)
  case 0
  then show ?case using no_item [of s] by (auto intro!: exI [of _ "[]"])
next
  case (Suc n)
  then have l: "idx s < length (items s)" by simp
  obtain s1 x where s1: "step s = Some s1" "good s1" "items s1 = items s" "idx s1 = idx s + 1"
    "out s1 = out s @ [x]" "answers (items s ! idx s) x"
    using item [OF Suc.prems(1) l] by blast
  have "idx s1 \<le> length (items s1)" "length (items s1) - idx s1 = n" using l Suc.prems(3) s1(3,4) by simp_all
  then obtain s' xs where "rounds (Suc n) step s1 = Some s'" "out s' = out s1 @ xs @ [finished]"
    "list_all2 answers (drop (idx s1) (items s1)) xs"
    using Suc.IH [OF s1(2)] by blast
  moreover have "drop (idx s) (items s) = items s ! idx s # drop (idx s + 1) (items s)"
    using l by (simp add: Cons_nth_drop_Suc)
  ultimately show ?case using s1 by (intro exI [of _ s'] exI [of _ "x # xs"]) simp
qed

end

section \<open>Comparison in constant time\<close>

lemma xor_eq_0: "x XOR y = 0 \<longleftrightarrow> x = (y :: 'a::len word)"
  by (metis xor.assoc xor.left_neutral xor.right_neutral xor_self_eq)

lemma or_xor_fold:
  "fold (\<lambda>i r. r OR (a ! i XOR b ! i)) xs (r :: u8) = 0 \<longleftrightarrow> r = 0 \<and> (\<forall>i \<in> set xs. a ! i = b ! i)"
proof (induction xs arbitrary: r)
  case (Cons x xs)
  have "r OR (a ! x XOR b ! x) = 0 \<longleftrightarrow> r = 0 \<and> a ! x = b ! x"
    using xor_eq_0 [of "a ! x" "b ! x"] by (simp add: or_eq_0_iff)
  then show ?case by (auto simp: Cons)
qed simp

lemma constantTimeEquals_eq:
  assumes "length a = n" "length b = n"
  shows "constantTimeEquals a b n \<longleftrightarrow> a = b"
  unfolding constantTimeEquals_def or_xor_fold
  using nth_equalityI [of a b] assms by auto

lemma constantTimeStringEquals_eq: "constantTimeStringEquals a b \<longleftrightarrow> a = b"
  using constantTimeEquals_eq [of a "length a" b] unfolding constantTimeStringEquals_def by metis

section \<open>What user verification promises\<close>

text \<open>A reading that is accepted when the attempts are not used up: a touch, and a match once a finger is enrolled.\<close>

definition accepted :: "env \<Rightarrow> system \<Rightarrow> reading \<Rightarrow> bool" where
  "accepted e t f \<longleftrightarrow> getFailedUvAttempts t < MAX_FAILED_UV_ATTEMPTS \<and>
     retry_image 3 (\<lambda>i. getImage f (Suc i)) (getImage f 0) = FINGERPRINT_OK \<and>
     (getBioTemplateCount (json_lib e) t = 0 \<or>
      image2Tz f = FINGERPRINT_OK \<and> fingerSearch f = FINGERPRINT_OK \<and> match_confidence f > 50)"

lemma verify_accepts: "fst (fidoVerifyFingerprint e f s) \<longleftrightarrow> accepted e (sys s) f"
  by (simp add: fidoVerifyFingerprint_def accepted_def Let_def)

text \<open>Only the counter of failed attempts changes, and the bookkeeping of the loop.\<close>

definition same_but_attempts :: "system \<Rightarrow> system \<Rightarrow> bool" where
  "same_but_attempts t t' \<longleftrightarrow> t\<lparr>files := files t'\<rparr> = t' \<and> (\<forall>q. q \<noteq> ''/fido_uv_fail.txt'' \<longrightarrow> files t' q = files t q)"

definition uv_frame :: "ctap \<Rightarrow> ctap \<Rightarrow> bool" where
  "uv_frame s s' \<longleftrightarrow> same_but_attempts (sys s) (sys s') \<and>
     (\<exists>n c h. s\<lparr>sys := sys s', lastConfidenceScore := c, hasPendingCommand := h,
       sent := sent s @ replicate n (0xBB, [2])\<rparr> = s')"

lemma same_refl [simp]: "same_but_attempts t t"
  by (simp add: same_but_attempts_def)

lemma same_trans:
  assumes "same_but_attempts t u" "same_but_attempts u v"
  shows "same_but_attempts t v"
proof -
  have "t\<lparr>files := files u\<rparr> = u" "u\<lparr>files := files v\<rparr> = v"
    using assms by (simp_all add: same_but_attempts_def)
  then have "t\<lparr>files := files u, files := files v\<rparr> = v" by simp
  then show ?thesis using assms by (simp add: same_but_attempts_def)
qed

lemma same_reset: "same_but_attempts t (resetFailedUvAttempts t)"
  by (simp add: same_but_attempts_def resetFailedUvAttempts_def remove_file_def)

lemma same_increment: "same_but_attempts t (incrementFailedUvAttempts p t)"
  by (simp add: same_but_attempts_def incrementFailedUvAttempts_def write_file_def)

lemma uv_frame_refl: "uv_frame s s"
  unfolding uv_frame_def
  by (intro conjI exI [of _ 0] exI [of _ "lastConfidenceScore s"] exI [of _ "hasPendingCommand s"]) simp_all

lemma uv_frameI:
  "same_but_attempts (sys s) t \<Longrightarrow> uv_frame s (s\<lparr>sys := t, lastConfidenceScore := c, hasPendingCommand := h,
       sent := sent s @ replicate n (0xBB, [2])\<rparr>)"
  unfolding uv_frame_def
  by (intro conjI exI [of _ n] exI [of _ c] exI [of _ h]) simp_all

lemma uv_frame_trans: "uv_frame s s1 \<Longrightarrow> uv_frame s1 s2 \<Longrightarrow> uv_frame s s2"
proof -
  assume "uv_frame s s1" "uv_frame s1 s2"
  then obtain n c h m c' h' where f: "same_but_attempts (sys s) (sys s1)" "same_but_attempts (sys s1) (sys s2)"
    "s\<lparr>sys := sys s1, lastConfidenceScore := c, hasPendingCommand := h, sent := sent s @ replicate n (0xBB, [2])\<rparr> = s1"
    "s1\<lparr>sys := sys s2, lastConfidenceScore := c', hasPendingCommand := h', sent := sent s1 @ replicate m (0xBB, [2])\<rparr> = s2"
    unfolding uv_frame_def by blast
  have "sent s1 = sent s @ replicate n (0xBB, [2])" by (subst f(3) [symmetric]) simp
  then have "s\<lparr>sys := sys s2, lastConfidenceScore := c', hasPendingCommand := h',
      sent := sent s @ replicate (n + m) (0xBB, [2])\<rparr> = s2"
    by (subst f(4) [symmetric], subst f(3) [symmetric]) (simp add: replicate_add)
  with same_trans [OF f(1,2)] show "uv_frame s s2" unfolding uv_frame_def by blast
qed

lemma uv_frameD:
  assumes "uv_frame s s'"
  shows "same_but_attempts (sys s) (sys s')" "nonces s' = nonces s" "eeprom_word s' = eeprom_word s"
    "lastFingerprintSuccessTime s' = lastFingerprintSuccessTime s" "defaultCryptoAlg s' = defaultCryptoAlg s"
    "attestationProvisioned s' = attestationProvisioned s" "attestationChainCache s' = attestationChainCache s"
    "attestationPrivKeyCache s' = attestationPrivKeyCache s" "dynamicAaguid s' = dynamicAaguid s"
    "nextAssertionCreds s' = nextAssertionCreds s" "nextAssertionIdx s' = nextAssertionIdx s"
    "largeBlobWriteBuffer s' = largeBlobWriteBuffer s" "largeBlobExpectedTotalLen s' = largeBlobExpectedTotalLen s"
    "largeBlobReceivedLen s' = largeBlobReceivedLen s" "enumRpList s' = enumRpList s" "enumRpIdx s' = enumRpIdx s"
    "enumCredList s' = enumCredList s" "enumCredIdx s' = enumCredIdx s"
    "\<exists>n. sent s' = sent s @ replicate n (0xBB, [2])"
proof -
  obtain t n c h where "s' = s\<lparr>sys := t, lastConfidenceScore := c, hasPendingCommand := h,
      sent := sent s @ replicate n (0xBB, [2])\<rparr>"
    using assms unfolding uv_frame_def by metis
  then show "nonces s' = nonces s" "eeprom_word s' = eeprom_word s"
    "lastFingerprintSuccessTime s' = lastFingerprintSuccessTime s" "defaultCryptoAlg s' = defaultCryptoAlg s"
    "attestationProvisioned s' = attestationProvisioned s" "attestationChainCache s' = attestationChainCache s"
    "attestationPrivKeyCache s' = attestationPrivKeyCache s" "dynamicAaguid s' = dynamicAaguid s"
    "nextAssertionCreds s' = nextAssertionCreds s" "nextAssertionIdx s' = nextAssertionIdx s"
    "largeBlobWriteBuffer s' = largeBlobWriteBuffer s" "largeBlobExpectedTotalLen s' = largeBlobExpectedTotalLen s"
    "largeBlobReceivedLen s' = largeBlobReceivedLen s" "enumRpList s' = enumRpList s" "enumRpIdx s' = enumRpIdx s"
    "enumCredList s' = enumCredList s" "enumCredIdx s' = enumCredIdx s"
    "\<exists>n. sent s' = sent s @ replicate n (0xBB, [2])"
    by auto
qed (use assms in \<open>simp add: uv_frame_def\<close>)

lemma same_files: "same_but_attempts t t' \<Longrightarrow> q \<noteq> ''/fido_uv_fail.txt'' \<Longrightarrow> files t' q = files t q"
  by (simp add: same_but_attempts_def)

lemma verify_frame: "uv_frame s (snd (fidoVerifyFingerprint e f s))"
proof -
  have k: "uv_frame s (s\<lparr>sys := t\<rparr>)" if "same_but_attempts (sys s) t" for t
    using uv_frameI [OF that, where c = "lastConfidenceScore s" and h = "hasPendingCommand s" and n = 0] by simp
  have k': "uv_frame s (s\<lparr>lastConfidenceScore := c, sys := t\<rparr>)" if "same_but_attempts (sys s) t" for t c
  proof -
    have "s\<lparr>lastConfidenceScore := c, sys := t\<rparr> = s\<lparr>sys := t, lastConfidenceScore := c\<rparr>"
      by (rule ctap.equality) simp_all
    from this [symmetric] show ?thesis
      using uv_frameI [OF that, where c = c and h = "hasPendingCommand s" and n = 0]
      by (elim subst) simp
  qed
  show ?thesis
    unfolding fidoVerifyFingerprint_def Let_def uv_reset_def uv_increment_def
    by (auto intro: k k' uv_frame_refl same_reset same_increment)
qed

text \<open>The loop: what it changes, and what a positive verdict means.\<close>

lemma uv_frame_keep: "uv_frame s (snd (keep_alive t l s))"
  using uv_frameI [OF same_refl, where s = s and c = "lastConfidenceScore s" and h = "hasPendingCommand s" and n = 1]
    uv_frame_refl [of s]
  by (simp add: keep_alive_def send_hid_def)

lemma uv_frame_cancel: "uv_frame s (s\<lparr>hasPendingCommand := h\<rparr>)"
  using uv_frameI [OF same_refl, where s = s and c = "lastConfidenceScore s" and h = h and n = 0] by simp

lemma uv_loop_frame: "uv_loop e a ts l s = Some (v, s') \<Longrightarrow> uv_frame s s'"
proof (induction ts arbitrary: l s)
  case (Cons t ts)
  obtain l1 s1 where k: "keep_alive t l s = (l1, s1)" by fastforce
  obtain ok s2 where f: "fidoVerifyFingerprint e (reading t) s1 = (ok, s2)" by fastforce
  have "uv_frame s s2"
    using uv_frame_trans uv_frame_keep [of s t l] verify_frame [of s1 e "reading t"] k f by force
  then show ?case
    using Cons uv_frame_trans by (auto simp: k f split: if_splits intro: uv_frame_refl uv_frame_cancel)
qed simp

text \<open>No reading changes the number of enrolled fingers.\<close>

lemma bio_doc_same: "same_but_attempts t t' \<Longrightarrow> bio_doc j t' = bio_doc j t"
  by (simp add: same_but_attempts_def bio_doc_def)

definition user_seen :: "env \<Rightarrow> system \<Rightarrow> u32 \<Rightarrow> turn \<Rightarrow> bool" where
  "user_seen e t0 authStart t \<longleftrightarrow> at_condition t - authStart < 15000 \<and>
     (\<exists>t'. same_but_attempts t0 t' \<and> accepted e t' (reading t))"

lemma user_seen_mono: "same_but_attempts t t' \<Longrightarrow> user_seen e t' a u \<Longrightarrow> user_seen e t a u"
  unfolding user_seen_def using same_trans by blast

lemma uv_loop_verified:
  "uv_loop e a ts l s = Some (Verified d, s') \<Longrightarrow> \<exists>t \<in> set ts. d = after_success t \<and> user_seen e (sys s) a t"
proof (induction ts arbitrary: l s)
  case (Cons t ts)
  obtain l1 s1 where k: "keep_alive t l s = (l1, s1)" by fastforce
  obtain ok s2 where f: "fidoVerifyFingerprint e (reading t) s1 = (ok, s2)" by fastforce
  have s1: "sys s1 = sys s" using k by (auto simp: keep_alive_def send_hid_def split: if_splits)
  show ?case
  proof (cases ok)
    case True
    then have "accepted e (sys s1) (reading t)" using verify_accepts [of e "reading t" s1] f by simp
    then show ?thesis using Cons.prems True s1 same_refl
      by (auto simp: k f user_seen_def split: if_splits)
  next
    case False
    then have "uv_loop e a ts l1 s2 = Some (Verified d, s')" using Cons.prems by (auto simp: k f split: if_splits)
    then obtain u where "u \<in> set ts" "d = after_success u" "user_seen e (sys s2) a u" using Cons.IH by blast
    moreover have "same_but_attempts (sys s) (sys s2)"
      using verify_frame [of s1 e "reading t"] f s1 by (simp add: uv_frame_def)
    ultimately show ?thesis using user_seen_mono [of "sys s" "sys s2" e a u] by simp blast
  qed
qed simp

section \<open>The loop ends\<close>

text \<open>The clock at the loop condition: every turn takes at least the 50 ms of its \<open>delay\<close>, and less than 49 days.\<close>

fun ticking :: "u32 \<Rightarrow> turn list \<Rightarrow> bool" where
  "ticking c [] \<longleftrightarrow> True"
| "ticking c (t # ts) \<longleftrightarrow> 50 \<le> at_condition t - c \<and> at_condition t - c < 4294952296 \<and> ticking (at_condition t) ts"

lemma uv_loop_ends:
  "ticking (at_condition t) ts \<Longrightarrow> 15000 \<le> unat (at_condition t - a) + 50 * length ts \<Longrightarrow>
    uv_loop e a (t # ts) l s \<noteq> None"
proof (induction ts arbitrary: t l s)
  case Nil
  then have "\<not> at_condition t - a < 15000" by (simp add: word_less_nat_alt)
  then show ?case by simp
next
  case (Cons u ts)
  show ?case
  proof (cases "at_condition t - a < 15000")
    case True
    have "at_condition u - a = (at_condition u - at_condition t) + (at_condition t - a)" by simp
    moreover have "unat (at_condition u - at_condition t) + unat (at_condition t - a) < 2 ^ 32"
      using True Cons.prems(1) by (simp add: word_less_nat_alt)
    ultimately have "unat (at_condition u - a) = unat (at_condition u - at_condition t) + unat (at_condition t - a)"
      using unat_add_lem [of "at_condition u - at_condition t" "at_condition t - a"] by simp
    then have "15000 \<le> unat (at_condition u - a) + 50 * length ts"
      using Cons.prems by (simp add: word_le_nat_alt)
    then have "uv_loop e a (u # ts) l s \<noteq> None" for l s
      using Cons.IH Cons.prems(1) by simp
    then show ?thesis by (auto split: prod.split)
  qed simp
qed

section \<open>Attempts are bounded\<close>

fun read_fingers :: "env \<Rightarrow> reading list \<Rightarrow> ctap \<Rightarrow> bool list \<times> ctap" where
  "read_fingers e [] s = ([], s)"
| "read_fingers e (f # fs) s =
     (case fidoVerifyFingerprint e f s of (r, s) \<Rightarrow> case read_fingers e fs s of (rs, s) \<Rightarrow> (r # rs, s))"

text \<open>A touch by a finger that does not match.\<close>

definition wrong_finger :: "reading \<Rightarrow> bool" where
  "wrong_finger f \<longleftrightarrow> getImage f 0 = FINGERPRINT_OK \<and>
     (image2Tz f \<noteq> FINGERPRINT_OK \<or> fingerSearch f \<noteq> FINGERPRINT_OK \<or> match_confidence f \<le> 50)"

lemma uv_count_increment:
  assumes "can_open p ''/fido_uv_fail.txt''" "0 \<le> getFailedUvAttempts t" "getFailedUvAttempts t < 8"
  shows "getFailedUvAttempts (incrementFailedUvAttempts p t) = getFailedUvAttempts t + 1"
  using assms by (simp add: incrementFailedUvAttempts_def getFailedUvAttempts_def [of "write_file _ _ _ _"] toInt_show_int)

lemma wrong_finger_counts:
  assumes "wrong_finger f" "can_open (plat e) ''/fido_uv_fail.txt''" "getBioTemplateCount (json_lib e) (sys s) \<noteq> 0"
    "getFailedUvAttempts (sys s) = int n"
  obtains s' where "fidoVerifyFingerprint e f s = (False, s')" "getBioTemplateCount (json_lib e) (sys s') \<noteq> 0"
    "getFailedUvAttempts (sys s') = int (if n < 8 then n + 1 else n)"
proof -
  obtain r s' where v: "fidoVerifyFingerprint e f s = (r, s')" by fastforce
  have w: "\<not> match_confidence f > 50 \<or> image2Tz f \<noteq> FINGERPRINT_OK \<or> fingerSearch f \<noteq> FINGERPRINT_OK"
    "retry_image 3 (\<lambda>i. getImage f (Suc i)) (getImage f 0) = FINGERPRINT_OK"
    using assms(1) by (auto simp: wrong_finger_def eval_nat_numeral)
  then have "\<not> r" using verify_accepts [of e f s] assms(3) v by (auto simp: accepted_def)
  moreover have "getBioTemplateCount (json_lib e) (sys s') \<noteq> 0"
    using bio_doc_same [of "sys s" "sys s'" "json_lib e"] verify_frame [of s e f] v assms(3)
    by (simp add: uv_frame_def getBioTemplateCount_def getAllBioTemplateIds_def)
  moreover have "getFailedUvAttempts (sys s') = int (if n < 8 then n + 1 else n)"
    using v w assms uv_count_increment [OF assms(2), of "sys s"]
    by (auto simp: fidoVerifyFingerprint_def MAX_FAILED_UV_ATTEMPTS_def uv_increment_def Let_def split: if_splits)
  ultimately show thesis using v that by simp
qed

lemma wrong_fingers_block:
  assumes "can_open (plat e) ''/fido_uv_fail.txt''"
  shows "\<forall>f \<in> set fs. wrong_finger f \<Longrightarrow> getBioTemplateCount (json_lib e) (sys s) \<noteq> 0 \<Longrightarrow>
    getFailedUvAttempts (sys s) = int n \<Longrightarrow> n \<le> 8 \<Longrightarrow>
    fst (read_fingers e fs s) = replicate (length fs) False \<and>
    getFailedUvAttempts (sys (snd (read_fingers e fs s))) = int (min 8 (n + length fs))"
proof (induction fs arbitrary: s n)
  case (Cons f fs)
  obtain s' where s': "fidoVerifyFingerprint e f s = (False, s')" "getBioTemplateCount (json_lib e) (sys s') \<noteq> 0"
    "getFailedUvAttempts (sys s') = int (if n < 8 then n + 1 else n)"
    using Cons.prems wrong_finger_counts [OF _ assms] by (metis list.set_intros(1))
  then show ?case
    using Cons.IH [of s' "if n < 8 then n + 1 else n"] Cons.prems
    by (auto simp: min_def split: prod.splits if_splits)
qed simp

section \<open>Properties\<close>


definition toy_env :: env where
  "toy_env = \<lparr>plat = toy_platform, json_lib = toy_json, signing = toy_signers, nvs_ok = True,
     mbedtls_ecdh = (\<lambda>d p. Some (take 32 p))\<rparr>"

text \<open>An environment whose primitives keep every law assumed of them.\<close>

definition good_env :: env where
  "good_env = toy_env\<lparr>plat := toy_platform\<lparr>backend := toy_gcm\<lparr>fpga_sha256 := (\<lambda>x. None),
     fpga_hmac_sha256 := (\<lambda>k x. None), mbed_sha256 := (\<lambda>x. take 32 (rev x @ replicate 32 0)),
     mbed_hmac_sha256 := (\<lambda>k x. replicate 32 7), mbed_aes_cbc := (\<lambda>k e iv x. Some (rev x))\<rparr>\<rparr>\<rparr>"

lemma good_env_ok:
  "consistent (crypt good_env)" "primitives_ok (crypt good_env)" "sound (plat good_env)" "can_open (plat good_env) q"
  by (auto simp: consistent_def primitives_ok_def sound_def roomy_def gcm_ok_def good_env_def toy_env_def toy_platform_def
      toy_gcm_def toy_backends_def min_def)

definition toy_ctap :: ctap where
  "toy_ctap = \<lparr>sys = open_system, nonces = booted, eeprom_word = 0xFFFFFFFF, lastFingerprintSuccessTime = 0,
     lastConfidenceScore = 0, defaultCryptoAlg = - 7, hasPendingCommand = False, attestationReady = True,
     attestationProvisioned = False, attestationChainCache = [], attestationPrivKeyCache = replicate 32 0,
     dynamicAaguid = replicate 16 0, isAaguidInitialized = False, nextAssertionCreds = [], nextAssertionIdx = 0,
     nextAssertionClientHash = replicate 32 0, nextAssertionRpId = [], nextAssertionOptionUV = False,
     nextAssertionExtReq = False, nextAssertionSalt1 = [], nextAssertionSalt2 = [], nextAssertionLargeBlobReq = False,
     nextAssertionCredBlobReq = False, largeBlobWriteBuffer = None, largeBlobExpectedTotalLen = 0,
     largeBlobReceivedLen = 0, enumRpList = [], enumRpIdx = 0, enumCredList = [], enumCredIdx = 0,
     sessionPrivateKey = replicate 32 0, sessionKeyValid = False, sessionSharedSecret = replicate 32 0,
     activeAuthToken = replicate 32 0, bioEnrollActive = False, bioEnrollTemplateId = 0,
     bioEnrollSamplesRequired = 2, bioEnrollSamplesRemaining = 0, sent = []\<rparr>"

definition touch :: reading where
  "touch = \<lparr>getImage = (\<lambda>i. FINGERPRINT_OK), image2Tz = FINGERPRINT_OK, fingerSearch = FINGERPRINT_OK,
     match_confidence = 80\<rparr>"

definition toy_turn :: "u32 \<Rightarrow> turn" where
  "toy_turn c = \<lparr>at_condition = c, cancel_pending = False, at_keepalive = c, after_keepalive = c, reading = touch,
     after_success = c + 3\<rparr>"


text \<open>
  C22: with a finger enrolled, after eight touches of a wrong finger in a row, no reading is accepted
  any more, not even the right finger's.
\<close>

theorem uv_attempts_bounded:
  assumes "can_open (plat e) ''/fido_uv_fail.txt''" "getBioTemplateCount (json_lib e) (sys s) \<noteq> 0"
    "getFailedUvAttempts (sys s) = 0" "\<forall>f \<in> set fs. wrong_finger f" "8 \<le> length fs"
  shows "fst (read_fingers e fs s) = replicate (length fs) False \<and>
    \<not> fst (fidoVerifyFingerprint e f (snd (read_fingers e fs s)))"
  using wrong_fingers_block [OF assms(1,4,2), of 0] assms(3,5)
  by (simp add: verify_accepts accepted_def MAX_FAILED_UV_ATTEMPTS_def)

definition enrolled_ctap :: ctap where
  "enrolled_ctap = toy_ctap\<lparr>sys := open_system\<lparr>files := [''/bio_templates.json'' \<mapsto> ser_obj toy_json [(ascii ''1'', ascii ''a'')]]\<rparr>\<rparr>"

theorem uv_attempts_bounded_witness:
  "\<not> fst (fidoVerifyFingerprint toy_env touch
     (snd (read_fingers toy_env (replicate 8 (touch\<lparr>match_confidence := 20\<rparr>)) enrolled_ctap)))"
proof -
  have "getBioTemplateCount (json_lib toy_env) (sys enrolled_ctap) \<noteq> 0"
    by (simp add: getBioTemplateCount_def getAllBioTemplateIds_def bio_doc_def enrolled_ctap_def toy_env_def or_empty_def
        json_okD(2) [OF toy_json_ok])
  then show ?thesis
    using uv_attempts_bounded [of toy_env enrolled_ctap "replicate 8 (touch\<lparr>match_confidence := 20\<rparr>)" touch]
    by (simp add: wrong_finger_def touch_def toy_env_def toy_platform_def enrolled_ctap_def open_system_def
        getFailedUvAttempts_def)
qed

text \<open>
  Without an enrolled finger any touch is accepted, and reported as user verification.
\<close>

lemma bootstrap_accepts_any_touch:
  "getBioTemplateCount (json_lib e) t = 0 \<Longrightarrow> getFailedUvAttempts t < 8 \<Longrightarrow> getImage f 0 = FINGERPRINT_OK \<Longrightarrow>
    accepted e t f"
  by (simp add: accepted_def MAX_FAILED_UV_ATTEMPTS_def eval_nat_numeral)

text \<open>A rejected finger is never matched again: the counter is reset by a match only, which it prevents.\<close>

lemma blocked_for_good: "8 \<le> getFailedUvAttempts (sys s) \<Longrightarrow> fidoVerifyFingerprint e f s = (False, s)"
  by (simp add: fidoVerifyFingerprint_def MAX_FAILED_UV_ATTEMPTS_def)

end
