(* ===== verification/CtapPin.thy ===== *)
theory CtapPin
  imports Ctap
begin

text \<open>
  authenticatorClientPIN (0x06) of \<open>src/FIDO2Manager.cpp\<close>. The random token of \<open>esp_fill_random\<close> is an
  argument.
\<close>

definition pin_retries :: "ctap \<Rightarrow> ctap option" where
  "pin_retries s = respond [WMap 1, WUInt 3, WUInt (word_of_int (10 - getFailedFidoPinAttempts (sys s)))] s"

text \<open>
  The result of \<open>generateKeypairP256\<close> is ignored: when it fails, uninitialized bytes are sent as the
  public key.
\<close>

definition pin_key_agreement :: "env \<Rightarrow> ctap \<Rightarrow> ctap option" where
  "pin_key_agreement e s =
     (case generateKeypairP256 (signing e) of
        None \<Rightarrow> None
      | Some (priv, pubKey) \<Rightarrow>
          respond [WMap 1, WUInt 1, WMap 5, WUInt 1, WUInt 2, WUInt 3, WNInt (- 7), WNInt (- 1), WUInt 1,
              WNInt (- 2), WBytes (take 32 (drop 1 pubKey)), WNInt (- 3), WBytes (take 32 (drop 33 pubKey))]
            (s\<lparr>sessionPrivateKey := priv, sessionKeyValid := True\<rparr>))"

text \<open>The shared secret, when the parameters have the expected lengths.\<close>

definition agree :: "env \<Rightarrow> pin_req \<Rightarrow> bool \<Rightarrow> ctap \<Rightarrow> bytes option" where
  "agree e r lengths_ok s =
     (case cpKeyAgreement r of
        Some xy \<Rightarrow> if sessionKeyValid s \<and> lengths_ok \<and> 16 \<le> length (cpPinAuth r)
          then fidoEcdhSharedSecret e (sessionPrivateKey s) xy else None
      | None \<Rightarrow> None)"

text \<open>The characters before the first NUL of the padded PIN become the new PIN.\<close>

definition store_pin :: "env \<Rightarrow> bytes \<Rightarrow> ctap \<Rightarrow> ctap option" where
  "store_pin e paddedPin s =
     (case createFidoPin (plat e) (takeWhile (\<lambda>b. b \<noteq> 0) paddedPin) (sys s) of
        (created, t) \<Rightarrow>
          let s = s\<lparr>sys := t\<rparr> in if created then respond [WMap 0] s else fail_with 0x37 s)"

definition pin_set :: "env \<Rightarrow> pin_req \<Rightarrow> ctap \<Rightarrow> ctap option" where
  "pin_set e r s =
     (if isFidoPinSet (sys s) then fail_with 0x30 s
      else case agree e r (length (cpNewPinEnc r) = 64) s of
          None \<Rightarrow> fail_with 0x30 s
        | Some k \<Rightarrow>
            let s = s\<lparr>sessionSharedSecret := k\<rparr> in
            if take 16 (hmacSha256Raw (crypt e) k (cpNewPinEnc r)) \<noteq> take 16 (cpPinAuth r) then fail_with 0x30 s
            else case aesCbcZeroIvDecrypt (crypt e) k (cpNewPinEnc r) of
                None \<Rightarrow> fail_with 0x30 s
              | Some paddedPin \<Rightarrow> store_pin e paddedPin s)"

definition pin_change :: "env \<Rightarrow> pin_req \<Rightarrow> ctap \<Rightarrow> ctap option" where
  "pin_change e r s =
     (if \<not> isFidoPinSet (sys s) then fail_with 0x35 s
      else if getFailedFidoPinAttempts (sys s) \<ge> 10 then fail_with 0x32 s
      else case agree e r (length (cpNewPinEnc r) = 64 \<and> length (cpPinHashEnc r) = 16) s of
          None \<Rightarrow> fail_with 0x30 s
        | Some k \<Rightarrow>
            let s = s\<lparr>sessionSharedSecret := k\<rparr> in
            if take 16 (hmacSha256Raw (crypt e) k (cpNewPinEnc r @ cpPinHashEnc r)) \<noteq> take 16 (cpPinAuth r)
            then fail_with 0x30 s
            else if \<not> (case aesCbcZeroIvDecrypt (crypt e) k (cpPinHashEnc r) of
                Some oldPinHash \<Rightarrow> verifyFidoPinHashInternal oldPinHash (sys s) | None \<Rightarrow> False)
            then fail_with 0x31 (s\<lparr>sys := incrementFailedFidoPinAttempts (plat e) (sys s)\<rparr>)
            else
              let s = s\<lparr>sys := resetFailedFidoPinAttempts (sys s)\<rparr> in
              case aesCbcZeroIvDecrypt (crypt e) k (cpNewPinEnc r) of
                None \<Rightarrow> fail_with 0x30 s
              | Some paddedPin \<Rightarrow> store_pin e paddedPin s)"

definition pin_token :: "bytes \<Rightarrow> ctap \<Rightarrow> ctap option" where
  "pin_token token s =
     (if \<not> isFidoPinSet (sys s) then fail_with 0x35 s else respond [WMap 1, WUInt 2, WBytes token] s)"

definition pin_token_with_permissions :: "pin_req \<Rightarrow> bytes \<Rightarrow> ctap \<Rightarrow> ctap option" where
  "pin_token_with_permissions r token s =
     (if \<not> isFidoPinSet (sys s) then fail_with 0x35 s
      else if getFailedFidoPinAttempts (sys s) \<ge> 10 then fail_with 0x32 s
      else if cpPermissions r = 0 then fail_with 0x14 s
      else respond [WMap 1, WUInt 2, WBytes token] (s\<lparr>activeAuthToken := token\<rparr>))"

definition clientPIN :: "env \<Rightarrow> bytes \<Rightarrow> bytes \<Rightarrow> ctap \<Rightarrow> ctap option" where
  "clientPIN e token data s = do {
     req \<leftarrow> parse_pin data;
     case req of
       None \<Rightarrow> fail_with 0x11 s
     | Some r \<Rightarrow>
         if cpSub r = 1 then pin_retries s
         else if cpSub r = 2 then pin_key_agreement e s
         else if cpSub r = 3 then pin_set e r s
         else if cpSub r = 4 then pin_change e r s
         else if cpSub r = 5 then pin_token token s
         else if cpSub r = 9 then pin_token_with_permissions r token s
         else fail_with 0x2B s }"

section \<open>The protocol\<close>

lemma respond_sys: "respond cs s = Some s' \<Longrightarrow> sys s' = sys s"
  by (auto simp: respond_def send_hid_def bind_eq_Some_conv)

lemma fail_with_sys: "fail_with err s = Some s' \<Longrightarrow> sys s' = sys s"
  by (auto simp: fail_with_def send_hid_def)

text \<open>What the platform sends: the new PIN, padded to 64 bytes, and the half hash, encrypted, and their MAC.\<close>

definition pad_pin :: "bytes \<Rightarrow> bytes" where
  "pad_pin pin = pin @ replicate (64 - length pin) 0"

definition half_hash :: "env \<Rightarrow> bytes \<Rightarrow> bytes" where
  "half_hash e pin = take 16 (mbed_sha256 (crypt e) pin)"

definition platform_request :: "env \<Rightarrow> bytes \<Rightarrow> bytes \<Rightarrow> bytes \<Rightarrow> bytes \<Rightarrow> pin_req \<Rightarrow> bool" where
  "platform_request e xy k given new r \<longleftrightarrow> cpKeyAgreement r = Some xy \<and>
     aesCbcZeroIvEncrypt (crypt e) k (pad_pin new) = Some (cpNewPinEnc r) \<and>
     aesCbcZeroIvEncrypt (crypt e) k (half_hash e given) = Some (cpPinHashEnc r) \<and>
     cpPinAuth r = mbed_hmac_sha256 (crypt e) k (cpNewPinEnc r @ cpPinHashEnc r)"

lemma cbc_zero_iv:
  assumes "consistent b" "primitives_ok b" "aesCbcZeroIvEncrypt b k x = Some c"
  shows "length c = length x \<and> aesCbcZeroIvDecrypt b k c = Some x"
proof -
  have x: "length x mod 16 = 0" "x \<noteq> []" "mbed_aes_cbc b k True (replicate 16 0) x = Some c"
    using assms(3) accel_cbc_eq [OF assms(1)]
    by (auto simp: aesCbcZeroIvEncrypt_def aesCbcZeroIv_def split: if_splits)
  have "length c = length x \<and> mbed_aes_cbc b k False (replicate 16 0) c = Some x"
    using primitivesD(3) [OF assms(2) x(1), of "replicate 16 0" k] x(3) by auto
  then show ?thesis
    using x(1,2) accel_cbc_eq [OF assms(1)] by (auto simp: aesCbcZeroIvDecrypt_def aesCbcZeroIv_def)
qed

lemma takeWhile_pad: "0 \<notin> set pin \<Longrightarrow> takeWhile (\<lambda>b. b \<noteq> 0) (pin @ replicate n 0) = pin"
  by (induction pin) auto

lemma store_pin_ok:
  assumes "can_open (plat e) ''/pin.txt''" "0 \<notin> set new" "getMinPinLength (sys s) \<le> length new"
  shows "store_pin e (pad_pin new) s =
    Some (send_hid 0x90 [0, 0xA0] (s\<lparr>sys := write_file (plat e) ''/pin.txt'' (hashPin (plat e) new) (sys s)\<rparr>))"
  using assms by (simp add: store_pin_def pad_pin_def takeWhile_pad createFidoPin_def createPin_def empty_reply)

lemma decrypts:
  assumes "consistent (crypt e)" "primitives_ok (crypt e)" "platform_request e xy k given new r" "length new \<le> 63"
  shows "length (cpNewPinEnc r) = 64" "length (cpPinHashEnc r) = 16" "length (cpPinAuth r) = 32"
    "aesCbcZeroIvDecrypt (crypt e) k (cpNewPinEnc r) = Some (pad_pin new)"
    "aesCbcZeroIvDecrypt (crypt e) k (cpPinHashEnc r) = Some (half_hash e given)"
proof -
  have c: "aesCbcZeroIvEncrypt (crypt e) k (pad_pin new) = Some (cpNewPinEnc r)"
    "aesCbcZeroIvEncrypt (crypt e) k (half_hash e given) = Some (cpPinHashEnc r)"
    "cpPinAuth r = mbed_hmac_sha256 (crypt e) k (cpNewPinEnc r @ cpPinHashEnc r)"
    using assms(3) by (simp_all add: platform_request_def)
  show "length (cpNewPinEnc r) = 64" "length (cpPinHashEnc r) = 16"
    using cbc_zero_iv [OF assms(1,2) c(1)] cbc_zero_iv [OF assms(1,2) c(2)] assms(4) primitivesD(1) [OF assms(2)]
    by (simp_all add: pad_pin_def half_hash_def)
  show "length (cpPinAuth r) = 32" by (simp add: c(3) primitivesD(2) [OF assms(2)])
  show "aesCbcZeroIvDecrypt (crypt e) k (cpNewPinEnc r) = Some (pad_pin new)"
    "aesCbcZeroIvDecrypt (crypt e) k (cpPinHashEnc r) = Some (half_hash e given)"
    using cbc_zero_iv [OF assms(1,2) c(1)] cbc_zero_iv [OF assms(1,2) c(2)] by simp_all
qed

text \<open>
  C23: changing the PIN. A platform that holds the shared secret of the session and sends the half hash
  of the PIN it was given, together with a new PIN of a permitted length, gets the PIN replaced and the
  failure counter cleared if the half hashes agree; otherwise error 0x31, with the PIN as it was and the
  counter one higher.
\<close>

theorem pin_change_exact:
  assumes "consistent (crypt e)" "primitives_ok (crypt e)" "can_open (plat e) ''/pin.txt''"
    "can_open (plat e) ''/failures.txt''" "files (sys s) ''/pin.txt'' = Some (hashPin (plat e) old)"
    "getFailedFidoPinAttempts (sys s) = int n" "n < 10" "sessionKeyValid s"
    "fidoEcdhSharedSecret e (sessionPrivateKey s) xy = Some k" "platform_request e xy k given new r"
    "0 \<notin> set new" "getMinPinLength (sys s) \<le> length new" "length new \<le> 63"
  shows "\<exists>s'. pin_change e r s = Some s' \<and>
    (if half_hash e given = half_hash e old
     then sent s' = sent s @ [(0x90, [0, 0xA0])] \<and>
       files (sys s') = (files (sys s))(''/pin.txt'' \<mapsto> hashPin (plat e) new, ''/failures.txt'' := None)
     else sent s' = sent s @ [(0x90, [0x31])] \<and>
       files (sys s') = (files (sys s))(''/failures.txt'' \<mapsto> show_int (int n + 1)))"
proof -
  note d = decrypts [OF assms(1,2,10,13)]
  define s1 where "s1 = s\<lparr>sessionSharedSecret := k\<rparr>"
  have x: "cpKeyAgreement r = Some xy" "cpPinAuth r = mbed_hmac_sha256 (crypt e) k (cpNewPinEnc r @ cpPinHashEnc r)"
    using assms(10) by (simp_all add: platform_request_def)
  have v: "verifyFidoPinHashInternal (half_hash e given) (sys s) \<longleftrightarrow> half_hash e given = half_hash e old"
    using half_hash_verifies [of "plat e" old "sys s" "half_hash e given"] primitivesD(1) [OF assms(2)] assms(5)
    by (simp add: half_hash_def)
  have "pin_change e r s =
      (if half_hash e given = half_hash e old then store_pin e (pad_pin new) (s1\<lparr>sys := resetFailedFidoPinAttempts (sys s)\<rparr>)
       else fail_with 0x31 (s1\<lparr>sys := incrementFailedFidoPinAttempts (plat e) (sys s)\<rparr>))"
    using assms(5-9) x d by (auto simp: pin_change_def agree_def isFidoPinSet_def isPinSet_def s1_def Let_def
        hmacSha256Raw_def accel_hmac_eq [OF assms(1)] v)
  moreover have "getMinPinLength (resetFailedFidoPinAttempts (sys s)) = getMinPinLength (sys s)"
    by (simp add: getMinPinLength_def resetFailedFidoPinAttempts_def resetFailedPinAttempts_def)
  ultimately show ?thesis
    using store_pin_ok [OF assms(3,11), of "s1\<lparr>sys := resetFailedFidoPinAttempts (sys s)\<rparr>"] assms(3,4,6,12)
    by (auto simp: fail_with_def send_hid_def s1_def resetFailedFidoPinAttempts_def resetFailedPinAttempts_def
        incrementFailedFidoPinAttempts_def incrementFailedPinAttempts_def getFailedFidoPinAttempts_def)
qed

definition change_req :: pin_req where
  "change_req = pin_start\<lparr>cpSub := 4, cpKeyAgreement := Some (replicate 64 3),
     cpNewPinEnc := rev (pad_pin (ascii ''5678'')), cpPinHashEnc := rev (half_hash good_env (ascii ''1234'')),
     cpPinAuth := replicate 32 7\<rparr>"

definition pin_ctap :: "bytes \<Rightarrow> ctap" where
  "pin_ctap pin = toy_ctap\<lparr>sessionKeyValid := True,
     sys := open_system\<lparr>files := [''/pin.txt'' \<mapsto> hashPin (plat good_env) pin]\<rparr>\<rparr>"

lemma good_env_simps:
  "mbed_sha256 (crypt good_env) x = take 32 (rev x @ replicate 32 0)" "mbed_hmac_sha256 (crypt good_env) h x = replicate 32 7"
  "mbed_aes_cbc (crypt good_env) h b iv x = Some (rev x)" "mbedtls_ecdh good_env h x = Some (take 32 x)"
  by (simp_all add: good_env_def toy_env_def toy_platform_def)

lemma change_req_ok:
  "platform_request good_env (replicate 64 3) h (ascii ''1234'') (ascii ''5678'') change_req"
proof -
  have "length (ascii ''5678'') = 4" "length (half_hash good_env (ascii ''1234'')) = 16"
    by (simp_all add: ascii_def half_hash_def good_env_simps)
  then show ?thesis
    by (auto simp: platform_request_def change_req_def pin_start_def aesCbcZeroIvEncrypt_def aesCbcZeroIv_def
        accel_cbc_eq [OF good_env_ok(1)] good_env_simps pad_pin_def)
qed

theorem pin_change_exact_witness:
  "\<exists>s'. pin_change good_env change_req (pin_ctap (ascii ''1234'')) = Some s' \<and> sent s' = [(0x90, [0, 0xA0])] \<and>
    files (sys s') ''/pin.txt'' = Some (hashPin (plat good_env) (ascii ''5678''))"
proof -
  let ?s = "pin_ctap (ascii ''1234'')"
  obtain k where f: "fidoEcdhSharedSecret good_env (sessionPrivateKey ?s) (replicate 64 3) = Some k"
    by (simp add: fidoEcdhSharedSecret_def good_env_simps)
  have p: "getMinPinLength (sys ?s) \<le> length (ascii ''5678'')" "length (ascii ''5678'') \<le> 63"
    "0 \<notin> set (ascii ''5678'')" "getFailedFidoPinAttempts (sys ?s) = int 0" "sessionKeyValid ?s" "sent ?s = []"
    "files (sys ?s) ''/pin.txt'' = Some (hashPin (plat good_env) (ascii ''1234''))"
    by (simp_all add: pin_ctap_def toy_ctap_def getMinPinLength_def ascii_def getFailedFidoPinAttempts_def
        getFailedPinAttempts_def)
  show ?thesis
    using pin_change_exact [OF good_env_ok(1,2) good_env_ok(4) good_env_ok(4) p(7,4) _ p(5) f change_req_ok p(3,1,2)] p(6)
    by auto
qed

text \<open>
  C11: once a PIN is set, whatever a request to authenticatorClientPIN contains, it replaces the PIN only
  as a change (0x04) with fewer than ten failures before, whose parameters are authenticated under the
  shared secret of the session and whose encrypted half hash is that of the PIN in force; and no request
  lowers the failure counter but this one.
\<close>

theorem pin_kept:
  assumes "clientPIN e token data s = Some s'" "isFidoPinSet (sys s)" "files (sys s') \<noteq> files (sys s)"
  shows "\<exists>r k. parse_pin data = Some (Some r) \<and> cpSub r = 4 \<and> getFailedFidoPinAttempts (sys s) < 10 \<and>
    agree e r True s = Some k \<and>
    take 16 (hmacSha256Raw (crypt e) k (cpNewPinEnc r @ cpPinHashEnc r)) = take 16 (cpPinAuth r) \<and>
    (files (sys s') = files (incrementFailedPinAttempts (plat e) (sys s)) \<or>
     (\<exists>h. aesCbcZeroIvDecrypt (crypt e) k (cpPinHashEnc r) = Some h \<and> verifyFidoPinHashInternal h (sys s)))"
proof -
  have other: False
    if "pin_retries s = Some s' \<or> pin_key_agreement e s = Some s' \<or> pin_set e r s = Some s' \<or> pin_token token s = Some s' \<or>
      pin_token_with_permissions r token s = Some s' \<or> fail_with x s = Some s'" for r x
    using that assms(2,3)
    by (auto simp: pin_retries_def pin_key_agreement_def pin_set_def pin_token_def pin_token_with_permissions_def
        dest!: respond_sys fail_with_sys split: option.splits prod.splits if_splits)
  obtain r where r: "parse_pin data = Some (Some r)" "cpSub r = 4" "pin_change e r s = Some s'"
    using assms(1) other by (auto simp: clientPIN_def bind_eq_Some_conv split: option.splits if_splits)
  then obtain k where k: "agree e r (length (cpNewPinEnc r) = 64 \<and> length (cpPinHashEnc r) = 16) s = Some k"
    "getFailedFidoPinAttempts (sys s) < 10"
    "take 16 (hmacSha256Raw (crypt e) k (cpNewPinEnc r @ cpPinHashEnc r)) = take 16 (cpPinAuth r)"
    using assms(2,3) by (auto simp: pin_change_def Let_def dest!: fail_with_sys split: option.splits if_splits)
  have "(case aesCbcZeroIvDecrypt (crypt e) k (cpPinHashEnc r) of
      Some h \<Rightarrow> verifyFidoPinHashInternal h (sys s) | None \<Rightarrow> False) \<or>
    files (sys s') = files (incrementFailedPinAttempts (plat e) (sys s))"
    using r(3) k assms(2) by (auto simp: pin_change_def Let_def incrementFailedFidoPinAttempts_def fail_with_def send_hid_def
        split: if_splits option.splits)
  moreover have "agree e r True s = Some k"
    using k(1) by (auto simp: agree_def split: option.splits if_splits)
  ultimately show ?thesis using r(1,2) k(2,3) by (auto split: option.splits)
qed

definition change_msg :: bytes where
  "change_msg = [0xA5, 2, 4, 3, 0xA2, 0x21, 0x58, 32] @ replicate 32 3 @ [0x22, 0x58, 32] @ replicate 32 3 @
     [4, 0x58, 32] @ replicate 32 7 @ [5, 0x58, 64] @ replicate 64 1 @ [6, 0x50] @ replicate 16 9"

lemma parse_change_msg:
  "parse_pin change_msg = Some (Some (pin_start\<lparr>cpSub := 4, cpKeyAgreement := Some (replicate 64 3),
     cpPinAuth := replicate 32 7, cpNewPinEnc := replicate 64 1, cpPinHashEnc := replicate 16 9\<rparr>))"
  by code_simp

theorem pin_kept_witness:
  "getFailedFidoPinAttempts (sys (pin_ctap (ascii ''1234''))) < 10 \<and>
   (\<exists>s'. clientPIN good_env [] change_msg (pin_ctap (ascii ''1234'')) = Some s' \<and> sent s' = [(0x90, [0x31])])"
proof -
  let ?s = "pin_ctap (ascii ''1234'')"
  have "replicate 16 9 \<noteq> (52 :: u8) # 51 # 50 # 49 # replicate 12 0" by code_simp
  then have v: "\<not> verifyFidoPinHashInternal (replicate 16 9) (sys ?s)"
    using half_hash_verifies [of "plat good_env" "ascii ''1234''" "sys ?s" "replicate 16 9"]
    by (simp add: good_env_simps pin_ctap_def ascii_def)
  have z: "getFailedPinAttempts (sys ?s) = 0" "sent ?s = []" "sessionKeyValid ?s" "isPinSet (sys ?s)"
    "files (sys ?s) ''/failures.txt'' = None"
    by (simp_all add: pin_ctap_def toy_ctap_def getFailedPinAttempts_def isPinSet_def)
  obtain k where f: "fidoEcdhSharedSecret good_env (sessionPrivateKey ?s) (replicate 64 3) = Some k"
    by (simp add: fidoEcdhSharedSecret_def good_env_simps)
  have "clientPIN good_env [] change_msg ?s =
      fail_with 0x31 (?s\<lparr>sessionSharedSecret := k, sys := incrementFailedFidoPinAttempts (plat good_env) (sys ?s)\<rparr>)"
    using v z by (simp add: clientPIN_def parse_change_msg pin_change_def agree_def f isFidoPinSet_def
        getFailedFidoPinAttempts_def hmacSha256Raw_def accel_hmac_eq [OF good_env_ok(1)] good_env_simps pin_start_def
        aesCbcZeroIvDecrypt_def aesCbcZeroIv_def accel_cbc_eq [OF good_env_ok(1)])
  then obtain s' where s': "clientPIN good_env [] change_msg ?s = Some s'" "sent s' = [(0x90, [0x31])]"
    "files (sys s') = files (incrementFailedFidoPinAttempts (plat good_env) (sys ?s))"
    using z(2) by (simp add: fail_with_def send_hid_def)
  have "files (sys s') \<noteq> files (sys ?s)"
    using s'(3) z(5) good_env_ok(4)
    by (auto simp: incrementFailedFidoPinAttempts_def incrementFailedPinAttempts_def dest: fun_cong [of _ _ "''/failures.txt''"])
  with pin_kept [OF s'(1)] s' z(4) show ?thesis by (auto simp: isFidoPinSet_def)
qed

text \<open>
  Two requests hand out a token without any proof of the PIN: getPinToken (0x05) always, and 0x09 for
  any permissions other than 0.
\<close>

lemma token_without_proof:
  assumes "isFidoPinSet (sys s)" "length token = 32"
  shows "pin_token token s = Some (send_hid 0x90 ([0, 0xA1, 2, 0x58, 32] @ token) s)"
    "getFailedFidoPinAttempts (sys s) < 10 \<Longrightarrow> cpPermissions r \<noteq> 0 \<Longrightarrow>
      pin_token_with_permissions r token s =
        Some (send_hid 0x90 ([0, 0xA1, 2, 0x58, 32] @ token) (s\<lparr>activeAuthToken := token\<rparr>))"
proof -
  have h: "head 5 1 = [0xA1]" "head 0 2 = [2]" "head 2 32 = [0x58, 32]" by code_simp+
  have "respond [WMap 1, WUInt 2, WBytes token] s = Some (send_hid 0x90 ([0, 0xA1, 2, 0x58, 32] @ token) s)" for s
    using respond_fits [of "[WMap 1, WUInt 2, WBytes token]" s] assms(2) by (simp add: h)
  then show "pin_token token s = Some (send_hid 0x90 ([0, 0xA1, 2, 0x58, 32] @ token) s)"
    "getFailedFidoPinAttempts (sys s) < 10 \<Longrightarrow> cpPermissions r \<noteq> 0 \<Longrightarrow>
      pin_token_with_permissions r token s =
        Some (send_hid 0x90 ([0, 0xA1, 2, 0x58, 32] @ token) (s\<lparr>activeAuthToken := token\<rparr>))"
    using assms(1) by (simp_all add: pin_token_def pin_token_with_permissions_def)
qed

end
