(* ===== verification/CtapBlob.thy ===== *)
theory CtapBlob
  imports Ctap
begin

text \<open>
  authenticatorLargeBlobs (0x0C) of \<open>src/FIDO2Manager.cpp\<close>: reading the stored array in fragments and
  assembling a new one in a buffer until it is complete and its hash matches.

  \<open>junk n\<close> is the content of \<open>n\<close> bytes fresh from \<open>malloc\<close>; the length of the buffer is its capacity.
\<close>

definition MAX_LARGE_BLOB_ARRAY :: nat where "MAX_LARGE_BLOB_ARRAY = 4096"

definition emptyLargeBlobArray :: bytes where
  "emptyLargeBlobArray = [0x80, 0x76, 0xbe, 0x8b, 0x52, 0x8d, 0x00, 0x75,
     0xf7, 0xaa, 0xe9, 0x8d, 0x6f, 0xa5, 0x7a, 0x6d, 0x3c]"

definition blob_get :: "env \<Rightarrow> blob_req \<Rightarrow> u64 \<Rightarrow> ctap \<Rightarrow> ctap option" where
  "blob_get e r requestedGetLen s =
     (if requestedGetLen = 0 \<or> unat requestedGetLen > MAX_FRAGMENT_LEN then fail_with 0x0A s
      else
        let haveStored = (case getLargeBlobArray (plat e) (sys s) of None \<Rightarrow> [] | Some stored \<Rightarrow> stored) in
        if haveStored = [] \<and> \<not> heap (plat e) (length emptyLargeBlobArray) then fail_with 0x01 s
        else
          let stored = (if haveStored = [] then emptyLargeBlobArray else haveStored);
              offset = unat (lbOffset r);
              fragLen = (if offset < length stored then min (length stored - offset) (unat requestedGetLen) else 0) in
          respond [WMap 1, WUInt 1, WBytes (take fragLen (drop offset stored))] s)"

definition drop_write_buffer :: "ctap \<Rightarrow> ctap" where
  "drop_write_buffer s = s\<lparr>largeBlobWriteBuffer := None, largeBlobExpectedTotalLen := 0, largeBlobReceivedLen := 0\<rparr>"

text \<open>
  The first fragment: the length is tested, the user verified with one reading and the buffer allocated.
  \<open>Inl\<close> is the error sent to the host.
\<close>

definition blob_start :: "env \<Rightarrow> (nat \<Rightarrow> bytes) \<Rightarrow> reading \<Rightarrow> blob_req \<Rightarrow> ctap \<Rightarrow> (u8 \<times> ctap) + ctap" where
  "blob_start e junk f r s =
     (case lbLength r of
        None \<Rightarrow> Inl (0x0A, s)
      | Some n \<Rightarrow>
          if n = 0 \<or> unat n > MAX_LARGE_BLOB_ARRAY then Inl (0x0A, s)
          else
            case fidoVerifyFingerprint e f s of (verified, s) \<Rightarrow>
            if \<not> verified then Inl (0x34, s)
            else if \<not> heap (plat e) (unat n) then Inl (0x01, s\<lparr>largeBlobWriteBuffer := None\<rparr>)
            else Inr (s\<lparr>largeBlobWriteBuffer := Some (junk (unat n)), largeBlobExpectedTotalLen := unat n,
              largeBlobReceivedLen := 0\<rparr>))"

text \<open>\<open>memcpy(buffer + offset, fragment, len)\<close>\<close>

definition copy_into :: "bytes \<Rightarrow> nat \<Rightarrow> bytes \<Rightarrow> bytes option" where
  "copy_into buf offset frag =
     (if offset + length frag \<le> length buf then Some (take offset buf @ frag @ drop (offset + length frag) buf) else None)"

definition blob_integrity :: "env \<Rightarrow> nat \<Rightarrow> bytes \<Rightarrow> bool" where
  "blob_integrity e len buf =
     (if len \<ge> 17 then
        let contentLen = len - 16 in
        take 16 (mbed_sha256 (crypt e) (take contentLen buf)) = take 16 (drop contentLen buf)
      else False)"

definition blob_finish :: "env \<Rightarrow> bytes \<Rightarrow> ctap \<Rightarrow> ctap option" where
  "blob_finish e buf s =
     (let len = largeBlobExpectedTotalLen s in
      if \<not> blob_integrity e len buf then fail_with 0x33 (drop_write_buffer s)
      else case setLargeBlobArray (plat e) (take len buf) (sys s) of
          (saveOk, t) \<Rightarrow>
            let s = drop_write_buffer (s\<lparr>sys := t\<rparr>) in
            if \<not> saveOk then fail_with 0x01 s else respond [WMap 0] s)"

definition blob_append :: "env \<Rightarrow> blob_req \<Rightarrow> bytes \<Rightarrow> ctap \<Rightarrow> ctap option" where
  "blob_append e r frag s =
     (let offset = unat (lbOffset r) in
      case largeBlobWriteBuffer s of
        None \<Rightarrow> fail_with 0x0A (drop_write_buffer s)
      | Some buf \<Rightarrow>
          if offset \<noteq> largeBlobReceivedLen s \<or> offset + length frag > length buf
          then fail_with 0x0A (drop_write_buffer s)
          else do {
            buf \<leftarrow> copy_into buf offset frag;
            let received = largeBlobReceivedLen s + length frag;
            let s = s\<lparr>largeBlobWriteBuffer := Some buf, largeBlobReceivedLen := received\<rparr>;
            if received < largeBlobExpectedTotalLen s then respond [WMap 0] s else blob_finish e buf s })"

definition blob_set :: "env \<Rightarrow> (nat \<Rightarrow> bytes) \<Rightarrow> reading \<Rightarrow> blob_req \<Rightarrow> bytes \<Rightarrow> ctap \<Rightarrow> ctap option" where
  "blob_set e junk f r frag s =
     (if lbOffset r = 0 then
        (case blob_start e junk f r s of Inl (err, s) \<Rightarrow> fail_with err s | Inr s \<Rightarrow> blob_append e r frag s)
      else blob_append e r frag s)"

definition largeBlobs :: "env \<Rightarrow> (nat \<Rightarrow> bytes) \<Rightarrow> reading \<Rightarrow> bytes \<Rightarrow> ctap \<Rightarrow> ctap option" where
  "largeBlobs e junk f data s = do {
     req \<leftarrow> parse_blob data;
     case req of
       None \<Rightarrow> fail_with 0x12 s
     | Some r \<Rightarrow>
         (case lbGet r of
            Some n \<Rightarrow> blob_get e r n s
          | None \<Rightarrow> (case lbSet r of Some frag \<Rightarrow> blob_set e junk f r frag s | None \<Rightarrow> fail_with 0x0A s)) }"

section \<open>Writing and reading\<close>

abbreviation ok_reply :: "u8 \<times> bytes" where
  "ok_reply \<equiv> (0x90, [0, 0xA0])"

definition frag_req :: "nat \<Rightarrow> nat \<Rightarrow> bytes \<Rightarrow> blob_req" where
  "frag_req len offset c = \<lparr>lbGet = None, lbSet = Some c, lbOffset = of_nat offset, lbLength = Some (of_nat len)\<rparr>"

text \<open>The requests of a platform that sends the fragments one after the other.\<close>

fun write_fragments :: "env \<Rightarrow> (nat \<Rightarrow> bytes) \<Rightarrow> reading \<Rightarrow> nat \<Rightarrow> nat \<Rightarrow> bytes list \<Rightarrow> ctap \<Rightarrow> ctap option" where
  "write_fragments e junk f len offset [] s = Some s"
| "write_fragments e junk f len offset (c # cs) s = do {
     s \<leftarrow> blob_set e junk f (frag_req len offset c) c s;
     write_fragments e junk f len (offset + length c) cs s }"

lemma write_no_fragments: "write_fragments e junk f len offset [] = Some"
  by (rule ext) simp

lemma verify_sends_nothing: "sent (snd (fidoVerifyFingerprint e f s)) = sent s"
  by (simp add: fidoVerifyFingerprint_def uv_reset_def uv_increment_def Let_def)

definition receiving :: "ctap \<Rightarrow> bytes \<Rightarrow> nat \<Rightarrow> bool" where
  "receiving s got len \<longleftrightarrow> (\<exists>rest. largeBlobWriteBuffer s = Some (got @ rest) \<and> length (got @ rest) = len) \<and>
     largeBlobReceivedLen s = length got \<and> largeBlobExpectedTotalLen s = len"

lemma unat_small64: "n < 2 ^ 32 \<Longrightarrow> unat (of_nat n :: u64) = n"
  by (simp add: unat_of_nat take_bit_nat_eq_self)

lemma append_receiving:
  assumes "receiving s got len" "length got + length c \<le> len" "len \<le> 4096"
  shows "\<exists>s'. receiving s' (got @ c) len \<and> sys s' = sys s \<and> sent s' = sent s \<and>
    blob_append e (frag_req len (length got) c) c s =
      (if length got + length c < len then Some (send_hid 0x90 [0, 0xA0] s')
       else blob_finish e (got @ c) s')"
proof -
  obtain rest where r: "largeBlobWriteBuffer s = Some (got @ rest)" "length (got @ rest) = len"
    "largeBlobReceivedLen s = length got" "largeBlobExpectedTotalLen s = len"
    using assms(1) by (auto simp: receiving_def)
  define s' where "s' = s\<lparr>largeBlobWriteBuffer := Some ((got @ c) @ drop (length c) rest),
    largeBlobReceivedLen := length got + length c\<rparr>"
  have u: "unat (of_nat (length got) :: u64) = length got" using assms(2,3) by (intro unat_small64) simp
  have c: "copy_into (got @ rest) (length got) c = Some ((got @ c) @ drop (length c) rest)"
    using r(2) assms(2) by (simp add: copy_into_def)
  show ?thesis
  proof (intro exI [of _ s'] conjI)
    show "receiving s' (got @ c) len" using r assms(2) by (auto simp: receiving_def s'_def)
    have "drop (length c) rest = []" if "\<not> length got + length c < len" using that r(2) by simp
    then show "blob_append e (frag_req len (length got) c) c s =
      (if length got + length c < len then Some (send_hid 0x90 [0, 0xA0] s') else blob_finish e (got @ c) s')"
      using r assms(2) c by (simp add: blob_append_def frag_req_def u s'_def empty_reply Let_def)
  qed (simp_all add: s'_def)
qed

lemma fragments_tail:
  assumes "\<forall>c \<in> set cs. c \<noteq> []" "receiving s got len" "got \<noteq> []" "cs \<noteq> []" "length (got @ concat cs) = len" "len \<le> 4096"
  shows "\<exists>s'. write_fragments e junk f len (length got) cs s = blob_finish e (got @ concat cs) s' \<and>
    sys s' = sys s \<and> sent s' = sent s @ replicate (length cs - 1) ok_reply \<and> largeBlobExpectedTotalLen s' = len"
  using assms(1-5)
proof (induction cs arbitrary: s got)
  case (Cons c cs)
  obtain s1 where s1: "receiving s1 (got @ c) len" "sys s1 = sys s" "sent s1 = sent s"
    "blob_append e (frag_req len (length got) c) c s =
      (if length got + length c < len then Some (send_hid 0x90 [0, 0xA0] s1) else blob_finish e (got @ c) s1)"
    using append_receiving [OF Cons.prems(2), of c e] Cons.prems(5) assms(6) by auto
  have "unat (of_nat (length got) :: u64) = length got"
    using Cons.prems(5) assms(6) by (intro unat_small64) simp
  then have "(of_nat (length got) :: u64) \<noteq> 0" using Cons.prems(3) by auto
  then have b: "blob_set e junk f (frag_req len (length got) c) c s = blob_append e (frag_req len (length got) c) c s"
    by (simp add: blob_set_def frag_req_def)
  show ?case
  proof (cases "cs = []")
    case True
    then show ?thesis
      using Cons.prems(5) s1 by (intro exI [of _ s1]) (auto simp: b receiving_def write_no_fragments)
  next
    case False
    let ?s2 = "send_hid 0x90 [0, 0xA0] s1"
    have "concat cs \<noteq> []" using False Cons.prems(1) by (cases cs) auto
    then have "0 < length (concat cs)" unfolding length_greater_0_conv .
    moreover have "length got + (length c + length (concat cs)) = len" using Cons.prems(5) by simp
    ultimately have l: "length got + length c < len" by linarith
    have "receiving ?s2 (got @ c) len" using s1(1) by (simp add: receiving_def send_hid_def)
    then obtain s' where "write_fragments e junk f len (length (got @ c)) cs ?s2 = blob_finish e ((got @ c) @ concat cs) s'"
      "sys s' = sys ?s2" "sent s' = sent ?s2 @ replicate (length cs - 1) ok_reply" "largeBlobExpectedTotalLen s' = len"
      using Cons.IH [of ?s2 "got @ c"] Cons.prems(1,3,5) False by auto
    then show ?thesis
      using l s1 False by (intro exI [of _ s']) (cases cs; auto simp: b send_hid_def)
  qed
qed simp

lemma blob_finish_ok:
  assumes "largeBlobExpectedTotalLen s = length arr" "blob_integrity e (length arr) arr" "can_open (plat e) ''/largeblob.bin''"
  obtains s' where "blob_finish e arr s = Some s'" "files (sys s') = (files (sys s))(''/largeblob.bin'' \<mapsto> arr)"
    "sent s' = sent s @ [ok_reply]" "largeBlobWriteBuffer s' = None"
  using assms by (simp add: blob_finish_def setLargeBlobArray_def empty_reply drop_write_buffer_def send_hid_def Let_def)

text \<open>What a read answers.\<close>

definition slice_reply :: "bytes \<Rightarrow> nat \<Rightarrow> nat \<Rightarrow> u8 \<times> bytes" where
  "slice_reply arr offset n = (0x90, 0 # concat (map call_enc [WMap 1, WUInt 1, WBytes (take n (drop offset arr))]))"

lemma blob_get_slice:
  assumes "files (sys s) ''/largeblob.bin'' = Some arr" "arr \<noteq> []" "\<forall>n. heap (plat e) n" "0 < n" "n \<le> MAX_FRAGMENT_LEN"
    "offset < 2 ^ 32"
  shows "blob_get e \<lparr>lbGet = g, lbSet = c, lbOffset = of_nat offset, lbLength = l\<rparr> (of_nat n) s =
    Some (s\<lparr>sent := sent s @ [slice_reply arr offset n]\<rparr>)"
proof -
  have u: "unat (of_nat n :: u64) = n" "unat (of_nat offset :: u64) = offset" "n \<le> 1200"
    using assms(5,6) by (auto intro: unat_small64 simp: MAX_FRAGMENT_LEN_def)
  then have z: "(of_nat n :: u64) \<noteq> 0" using assms(4) by auto
  have t: "take (if offset < length arr then min (length arr - offset) n else 0) (drop offset arr) = take n (drop offset arr)"
    by (auto simp: min_def)
  define b where "b = take n (drop offset arr)"
  have "length b \<le> 1200" using u(3) by (simp add: b_def)
  moreover from this have "length (head 2 (of_nat (length b))) \<le> 9" by (intro length_head)
  moreover have "length (head 5 (1 :: u64)) \<le> 9" "length (head 0 (1 :: u64)) \<le> 9" by (intro length_head)+
  ultimately have "respond [WMap 1, WUInt 1, WBytes b] s = Some (s\<lparr>sent := sent s @ [slice_reply arr offset n]\<rparr>)"
    using respond_fits [of "[WMap 1, WUInt 1, WBytes b]" s] by (simp add: send_hid_def slice_reply_def b_def)
  then show ?thesis
    using assms(1-3,5) u z
    by (simp add: blob_get_def getLargeBlobArray_def t b_def Let_def if_not_P split del: if_split cong: if_cong)
qed

text \<open>The fragments are assembled: what is left is the last step, with the whole array in the buffer.\<close>

lemma fragments_assembled:
  assumes "\<forall>n. heap (plat e) n" "\<forall>n. length (junk n) = n" "accepted e (sys s) f" "concat frags = arr" "\<forall>c \<in> set frags. c \<noteq> []"
    "17 \<le> length arr" "length arr \<le> MAX_LARGE_BLOB_ARRAY"
  shows "\<exists>s4. write_fragments e junk f (length arr) 0 frags s = blob_finish e arr s4 \<and>
    sent s4 = sent s @ replicate (length frags - 1) ok_reply \<and> largeBlobExpectedTotalLen s4 = length arr"
proof -
  obtain c cs where frags: "frags = c # cs" using assms(4,6) by (cases frags) auto
  define n where "n = length arr"
  have n: "n \<le> 4096" "0 < n" "length c \<le> n" using assms(4,6,7) frags by (auto simp: MAX_LARGE_BLOB_ARRAY_def n_def)
  have u: "unat (of_nat n :: u64) = n" using n by (intro unat_small64) simp
  then have z: "(of_nat n :: u64) \<noteq> 0" using n(2) by auto
  obtain s1 where v: "fidoVerifyFingerprint e f s = (True, s1)"
    using verify_accepts [of e f s] assms(3) by (metis prod.collapse)
  define s2 where "s2 = s1\<lparr>largeBlobWriteBuffer := Some (junk n), largeBlobExpectedTotalLen := n, largeBlobReceivedLen := 0\<rparr>"
  have s2: "sent s2 = sent s" using verify_sends_nothing [of e f s] v by (simp add: s2_def)
  have "blob_start e junk f (frag_req n 0 c) s = Inr s2"
    using assms(1,7) u z v by (simp add: blob_start_def frag_req_def s2_def n_def)
  then have b: "blob_set e junk f (frag_req n 0 c) c s = blob_append e (frag_req n 0 c) c s2"
    by (simp add: blob_set_def frag_req_def)
  have "receiving s2 [] n" using assms(2) by (simp add: receiving_def s2_def)
  then obtain s3 where s3: "receiving s3 c n" "sys s3 = sys s2" "sent s3 = sent s2"
    "blob_append e (frag_req n 0 c) c s2 =
      (if length c < n then Some (send_hid 0x90 [0, 0xA0] s3) else blob_finish e c s3)"
    using append_receiving [of s2 "[]" n c e] n(1,3) unfolding append_Nil list.size(3) add_0 by blast
  have "\<exists>s4. write_fragments e junk f n 0 frags s = blob_finish e arr s4 \<and>
    sent s4 = sent s @ replicate (length frags - 1) ok_reply \<and> largeBlobExpectedTotalLen s4 = n"
  proof (cases "cs = []")
    case True
    then have "c = arr" using assms(4) frags by simp
    then show ?thesis
      using True frags s3 s2 b by (intro exI [of _ s3]) (auto simp: receiving_def n_def write_no_fragments)
  next
    case False
    let ?s4 = "send_hid 0x90 [0, 0xA0] s3"
    have "concat cs \<noteq> []" using False assms(5) frags by (cases cs) auto
    then have "0 < length (concat cs)" unfolding length_greater_0_conv .
    moreover have "length c + length (concat cs) = n" using assms(4) frags by (auto simp: n_def)
    ultimately have l: "length c < n" by linarith
    have "receiving ?s4 c n" using s3(1) by (simp add: receiving_def send_hid_def)
    moreover have "\<forall>c \<in> set cs. c \<noteq> []" "c \<noteq> []" "length (c @ concat cs) = n" using frags assms(4,5) by (auto simp: n_def)
    ultimately obtain s5 where "write_fragments e junk f n (length c) cs ?s4 = blob_finish e (c @ concat cs) s5"
      "sent s5 = sent ?s4 @ replicate (length cs - 1) ok_reply" "largeBlobExpectedTotalLen s5 = n"
      using fragments_tail [of cs ?s4 c n e junk f] False n(1) by blast
    then show ?thesis
      using l s3 s2 b False frags assms(4) by (intro exI [of _ s5]) (cases cs; auto simp: send_hid_def)
  qed
  then show ?thesis by (simp add: n_def)
qed

text \<open>
  C20: writing a large-blob array. A platform whose user is verified sends an array of 17 to 4096 bytes,
  ending in the first half of the hash of the rest, in fragments that are not empty: every fragment is
  answered with success, the array is in flash after the last one, and any later read returns exactly the
  bytes asked for.
\<close>

theorem large_blob_roundtrip:
  assumes "can_open (plat e) ''/largeblob.bin''" "\<forall>n. heap (plat e) n" "\<forall>n. length (junk n) = n" "accepted e (sys s) f"
    "concat frags = arr" "\<forall>c \<in> set frags. c \<noteq> []" "17 \<le> length arr" "length arr \<le> MAX_LARGE_BLOB_ARRAY"
    "drop (length arr - 16) arr = take 16 (mbed_sha256 (crypt e) (take (length arr - 16) arr))"
  shows "\<exists>s'. write_fragments e junk f (length arr) 0 frags s = Some s' \<and>
    sent s' = sent s @ replicate (length frags) ok_reply \<and> files (sys s') ''/largeblob.bin'' = Some arr \<and>
    (\<forall>offset n. offset < 2 ^ 32 \<longrightarrow> 0 < n \<longrightarrow> n \<le> MAX_FRAGMENT_LEN \<longrightarrow>
      blob_get e (frag_req n offset []) (of_nat n) s' = Some (s'\<lparr>sent := sent s' @ [slice_reply arr offset n]\<rparr>))"
proof -
  obtain c cs where frags: "frags = c # cs" using assms(5,7) by (cases frags) auto
  define n where "n = length arr"
  have "\<exists>s4. write_fragments e junk f n 0 frags s = blob_finish e arr s4 \<and>
    sent s4 = sent s @ replicate (length frags - 1) ok_reply \<and> largeBlobExpectedTotalLen s4 = n"
    using fragments_assembled [of e junk s f frags arr] assms(2-8) by (simp add: n_def)
  then obtain s4 where s4: "write_fragments e junk f n 0 frags s = blob_finish e arr s4"
    "sent s4 = sent s @ replicate (length frags - 1) ok_reply" "largeBlobExpectedTotalLen s4 = n" by blast
  have "blob_integrity e (length arr) arr" using assms(7,9) by (simp add: blob_integrity_def Let_def)
  then obtain s' where s': "blob_finish e arr s4 = Some s'" "files (sys s') = (files (sys s4))(''/largeblob.bin'' \<mapsto> arr)"
    "sent s' = sent s4 @ [ok_reply]"
    using blob_finish_ok [of s4 arr e] s4(3) assms(1) by (auto simp: n_def)
  have "sent s' = sent s @ replicate (length frags) ok_reply"
    using s'(3) s4(2) frags by (simp add: replicate_append_same)
  moreover have "arr \<noteq> []" using assms(7) by auto
  ultimately show ?thesis
    using s4(1) s' blob_get_slice [of s' arr e] assms(2) by (auto simp: n_def frag_req_def)
qed

definition blob_env :: env where
  "blob_env = toy_env\<lparr>plat := toy_platform\<lparr>backend := toy_gcm\<lparr>mbed_sha256 := (\<lambda>x. replicate 32 8)\<rparr>\<rparr>\<rparr>"

theorem large_blob_roundtrip_witness:
  "\<exists>s'. write_fragments blob_env (\<lambda>n. replicate n 0) touch 18 0 [[1, 2, 8], replicate 15 8] toy_ctap = Some s' \<and>
    files (sys s') ''/largeblob.bin'' = Some ([1, 2] @ replicate 16 8)"
proof -
  have t: "take 16 (replicate 32 8) = replicate 16 (8 :: u8)" "(8 :: u8) # replicate 15 8 = replicate 16 8" by code_simp+
  have "accepted blob_env (sys toy_ctap) touch"
    by (simp add: accepted_def getFailedUvAttempts_def MAX_FAILED_UV_ATTEMPTS_def toy_ctap_def open_system_def touch_def
        getBioTemplateCount_def getAllBioTemplateIds_def bio_doc_def numeral_3_eq_3)
  then show ?thesis
    using large_blob_roundtrip [of blob_env "\<lambda>n. replicate n 0" toy_ctap touch "[[1, 2, 8], replicate 15 8]"
        "[1, 2] @ replicate 16 8"] t
    by (auto simp: blob_env_def toy_env_def toy_platform_def MAX_LARGE_BLOB_ARRAY_def)
qed

section \<open>Any requests\<close>

definition blob_inv :: "ctap \<Rightarrow> bool" where
  "blob_inv s \<longleftrightarrow> (\<forall>b. largeBlobWriteBuffer s = Some b \<longrightarrow> length b = largeBlobExpectedTotalLen s \<and>
     largeBlobReceivedLen s \<le> length b \<and> length b \<le> MAX_LARGE_BLOB_ARRAY)"

definition stored_ok :: "env \<Rightarrow> system \<Rightarrow> bool" where
  "stored_ok e t \<longleftrightarrow> (\<forall>arr. files t ''/largeblob.bin'' = Some arr \<longrightarrow>
     blob_integrity e (length arr) arr \<and> length arr \<le> MAX_LARGE_BLOB_ARRAY)"

definition blob_good :: "env \<Rightarrow> ctap \<Rightarrow> bool" where
  "blob_good e s \<longleftrightarrow> blob_inv s \<and> stored_ok e (sys s)"

text \<open>A reply leaves the blob state alone.\<close>

lemma good_send [simp]: "blob_good e (send_hid c d s) \<longleftrightarrow> blob_good e s"
  by (simp add: blob_good_def blob_inv_def send_hid_def)

definition returns_good :: "env \<Rightarrow> ctap option \<Rightarrow> bool" where
  "returns_good e r \<longleftrightarrow> (\<exists>s. r = Some s \<and> blob_good e s)"

lemma fail_good: "blob_good e s \<Longrightarrow> returns_good e (fail_with err s)"
  by (simp add: returns_good_def fail_with_def)

lemma respond_good:
  assumes "blob_good e s" "\<forall>c \<in> set cs. length (call_enc c) < 2 ^ 31"
  shows "returns_good e (respond cs s)"
  using respond_total [OF assms(2), of s] assms(1) by (auto simp: returns_good_def)

lemma empty_good: "blob_good e s \<Longrightarrow> returns_good e (respond [WMap 0] s)"
  by (simp add: returns_good_def empty_reply)

lemma drop_good: "stored_ok e (sys s) \<Longrightarrow> blob_good e (drop_write_buffer s)"
  by (simp add: drop_write_buffer_def blob_inv_def blob_good_def)

lemma verify_good: "blob_good e s \<Longrightarrow> blob_good e (snd (fidoVerifyFingerprint e f s))"
  using uv_frameD [OF verify_frame [of s e f]] same_files [of "sys s" "sys (snd (fidoVerifyFingerprint e f s))" "''/largeblob.bin''"]
  by (auto simp: blob_good_def blob_inv_def stored_ok_def)

lemma blob_goodD: "blob_good e s \<Longrightarrow> stored_ok e (sys s)"
  by (simp add: blob_good_def)

lemma get_good:
  assumes "blob_good e s"
  shows "returns_good e (blob_get e r n s)"
proof -
  have l: "length (head m v) \<le> 9" for m v by (rule length_head)
  have g: "returns_good e (respond [WMap (Suc 0), WUInt 1, WBytes b] s)" if "length b \<le> 1200" for b
  proof (rule respond_good [OF assms])
    show "\<forall>c \<in> set [WMap (Suc 0), WUInt 1, WBytes b]. length (call_enc c) < 2 ^ 31"
      using that l [of 5 1] l [of 0 1] l [of 2 "of_nat (length b)"] by simp
  qed
  show ?thesis
    using assms by (auto simp: blob_get_def Let_def MAX_FRAGMENT_LEN_def intro!: fail_good g)
qed

lemma finish_good:
  assumes "blob_good e s" "length buf = largeBlobExpectedTotalLen s" "length buf \<le> MAX_LARGE_BLOB_ARRAY"
  shows "returns_good e (blob_finish e buf s)"
proof (cases "blob_integrity e (length buf) buf")
  case False
  then show ?thesis using assms by (simp add: blob_finish_def fail_good drop_good blob_goodD Let_def)
next
  case True
  obtain ok t where t: "setLargeBlobArray (plat e) buf (sys s) = (ok, t)" by fastforce
  have "stored_ok e t"
    using t assms True by (auto simp: setLargeBlobArray_def write_file_def stored_ok_def blob_good_def split: if_splits)
  then have "blob_good e (drop_write_buffer (s\<lparr>sys := t\<rparr>))" by (simp add: drop_good)
  then show ?thesis using True assms(2) t by (simp add: blob_finish_def Let_def fail_good empty_good)
qed

lemma append_good:
  assumes "blob_good e s"
  shows "returns_good e (blob_append e r frag s)"
proof (cases "largeBlobWriteBuffer s")
  case None
  then show ?thesis using assms by (simp add: blob_append_def fail_good drop_good blob_goodD)
next
  case (Some b)
  show ?thesis
  proof (cases "unat (lbOffset r) = largeBlobReceivedLen s \<and> unat (lbOffset r) + length frag \<le> length b")
    case False
    then show ?thesis using Some assms by (auto simp: blob_append_def fail_good drop_good blob_goodD)
  next
    case True
    define b' where "b' = take (unat (lbOffset r)) b @ frag @ drop (unat (lbOffset r) + length frag) b"
    define s' where "s' = s\<lparr>largeBlobWriteBuffer := Some b', largeBlobReceivedLen := largeBlobReceivedLen s + length frag\<rparr>"
    have l: "length b' = length b" "length b = largeBlobExpectedTotalLen s" "length b \<le> MAX_LARGE_BLOB_ARRAY"
      using True Some assms by (auto simp: b'_def blob_inv_def blob_good_def)
    then have g: "blob_good e s'" using assms True by (simp add: s'_def blob_inv_def blob_good_def)
    have "blob_append e r frag s =
        (if largeBlobReceivedLen s + length frag < largeBlobExpectedTotalLen s then respond [WMap 0] s' else blob_finish e b' s')"
      using True Some by (simp add: blob_append_def copy_into_def b'_def s'_def Let_def)
    then show ?thesis using g finish_good [OF g, of b'] l by (simp add: empty_good s'_def)
  qed
qed

lemma set_good:
  assumes "blob_good e s" "\<forall>n. length (junk n) = n"
  shows "returns_good e (blob_set e junk f r frag s)"
proof -
  obtain ok s1 where v: "fidoVerifyFingerprint e f s = (ok, s1)" by fastforce
  then have s1: "blob_good e s1" using verify_good [OF assms(1), of f] by simp
  have "blob_good e (s1\<lparr>largeBlobWriteBuffer := None\<rparr>)"
    "n \<le> MAX_LARGE_BLOB_ARRAY \<Longrightarrow> blob_good e (s1\<lparr>largeBlobWriteBuffer := Some (junk n),
      largeBlobExpectedTotalLen := n, largeBlobReceivedLen := 0\<rparr>)" for n
    using s1 assms(2) by (simp_all add: blob_inv_def blob_good_def)
  then show ?thesis
    using assms(1) s1 by (auto simp: blob_set_def blob_start_def v not_less intro: fail_good append_good split: option.split)
qed

fun blob_session :: "env \<Rightarrow> (nat \<Rightarrow> bytes) \<Rightarrow> (bytes \<times> reading) list \<Rightarrow> ctap \<Rightarrow> ctap option" where
  "blob_session e junk [] s = Some s"
| "blob_session e junk ((data, f) # reqs) s = do { s \<leftarrow> largeBlobs e junk f data s; blob_session e junk reqs s }"



end
