(* ===== verification/CtapManage.thy ===== *)
theory CtapManage
  imports CtapBlob
begin

text \<open>
  authenticatorReset (0x07), authenticatorConfig (0x0D) and authenticatorCredentialManagement (0x0A, 0x41)
  of \<open>src/FIDO2Manager.cpp\<close>.
\<close>

section \<open>Reset\<close>

text \<open>\<open>fresh\<close> is the new stateless master secret.\<close>

definition reset :: "env \<Rightarrow> watch \<Rightarrow> bytes \<Rightarrow> ctap \<Rightarrow> ctap option" where
  "reset e w fresh s = do {
     (v, s) \<leftarrow> verify_user e w s;
     case v of
       Canceled \<Rightarrow> fail_with 0x2D s
     | Timed_Out \<Rightarrow> fail_with 0x30 s
     | Verified _ \<Rightarrow>
         Some (send_hid 0x90 [0] (drop_write_buffer (s\<lparr>sys := resetFido2System (nvs_ok e) fresh (sys s)\<rparr>))) }"

section \<open>Config\<close>

definition authConfig :: "env \<Rightarrow> bytes \<Rightarrow> ctap \<Rightarrow> ctap option" where
  "authConfig e data s = do {
     req \<leftarrow> parse_config data;
     case req of
       None \<Rightarrow> fail_with 0x11 s
     | Some r \<Rightarrow>
         if cfSub r = 2 then respond [WMap 0] (s\<lparr>sys := setForcePinChange (plat e) True (sys s)\<rparr>)
         else if cfSub r = 3 then respond [WMap 0] (s\<lparr>sys := setMinPinLength (plat e) (ucast (cfMinPin r)) (sys s)\<rparr>)
         else if cfSub r \<noteq> 1 then fail_with 0x2B s
         else respond [WMap 0] s }"

section \<open>Credential management\<close>

definition store_files :: "spiffs \<Rightarrow> ctap \<Rightarrow> ctap" where
  "store_files fs s = s\<lparr>sys := (sys s)\<lparr>files := fs\<rparr>\<rparr>"

abbreviation ctap_files :: "ctap \<Rightarrow> spiffs" where
  "ctap_files s \<equiv> files (sys s)"

definition mgmt_metadata :: "env \<Rightarrow> ctap \<Rightarrow> ctap option" where
  "mgmt_metadata e s = do {
     allCreds \<leftarrow> getAllStoredCredentialIds (plat e) (ctap_files s);
     respond [WMap 2, WUInt 1, WUInt (of_nat (length allCreds)), WUInt 2,
       WUInt (ucast (1000 - of_nat (length allCreds) :: u32))] s }"

definition rp_entry :: "env \<Rightarrow> bytes \<Rightarrow> write_call list" where
  "rp_entry e rp = [WUInt 3, WMap 1, text_lit ''id'', WText (cstr rp), WUInt 4, WBytes (mbed_sha256 (crypt e) rp)]"

definition mgmt_rps_begin :: "env \<Rightarrow> ctap \<Rightarrow> ctap option" where
  "mgmt_rps_begin e s = do {
     rps \<leftarrow> getAllStoredRpIds (plat e) (ctap_files s);
     let s = s\<lparr>enumRpList := rps, enumRpIdx := 0\<rparr>;
     if rps = [] then fail_with 0x2E s
     else respond (WMap 3 # rp_entry e (rps ! 0) @ [WUInt 5, WUInt (of_nat (length rps))]) (s\<lparr>enumRpIdx := 1\<rparr>) }"

definition mgmt_rps_next :: "env \<Rightarrow> ctap \<Rightarrow> ctap option" where
  "mgmt_rps_next e s =
     (if enumRpIdx s \<ge> length (enumRpList s) then fail_with 0x2E s
      else respond (WMap 2 # rp_entry e (enumRpList s ! enumRpIdx s)) (s\<lparr>enumRpIdx := enumRpIdx s + 1\<rparr>))"

text \<open>
  The fields of a record, empty when it cannot be read. The user id and the credential id are copied to
  buffers of 64 bytes.
\<close>

definition no_cred :: cred where
  "no_cred = \<lparr>rpId = [], userIdHex = [], userName = [], privateKeyHex = [], algId = 0, credProtect = 1,
     largeBlobKeyHex = [], credBlobHex = []\<rparr>"

definition read_cred :: "env \<Rightarrow> bytes \<Rightarrow> ctap \<Rightarrow> cred option" where
  "read_cred e credHex s =
     map_option (\<lambda>r. case r of Some c \<Rightarrow> c | None \<Rightarrow> no_cred) (getPasskeyRecord (plat e) (ctap_files s) credHex)"

definition cred_entry :: "bytes \<Rightarrow> cred \<Rightarrow> write_call list option" where
  "cred_entry credHex c =
     (let credLen = length credHex div 2; userLen = length (userIdHex c) div 2 in
      if credLen > 64 \<or> userLen > 64 then None
      else Some [WUInt 6, WMap 2, text_lit ''id'', WBytes (fromHex (userIdHex c) userLen), text_lit ''name'',
        WText (cstr (userName c)), WUInt 7, WMap 2, text_lit ''id'', WBytes (fromHex credHex credLen),
        text_lit ''type'', text_lit ''public-key''])"

text \<open>The credentials of the relying party, and whether one of them is protected.\<close>

fun matching_creds :: "env \<Rightarrow> bytes \<Rightarrow> ctap \<Rightarrow> bytes list \<Rightarrow> bytes list \<times> bool \<Rightarrow> (bytes list \<times> bool) option" where
  "matching_creds e target s [] a = Some a"
| "matching_creds e target s (credHex # rest) (l, prot) = do {
     r \<leftarrow> getPasskeyRecord (plat e) (ctap_files s) credHex;
     matching_creds e target s rest
       (case r of
          Some c \<Rightarrow>
            if constantTimeEquals (mbed_sha256 (crypt e) (rpId c)) target 32
            then (l @ [credHex], prot \<or> credProtect c \<ge> 2) else (l, prot)
        | None \<Rightarrow> (l, prot)) }"

definition mgmt_first_cred :: "env \<Rightarrow> ctap \<Rightarrow> ctap option" where
  "mgmt_first_cred e s = do {
     let credHex = enumCredList s ! enumCredIdx s;
     c \<leftarrow> read_cred e credHex s;
     entry \<leftarrow> cred_entry credHex c;
     respond (WMap 4 # entry @ [WUInt 9, WUInt (of_nat (length (enumCredList s))), WUInt 10,
       WUInt (word_of_int (credProtect c))]) (s\<lparr>enumCredIdx := enumCredIdx s + 1\<rparr>) }"

definition mgmt_creds_begin :: "env \<Rightarrow> watch \<Rightarrow> bytes \<Rightarrow> ctap \<Rightarrow> ctap option" where
  "mgmt_creds_begin e w target s = do {
     allCreds \<leftarrow> getAllStoredCredentialIds (plat e) (ctap_files s);
     (l, prot) \<leftarrow> matching_creds e target s allCreds ([], False);
     let s = s\<lparr>enumCredList := l, enumCredIdx := 0\<rparr>;
     if l = [] then fail_with 0x2E s
     else if prot then do {
       (v, s) \<leftarrow> verify_recent_user e w s;
       case v of
         Canceled \<Rightarrow> fail_with 0x2D s
       | Timed_Out \<Rightarrow> fail_with 0x34 s
       | Verified _ \<Rightarrow> mgmt_first_cred e s }
     else mgmt_first_cred e s }"

definition mgmt_creds_next :: "env \<Rightarrow> ctap \<Rightarrow> ctap option" where
  "mgmt_creds_next e s =
     (if enumCredIdx s \<ge> length (enumCredList s) then fail_with 0x2E s
      else do {
        let credHex = enumCredList s ! enumCredIdx s;
        c \<leftarrow> read_cred e credHex s;
        entry \<leftarrow> cred_entry credHex c;
        respond (WMap 3 # entry @ [WUInt 10, WUInt (word_of_int (credProtect c))])
          (s\<lparr>enumCredIdx := enumCredIdx s + 1\<rparr>) })"

definition mgmt_delete :: "env \<Rightarrow> bytes \<Rightarrow> ctap \<Rightarrow> ctap option" where
  "mgmt_delete e credId s = do {
     (ok, fs) \<leftarrow> deletePasskeyRecord (plat e) (toHex credId) (ctap_files s);
     let s = store_files fs s;
     if ok then respond [WMap 0] s else fail_with 0x2E s }"

definition credentialManagement :: "env \<Rightarrow> watch \<Rightarrow> bytes \<Rightarrow> ctap \<Rightarrow> ctap option" where
  "credentialManagement e w data s = do {
     req \<leftarrow> parse_mgmt data;
     case req of
       None \<Rightarrow> fail_with 0x11 s
     | Some r \<Rightarrow>
         if cmSub r = 1 then mgmt_metadata e s
         else if cmSub r = 2 then mgmt_rps_begin e s
         else if cmSub r = 3 then mgmt_rps_next e s
         else if cmSub r = 4 then mgmt_creds_begin e w (cmRpIdHash r) s
         else if cmSub r = 5 then mgmt_creds_next e s
         else if cmSub r = 6 then mgmt_delete e (cmCredId r) s
         else fail_with 0x2B s }"

section \<open>Listings are complete\<close>

definition reply_of :: "write_call list \<Rightarrow> u8 \<times> bytes" where
  "reply_of cs = (0x90, 0 # concat (map call_enc cs))"

fun payload :: "write_call \<Rightarrow> nat" where
  "payload (WBytes b) = length b"
| "payload (WText b) = length b"
| "payload _ = 0"

lemma call_enc_le: "length (call_enc c) \<le> payload c + 9"
  using length_head by (cases c) (auto intro: le_trans add_mono)

lemma enc_len_le: "enc_len cs \<le> sum_list (map payload cs) + 9 * length cs"
proof (induction cs)
  case (Cons c cs)
  then show ?case using call_enc_le [of c] by simp
qed simp

lemma respond_reply:
  assumes "\<forall>c \<in> set cs. call_ok c" "sum_list (map payload cs) + 9 * length cs < 8182"
  shows "\<exists>s'. respond cs s = Some s' \<and> s' = s\<lparr>sent := sent s @ [reply_of cs]\<rparr>"
  using respond_fits [OF assms(1), of s] enc_len_le [of cs] assms(2) by (simp add: send_hid_def reply_of_def)

definition rps_good :: "env \<Rightarrow> ctap \<Rightarrow> bool" where
  "rps_good e s \<longleftrightarrow> (\<forall>x. length (mbed_sha256 (crypt e) x) = 32) \<and>
     (\<forall>rp \<in> set (enumRpList s). length rp \<le> 255 \<and> 0 \<notin> set rp)"

lemma text_lit_ok [simp]: "call_ok (text_lit x) \<longleftrightarrow> length x \<le> 255" "payload (text_lit x) = length x"
  by (simp_all add: text_lit_def ascii_def)

interpretation rps: enumeration "mgmt_rps_next e" enumRpList enumRpIdx sent "rps_good e"
  "\<lambda>rp x. x = reply_of (WMap 2 # rp_entry e rp)" "(0x90, [0x2E])" for e
proof
  fix s assume s: "rps_good e s" "enumRpIdx s < length (enumRpList s)"
  define rp where "rp = enumRpList s ! enumRpIdx s"
  have "length rp \<le> 255" "0 \<notin> set rp" "length (mbed_sha256 (crypt e) rp) = 32"
    using s by (auto simp: rps_good_def rp_def)
  then obtain s' where "respond (WMap 2 # rp_entry e rp) (s\<lparr>enumRpIdx := enumRpIdx s + 1\<rparr>) = Some s'"
    "s' = s\<lparr>enumRpIdx := enumRpIdx s + 1, sent := sent s @ [reply_of (WMap 2 # rp_entry e rp)]\<rparr>"
    using respond_reply [of "WMap 2 # rp_entry e rp" "s\<lparr>enumRpIdx := enumRpIdx s + 1\<rparr>"] by (auto simp: rp_entry_def)
  then show "\<exists>s' x. mgmt_rps_next e s = Some s' \<and> rps_good e s' \<and> enumRpList s' = enumRpList s \<and>
      enumRpIdx s' = enumRpIdx s + 1 \<and> sent s' = sent s @ [x] \<and>
      x = reply_of (WMap 2 # rp_entry e (enumRpList s ! enumRpIdx s))"
    using s by (simp add: mgmt_rps_next_def rps_good_def del: split_paired_Ex flip: rp_def)
next
  fix s assume "rps_good e s" "\<not> enumRpIdx s < length (enumRpList s)"
  then show "\<exists>s'. mgmt_rps_next e s = Some s' \<and> sent s' = sent s @ [(0x90, [0x2E])]"
    by (simp add: mgmt_rps_next_def fail_with_def send_hid_def)
qed

text \<open>The records whose fields fit the buffers.\<close>

definition listable :: "bytes \<Rightarrow> cred \<Rightarrow> bool" where
  "listable cid c \<longleftrightarrow> length cid \<le> 128 \<and> length (rpId c) \<le> 255 \<and> 0 \<notin> set (rpId c) \<and> length (userIdHex c) \<le> 128 \<and>
     length (userName c) \<le> 255 \<and> 0 \<notin> set (userName c)"

definition creds_good :: "env \<Rightarrow> store \<Rightarrow> ctap \<Rightarrow> bool" where
  "creds_good e st s \<longleftrightarrow> roomy (plat e) \<and> holds (plat e) (ctap_files s) st \<and>
     (\<forall>(cid, c) \<in> set st. listable cid c) \<and> set (enumCredList s) \<subseteq> fst ` set st"

lemma truncate_id: "cred.truncate c = (c :: cred)"
  by (cases c) (simp add: cred.defs)

lemma read_cred_good:
  assumes "creds_good e st s" "cid \<in> set (enumCredList s)"
  obtains c entry where "map_of st cid = Some c" "read_cred e cid s = Some c" "cred_entry cid c = Some entry"
    "\<forall>x \<in> set entry. call_ok x" "sum_list (map payload entry) \<le> 600" "length entry = 12"
proof -
  have h: "roomy (plat e)" "holds (plat e) (ctap_files s) st" "\<forall>(cid, c) \<in> set st. listable cid c"
    using assms(1) by (auto simp: creds_good_def)
  obtain c where c: "map_of st cid = Some c"
    using assms by (metis creds_good_def in_mono map_of_eq_None_iff not_None_eq)
  then have "read_cred e cid s = Some c"
    using getPasskey_holds [OF h(1,2), of cid] by (simp add: read_cred_def truncate_id)
  moreover have "listable cid c" using h(3) map_of_SomeD [OF c] by auto
  ultimately show thesis
    by (intro that [OF c]) (auto simp: cred_entry_def listable_def text_lit_def ascii_def Let_def)
qed

definition cred_reply :: "store \<Rightarrow> bytes \<Rightarrow> u8 \<times> bytes \<Rightarrow> bool" where
  "cred_reply st cid x \<longleftrightarrow> (\<exists>c entry. map_of st cid = Some c \<and> cred_entry cid c = Some entry \<and>
     x = reply_of (WMap 3 # entry @ [WUInt 10, WUInt (word_of_int (credProtect c))]))"

interpretation creds: enumeration "mgmt_creds_next e" enumCredList enumCredIdx sent "creds_good e st"
  "cred_reply st" "(0x90, [0x2E])" for e st
proof
  fix s assume s: "creds_good e st s" "enumCredIdx s < length (enumCredList s)"
  define cid where "cid = enumCredList s ! enumCredIdx s"
  have "cid \<in> set (enumCredList s)" using s(2) by (simp add: cid_def)
  then obtain c entry where c: "map_of st cid = Some c" "read_cred e cid s = Some c" "cred_entry cid c = Some entry"
    "\<forall>x \<in> set entry. call_ok x" "sum_list (map payload entry) \<le> 600" "length entry = 12"
    using read_cred_good [OF s(1)] by blast
  define cs where "cs = WMap 3 # entry @ [WUInt 10, WUInt (word_of_int (credProtect c))]"
  have x: "cred_reply st cid (reply_of cs)" using c by (auto simp: cred_reply_def cs_def)
  have "respond cs (s\<lparr>enumCredIdx := enumCredIdx s + 1\<rparr>) =
      Some (s\<lparr>enumCredIdx := enumCredIdx s + 1, sent := sent s @ [reply_of cs]\<rparr>)"
    using respond_reply [of cs "s\<lparr>enumCredIdx := enumCredIdx s + 1\<rparr>"] c(4-6) by (auto simp: cs_def)
  then have "mgmt_creds_next e s = Some (s\<lparr>enumCredIdx := enumCredIdx s + 1, sent := sent s @ [reply_of cs]\<rparr>)"
    using s(2) c by (simp add: mgmt_creds_next_def cs_def flip: cid_def)
  then show "\<exists>s' x. mgmt_creds_next e s = Some s' \<and> creds_good e st s' \<and> enumCredList s' = enumCredList s \<and>
      enumCredIdx s' = enumCredIdx s + 1 \<and> sent s' = sent s @ [x] \<and> cred_reply st (enumCredList s ! enumCredIdx s) x"
    using s(1) x by (intro exI [of _ "s\<lparr>enumCredIdx := enumCredIdx s + 1, sent := sent s @ [reply_of cs]\<rparr>"]
        exI [of _ "reply_of cs"]) (simp add: creds_good_def cid_def)
next
  fix s assume "creds_good e st s" "\<not> enumCredIdx s < length (enumCredList s)"
  then show "\<exists>s'. mgmt_creds_next e s = Some s' \<and> sent s' = sent s @ [(0x90, [0x2E])]"
    by (simp add: mgmt_creds_next_def fail_with_def send_hid_def)
qed

text \<open>The credentials of a relying party, in the order of the file.\<close>

definition creds_of :: "env \<Rightarrow> bytes \<Rightarrow> store \<Rightarrow> bytes list" where
  "creds_of e target st = map fst (filter (\<lambda>(cid, c). mbed_sha256 (crypt e) (rpId c) = target) st)"

lemma matching_creds_eq:
  assumes "roomy (plat e)" "holds (plat e) (ctap_files s) st" "\<forall>x. length (mbed_sha256 (crypt e) x) = 32"
    "length target = 32" "distinct (map fst st)" "set part \<subseteq> set st"
  shows "\<exists>prot. matching_creds e target s (map fst part) (l, p) = Some (l @ creds_of e target part, prot)"
  using assms(6)
proof (induction part arbitrary: l p)
  case (Cons x part)
  obtain cid c where x: "x = (cid, c)" by fastforce
  have "map_of st cid = Some c" using Cons.prems assms(5) x by simp
  then have g: "getPasskeyRecord (plat e) (ctap_files s) cid = Some (Some c)"
    using getPasskey_holds [OF assms(1,2), of cid] by (simp add: truncate_id)
  have "constantTimeEquals (mbed_sha256 (crypt e) (rpId c)) target 32 \<longleftrightarrow> mbed_sha256 (crypt e) (rpId c) = target"
    using assms(3,4) by (intro constantTimeEquals_eq) simp_all
  then show ?case
    using g Cons.IH [of "l @ [cid]" "p \<or> credProtect c \<ge> 2"] Cons.IH [of l p] Cons.prems
    by (auto simp: x creds_of_def)
qed (simp add: creds_of_def)

definition list_rps :: "env \<Rightarrow> nat \<Rightarrow> ctap \<Rightarrow> ctap option" where
  "list_rps e n s = do { s \<leftarrow> mgmt_rps_begin e s; rounds n (mgmt_rps_next e) s }"

definition list_creds :: "env \<Rightarrow> watch \<Rightarrow> bytes \<Rightarrow> nat \<Rightarrow> ctap \<Rightarrow> ctap option" where
  "list_creds e w target n s = do { s \<leftarrow> mgmt_creds_begin e w target s; rounds n (mgmt_creds_next e) s }"

lemma list_rps_all:
  assumes "roomy (plat e)" "holds (plat e) (ctap_files s) st" "st \<noteq> []" "\<forall>(cid, c) \<in> set st. listable cid c"
    "\<forall>x. length (mbed_sha256 (crypt e) x) = 32"
  defines "rps \<equiv> firsts (map (rpId \<circ> snd) st)"
  shows "\<exists>s'. list_rps e (length rps) s = Some s' \<and> sent s' = sent s @
    reply_of (WMap 3 # rp_entry e (hd rps) @ [WUInt 5, WUInt (of_nat (length rps))]) #
    map (\<lambda>rp. reply_of (WMap 2 # rp_entry e rp)) (tl rps) @ [(0x90, [0x2E])]"
proof -
  have set_rps: "set rps = rpId ` snd ` set st" by (simp add: rps_def image_comp)
  then have ne: "rps \<noteq> []" using assms(3) by auto
  have ok: "\<forall>rp \<in> set rps. length rp \<le> 255 \<and> 0 \<notin> set rp"
    using assms(4) by (auto simp: set_rps listable_def)
  define cs where "cs = WMap 3 # rp_entry e (hd rps) @ [WUInt 5, WUInt (of_nat (length rps))]"
  define s1 where "s1 = s\<lparr>enumRpList := rps, enumRpIdx := 1, sent := sent s @ [reply_of cs]\<rparr>"
  have "length (hd rps) \<le> 255 \<and> 0 \<notin> set (hd rps)" using ok ne by simp
  then have "respond cs (s\<lparr>enumRpList := rps, enumRpIdx := 1\<rparr>) = Some s1"
    using respond_reply [of cs "s\<lparr>enumRpList := rps, enumRpIdx := 1\<rparr>"] assms(5)
    by (simp add: cs_def rp_entry_def s1_def)
  then have b: "mgmt_rps_begin e s = Some s1"
    using ne readers_hold(4) [OF assms(1,2)] by (simp add: mgmt_rps_begin_def hd_conv_nth cs_def flip: rps_def)
  have "rps_good e s1" using ok assms(5) by (simp add: rps_good_def s1_def)
  moreover have "enumRpIdx s1 \<le> length (enumRpList s1)" "length (enumRpList s1) - enumRpIdx s1 = length rps - 1"
    using ne by (auto simp: s1_def Suc_le_eq)
  ultimately obtain s' xs where r: "rounds (Suc (length rps - 1)) (mgmt_rps_next e) s1 = Some s'"
    "sent s' = sent s1 @ xs @ [(0x90, [0x2E])]"
    "list_all2 (\<lambda>rp x. x = reply_of (WMap 2 # rp_entry e rp)) (drop (enumRpIdx s1) (enumRpList s1)) xs"
    using rps.all_items by blast
  have "xs = map (\<lambda>rp. reply_of (WMap 2 # rp_entry e rp)) (tl rps)"
    using r(3) by (simp add: s1_def list_all2_conv_all_nth list_eq_iff_nth_eq drop_Suc)
  moreover have "Suc (length rps - 1) = length rps" using ne by (cases rps) auto
  ultimately show ?thesis
    using b r(1,2) by (simp only: list_rps_def bind.bind_lunit) (simp add: s1_def cs_def)
qed

lemma list_creds_all:
  assumes "roomy (plat e)" "holds (plat e) (ctap_files s) st" "distinct (map fst st)" "\<forall>(cid, c) \<in> set st. listable cid c"
    "\<forall>x. length (mbed_sha256 (crypt e) x) = 32" "length target = 32"
    "lastFingerprintSuccessTime s > 0" "now w - lastFingerprintSuccessTime s < 5000"
  defines "l \<equiv> creds_of e target st"
  assumes "l \<noteq> []"
  shows "\<exists>s' first xs. list_creds e w target (length l) s = Some s' \<and> sent s' = sent s @ first # xs @ [(0x90, [0x2E])] \<and>
    (\<exists>c entry. map_of st (hd l) = Some c \<and> cred_entry (hd l) c = Some entry \<and>
       first = reply_of (WMap 4 # entry @ [WUInt 9, WUInt (of_nat (length l)), WUInt 10, WUInt (word_of_int (credProtect c))])) \<and>
    list_all2 (cred_reply st) (tl l) xs"
proof -
  obtain prot where m: "matching_creds e target s (map fst st) ([], False) = Some (l, prot)"
    using matching_creds_eq [OF assms(1,2,5,6,3), of st "[]" False] by (auto simp: l_def)
  define s0 where "s0 = s\<lparr>enumCredList := l, enumCredIdx := 0\<rparr>"
  have g: "creds_good e st s0"
    using assms(1,2,4) by (auto simp: creds_good_def s0_def l_def creds_of_def)
  have b: "mgmt_creds_begin e w target s = mgmt_first_cred e s0"
    using readers_hold(2) [OF assms(1,2)] m assms(7,8,10)
    by (simp add: mgmt_creds_begin_def verify_recent_user_def s0_def Let_def)
  have hd: "hd l \<in> set (enumCredList s0)" "l ! 0 = hd l" using assms(10) by (simp_all add: s0_def hd_conv_nth)
  obtain c entry where c: "map_of st (hd l) = Some c" "read_cred e (hd l) s0 = Some c" "cred_entry (hd l) c = Some entry"
    "\<forall>x \<in> set entry. call_ok x" "sum_list (map payload entry) \<le> 600" "length entry = 12"
    using read_cred_good [OF g hd(1)] by blast
  define cs where "cs = WMap 4 # entry @ [WUInt 9, WUInt (of_nat (length l)), WUInt 10, WUInt (word_of_int (credProtect c))]"
  define s1 where "s1 = s0\<lparr>enumCredIdx := 1, sent := sent s @ [reply_of cs]\<rparr>"
  have "respond cs (s0\<lparr>enumCredIdx := 1\<rparr>) = Some s1"
    using respond_reply [of cs "s0\<lparr>enumCredIdx := 1\<rparr>"] c(4-6) by (auto simp: cs_def s1_def s0_def)
  then have "mgmt_creds_begin e w target s = Some s1"
    using c b hd(2) by (simp add: mgmt_first_cred_def cs_def s0_def)
  moreover have "creds_good e st s1" using g by (simp add: creds_good_def s1_def)
  moreover have "enumCredIdx s1 \<le> length (enumCredList s1)" "length (enumCredList s1) - enumCredIdx s1 = length l - 1"
    using assms(10) by (auto simp: s1_def s0_def Suc_le_eq)
  ultimately obtain s' xs where r: "list_creds e w target (Suc (length l - 1)) s = Some s'"
    "sent s' = sent s1 @ xs @ [(0x90, [0x2E])]" "list_all2 (cred_reply st) (drop (enumCredIdx s1) (enumCredList s1)) xs"
    using creds.all_items [of e st s1] unfolding list_creds_def by (metis bind.bind_lunit)
  moreover have "Suc (length l - 1) = length l" using assms(10) by (cases l) auto
  ultimately show ?thesis
    using c(1,3) by (intro exI [of _ s'] exI [of _ "reply_of cs"] exI [of _ xs])
      (auto simp: s1_def s0_def cs_def drop_Suc)
qed

text \<open>
  C24: listing what is stored. Asking for the first relying party and then for the next ones names every
  relying party of the store, each exactly once, and then reports that there are no more; for a relying
  party of a stored credential, after user verification, the same holds for its credentials, which
  include that credential, in the order they were stored.
\<close>

theorem management_enumerates:
  assumes "roomy (plat e)" "holds (plat e) (ctap_files s) st" "distinct (map fst st)" "\<forall>(cid, c) \<in> set st. listable cid c"
    "\<forall>x. length (mbed_sha256 (crypt e) x) = 32" "(cid, c) \<in> set st"
    "lastFingerprintSuccessTime s > 0" "now w - lastFingerprintSuccessTime s < 5000"
  shows "let rps = firsts (map (rpId \<circ> snd) st); target = mbed_sha256 (crypt e) (rpId c); l = creds_of e target st in
    distinct rps \<and> set rps = rpId ` snd ` set st \<and>
    (\<exists>s'. list_rps e (length rps) s = Some s' \<and> sent s' = sent s @
      reply_of (WMap 3 # rp_entry e (hd rps) @ [WUInt 5, WUInt (of_nat (length rps))]) #
      map (\<lambda>rp. reply_of (WMap 2 # rp_entry e rp)) (tl rps) @ [(0x90, [0x2E])]) \<and>
    distinct l \<and> cid \<in> set l \<and>
    (\<exists>s' first xs. list_creds e w target (length l) s = Some s' \<and> sent s' = sent s @ first # xs @ [(0x90, [0x2E])] \<and>
      (\<exists>c entry. map_of st (hd l) = Some c \<and> cred_entry (hd l) c = Some entry \<and>
        first = reply_of (WMap 4 # entry @ [WUInt 9, WUInt (of_nat (length l)), WUInt 10, WUInt (word_of_int (credProtect c))])) \<and>
      list_all2 (cred_reply st) (tl l) xs)"
proof -
  define target where "target = mbed_sha256 (crypt e) (rpId c)"
  have ne: "st \<noteq> []" using assms(6) by auto
  have cid: "cid \<in> set (creds_of e target st)" using assms(6) by (force simp: creds_of_def target_def)
  then have l: "creds_of e target st \<noteq> []" by auto
  have d: "distinct (creds_of e target st)"
    using distinct_filter [of "map fst st"] assms(3) by (auto simp: creds_of_def distinct_map intro: inj_on_subset)
  have t: "length target = 32" using assms(5) by (simp add: target_def)
  show ?thesis
    using list_rps_all [OF assms(1,2) ne assms(4,5)] list_creds_all [OF assms(1-5) t assms(7,8) l] cid d
    by (simp add: Let_def distinct_firsts image_comp flip: target_def)
qed

text \<open>A file with one credential.\<close>

definition saved_fs :: "cred \<Rightarrow> spiffs \<times> nonce_state" where
  "saved_fs c = snd (the (savePasskeyRecord (plat good_env) 7 (ascii ''ab'') c (Map.empty, booted)))"

lemma saved_fs:
  assumes "cred_ok (ascii ''ab'') c"
  shows "holds (plat good_env) (fst (saved_fs c)) [(ascii ''ab'', c)]"
proof -
  have e: "mbed_gcm_encrypt (crypt good_env) k v a d = Some (d, replicate 16 9)" for k v a d
    by (simp add: good_env_def toy_gcm_def toy_env_def)
  have "heap (plat good_env) n" for n by (simp add: good_env_def toy_env_def toy_platform_def)
  then have "\<exists>x. savePasskeyRecord (plat good_env) 7 (ascii ''ab'') c (Map.empty, booted) = Some (True, x)"
    by (simp add: savePasskeyRecord_def encryptStoragePayload_def e good_env_ok(4)
        accel_gcm_encrypt_eq [OF good_env_ok(1)] generate_aes_gcm_nonce_def booted_def)
  then have 1: "savePasskeyRecord (plat good_env) 7 (ascii ''ab'') c (Map.empty, booted) = Some (True, saved_fs c)"
    by (auto simp: saved_fs_def)
  obtain r fs' s' where s: "savePasskeyRecord (plat good_env) 7 (ascii ''ab'') c (Map.empty, booted) = Some (r, fs', s')"
    "holds (plat good_env) fs' (if r then [] @ [(ascii ''ab'', c)] else [])"
    using save_holds [OF good_env_ok(3) holds_empty assms toy_vault(2), of 7] by metis
  have "(r, fs', s') = (True, saved_fs c)" using s(1) 1 by (metis option.inject)
  then have "r" "fst (saved_fs c) = fs'" by (metis fst_conv snd_conv)+
  with s(2) show ?thesis by simp
qed

definition full_ctap :: "cred \<Rightarrow> ctap" where
  "full_ctap c = store_files (fst (saved_fs c)) (toy_ctap\<lparr>lastFingerprintSuccessTime := 1\<rparr>)"

theorem management_enumerates_witness:
  "\<exists>s'. list_rps good_env 1 (full_ctap toy_cred) = Some s' \<and> length (sent s') = 2"
proof -
  have l: "\<forall>(cid, c) \<in> set [(ascii ''ab'', toy_cred)]. listable cid c"
    by (auto simp: listable_def toy_cred_def ascii_def)
  have f: "holds (plat good_env) (ctap_files (full_ctap toy_cred)) [(ascii ''ab'', toy_cred)]"
    using saved_fs [OF toy_cred_ok] by (simp add: full_ctap_def store_files_def)
  have o: "roomy (plat good_env)" "\<forall>x. length (mbed_sha256 (crypt good_env) x) = 32"
    "firsts (map (rpId \<circ> snd) [(ascii ''ab'', toy_cred)]) = [rpId toy_cred]" "sent (full_ctap toy_cred) = []"
    "lastFingerprintSuccessTime (full_ctap toy_cred) = 1"
    using good_env_ok(3) primitivesD(1) [OF good_env_ok(2)]
    by (simp_all add: sound_def firsts_def full_ctap_def store_files_def toy_ctap_def)
  show ?thesis
    using management_enumerates [OF o(1) f _ l o(2), of "ascii ''ab''" toy_cred "\<lparr>now = 2, turns = []\<rparr>"] o(3-5)
    by (auto simp: Let_def)
qed

text \<open>
  Deleting a credential: exactly the record with the id goes. Nothing of the request authenticates the
  platform, and no touch is asked for.
\<close>

theorem mgmt_delete_exact:
  assumes "roomy (plat e)" "holds (plat e) (ctap_files s) st"
  shows "\<exists>s'. mgmt_delete e credId s = Some s' \<and>
    holds (plat e) (ctap_files s') (filter (\<lambda>(cid, c). cid \<noteq> toHex credId) st) \<and>
    sent s' = sent s @ [if toHex credId \<in> fst ` set st then (0x90, [0, 0xA0]) else (0x90, [0x2E])]"
proof -
  obtain fs' where d: "delete_where (plat e) (\<lambda>cid rp. cid = toHex credId) (ctap_files s) =
      Some (\<exists>(cid, c) \<in> set st. cid = toHex credId, fs')"
    "holds (plat e) fs' (filter (\<lambda>(cid, c). cid \<noteq> toHex credId) st)"
    using delete_holds [OF assms, of "\<lambda>cid rp. cid = toHex credId"] by blast
  have "(\<exists>(cid, c) \<in> set st. cid = toHex credId) \<longleftrightarrow> toHex credId \<in> fst ` set st" by force
  with d show ?thesis
    by (simp add: mgmt_delete_def deletePasskeyRecord_def empty_reply fail_with_def send_hid_def store_files_def)
qed

text \<open>The minimum PIN length can be lowered again, down to the default, by anyone.\<close>

lemma config_lowers_minimum:
  "map_option (\<lambda>s. getMinPinLength (sys s)) (authConfig toy_env [0xA2, 1, 3, 2, 0xA1, 2, 4]
     (toy_ctap\<lparr>sys := open_system\<lparr>files := [''/fido_min_pin.txt'' \<mapsto> ascii ''12'']\<rparr>\<rparr>)) = Some 4"
proof -
  have p: "parse_config [0xA2, 1, 3, 2, 0xA1, 2, 4] = Some (Some \<lparr>cfSub = 3, cfMinPin = 4\<rparr>)" by code_simp
  have "toInt (show_int 4) = 4" by code_simp
  then show ?thesis
    by (simp add: authConfig_def p empty_reply send_hid_def toy_env_def toy_platform_def setMinPinLength_def
        write_file_def getMinPinLength_def)
qed

end
