(* ===== verification/CtapAssert.thy ===== *)
theory CtapAssert
  imports CtapManage
begin

text \<open>
  authenticatorGetAssertion (0x02) and authenticatorGetNextAssertion (0x08) of \<open>src/FIDO2Manager.cpp\<close>:
  from the credentials that match the request over user verification and the signature counter to the
  signed reply.

  What a command observes beside the clock and the sensor: the random bytes for a stateless master
  secret that does not exist yet, and how many keep-alives are sent while the signing task runs. That the
  task is created and ends is assumed.
\<close>

record observed =
  user_watch :: watch
  new_secret :: bytes
  busy :: nat

definition stay_busy :: "nat \<Rightarrow> ctap \<Rightarrow> ctap" where
  "stay_busy n s = s\<lparr>sent := sent s @ replicate n (0xBB, [2])\<rparr>"

section \<open>Which credential\<close>

text \<open>\<open>unwrapStatelessCredential\<close> with the secret it fetches or creates.\<close>

definition unwrap_stateless :: "env \<Rightarrow> bytes \<Rightarrow> bytes \<Rightarrow> bytes \<Rightarrow> ctap \<Rightarrow> (unwrapped option \<times> ctap) option" where
  "unwrap_stateless e fresh credId rp s =
     (if length credId < 123 then Some (None, s)
      else case getStatelessMasterSecret (nvs_ok e) fresh (sys s) of (secret, t) \<Rightarrow>
        map_option (\<lambda>u. (u, s\<lparr>sys := t\<rparr>)) (unwrapStatelessCredential (plat e) secret credId rp))"

text \<open>The entries of the allow list that belong to this device and relying party.\<close>

fun match_allowed :: "env \<Rightarrow> bytes \<Rightarrow> bytes \<Rightarrow> bytes list \<Rightarrow> bytes list \<Rightarrow> ctap \<Rightarrow> (bytes list \<times> ctap) option" where
  "match_allowed e fresh rp [] matched s = Some (matched, s)"
| "match_allowed e fresh rp (credId # ids) matched s = do {
     (u, s) \<leftarrow> unwrap_stateless e fresh credId rp s;
     case u of
       Some _ \<Rightarrow> match_allowed e fresh rp ids (matched @ [toHex credId]) s
     | None \<Rightarrow> do {
         r \<leftarrow> getPasskeyRecord (plat e) (ctap_files s) (toHex credId);
         match_allowed e fresh rp ids
           (case r of
              Some c \<Rightarrow> if rpFieldMatchesPlainRpId (plat e) (rpId c) rp then matched @ [toHex credId] else matched
            | None \<Rightarrow> matched) s } }"

text \<open>\<open>uint8_t binCredId[256]\<close>\<close>

definition resolve :: "env \<Rightarrow> bytes \<Rightarrow> bytes \<Rightarrow> bytes \<Rightarrow> ctap \<Rightarrow> (cred option \<times> ctap) option" where
  "resolve e fresh rp credHex s =
     (let binCredLen = length credHex div 2 in
      if binCredLen > 256 then None
      else do {
        (u, s) \<leftarrow> unwrap_stateless e fresh (fromHex credHex binCredLen) rp s;
        case u of
          Some u \<Rightarrow> Some (Some \<lparr>rpId = rp, userIdHex = outUserIdHex u,
            userName = (if outUserName u = [] then ascii ''Stateless User'' else outUserName u),
            privateKeyHex = outPrivateKeyHex u, algId = outAlgId u, credProtect = 1,
            largeBlobKeyHex = [], credBlobHex = []\<rparr>, s)
        | None \<Rightarrow> map_option (\<lambda>r. (r, s)) (getPasskeyRecord (plat e) (ctap_files s) credHex) })"

section \<open>The signed reply\<close>

text \<open>The parameters of an assertion that a later getNextAssertion needs, too.\<close>

record assertion =
  forRpId :: bytes
  clientHash :: bytes
  extReq :: bool
  salt1 :: bytes
  salt2 :: bytes
  largeBlobReq :: bool
  credBlobReq :: bool

definition auth_data :: "env \<Rightarrow> bytes \<Rightarrow> u8 \<Rightarrow> u32 \<Rightarrow> bytes" where
  "auth_data e rp flags n = mbed_sha256 (crypt e) rp @ [flags] @ u32_bytes n"

text \<open>The outputs are computed under the first 32 bytes of the private key.\<close>

definition hmac_output :: "env \<Rightarrow> assertion \<Rightarrow> cred \<Rightarrow> bytes" where
  "hmac_output e a c =
     (let rawKeyBytes = fromHex (privateKeyHex c) 32;
          out = (\<lambda>salt. if extReq a \<and> length (salt1 a) = 32 \<and> length salt = 32
            then mbed_hmac_sha256 (crypt e) rawKeyBytes salt else replicate 32 0) in
      if length (salt2 a) = 32 then out (salt1 a) @ out (salt2 a) else out (salt1 a))"

text \<open>
  The user id goes through a buffer of 64 bytes, the credential blob through one of 32; \<open>ncreds\<close> is the
  number of credentials, written when there are several.
\<close>

definition includes_blob :: "assertion \<Rightarrow> cred \<Rightarrow> bool" where
  "includes_blob a c \<longleftrightarrow> credBlobReq a \<and> credBlobHex c \<noteq> []"

definition user_entity :: "cred \<Rightarrow> write_call list" where
  "user_entity c =
     [WUInt 4, WMap 3, text_lit ''id'', WBytes (fromHex (userIdHex c) (length (userIdHex c) div 2)),
      text_lit ''name'', WText (cstr (userName c)), text_lit ''displayName'', WText (cstr (userName c))]"

definition ext_outputs :: "env \<Rightarrow> assertion \<Rightarrow> cred \<Rightarrow> write_call list" where
  "ext_outputs e a c =
     [WUInt 8, WMap (of_bool (extReq a) + of_bool (includes_blob a c))] @
     (if extReq a then [text_lit ''hmac-secret'', WBytes (hmac_output e a c)] else []) @
     (if includes_blob a c
      then [text_lit ''credBlob'', WBytes (fromHex (credBlobHex c) (length (credBlobHex c) div 2))] else [])"

definition signed_part :: "bytes \<Rightarrow> bytes \<Rightarrow> bytes \<Rightarrow> write_call list" where
  "signed_part credHex authData sig =
     [WUInt 1, WMap 2, text_lit ''id'', WBytes (fromHex credHex (length credHex div 2)), text_lit ''type'',
      text_lit ''public-key'', WUInt 2, WBytes authData, WUInt 3, WBytes sig]"

definition assertion_items ::
  "env \<Rightarrow> assertion \<Rightarrow> nat \<Rightarrow> bytes \<Rightarrow> cred \<Rightarrow> bytes \<Rightarrow> bytes \<Rightarrow> write_call list option" where
  "assertion_items e a ncreds credHex c authData sig =
     (let includeLargeBlobKey = (largeBlobReq a \<and> length (largeBlobKeyHex c) = 64);
          includeUserEntity = (userIdHex c \<noteq> []);
          hasExtOutput = (extReq a \<or> includes_blob a c) in
      if length (userIdHex c) div 2 > 64 \<or> includes_blob a c \<and> length (credBlobHex c) div 2 > 32 then None
      else Some (
        WMap (3 + of_bool includeUserEntity + of_bool hasExtOutput + of_bool (ncreds > 1) +
          of_bool includeLargeBlobKey) #
        signed_part credHex authData sig @
        (if includeUserEntity then user_entity c else []) @
        (if ncreds > 1 then [WUInt 5, WUInt (of_nat ncreds)] else []) @
        (if includeLargeBlobKey then [WUInt 7, WBytes (fromHex (largeBlobKeyHex c) 32)] else []) @
        (if hasExtOutput then ext_outputs e a c else [])))"

text \<open>The counter is advanced before the signature is made.\<close>

definition sign_assertion ::
  "env \<Rightarrow> nat \<Rightarrow> assertion \<Rightarrow> u8 \<Rightarrow> nat \<Rightarrow> bytes \<Rightarrow> cred \<Rightarrow> ctap \<Rightarrow> ctap option" where
  "sign_assertion e n a flags ncreds credHex c s = do {
     let currentSignCount = loadPersistedSignCount s + 1;
     let s = savePersistedSignCount currentSignCount s;
     let authData = auth_data e (forRpId a) flags currentSignCount;
     sig \<leftarrow> generateAlgSignature (heap (plat e)) (signing e) (sint (algId c)) (privateKeyHex c) (authData @ clientHash a);
     let s = stay_busy n s;
     case sig of
       None \<Rightarrow> fail_with 0x01 s
     | Some sig \<Rightarrow>
         if \<not> heap (plat e) 8192 then fail_with 0x01 s
         else do { cs \<leftarrow> assertion_items e a ncreds credHex c authData sig; respond cs s } }"

section \<open>The commands\<close>

definition remember_assertion :: "bytes list \<Rightarrow> ga_req \<Rightarrow> ctap \<Rightarrow> ctap" where
  "remember_assertion matched r s =
     (let s = s\<lparr>nextAssertionCreds := matched, nextAssertionIdx := 1, nextAssertionRpId := gaRpId r,
            nextAssertionClientHash := gaHash r, nextAssertionOptionUV := True, nextAssertionExtReq := gaExt r,
            nextAssertionLargeBlobReq := gaLargeBlobKey r, nextAssertionCredBlobReq := gaCredBlob r\<rparr> in
      if gaExt r then s\<lparr>nextAssertionSalt1 := gaSalt1 r, nextAssertionSalt2 := gaSalt2 r\<rparr> else s)"

definition requested :: "ga_req \<Rightarrow> assertion" where
  "requested r = \<lparr>forRpId = gaRpId r, clientHash = gaHash r, extReq = gaExt r, salt1 = gaSalt1 r, salt2 = gaSalt2 r,
     largeBlobReq = gaLargeBlobKey r, credBlobReq = gaCredBlob r\<rparr>"

definition remembered :: "ctap \<Rightarrow> assertion" where
  "remembered s = \<lparr>forRpId = nextAssertionRpId s, clientHash = nextAssertionClientHash s, extReq = nextAssertionExtReq s,
     salt1 = nextAssertionSalt1 s, salt2 = nextAssertionSalt2 s, largeBlobReq = nextAssertionLargeBlobReq s,
     credBlobReq = nextAssertionCredBlobReq s\<rparr>"

definition matching :: "env \<Rightarrow> bytes \<Rightarrow> ga_req \<Rightarrow> ctap \<Rightarrow> (bytes list \<times> ctap) option" where
  "matching e fresh r s =
     (if gaAllow r \<noteq> [] then match_allowed e fresh (gaRpId r) (gaAllow r) [] s
      else map_option (\<lambda>l. (l, s)) (findAllCredentialsByRp (plat e) (ctap_files s) (gaRpId r)))"

definition assert_with :: "env \<Rightarrow> observed \<Rightarrow> ga_req \<Rightarrow> bytes list \<Rightarrow> cred \<Rightarrow> ctap \<Rightarrow> ctap option" where
  "assert_with e ob r matched c s = do {
     let s = remember_assertion matched r s;
     (v, s) \<leftarrow> verify_recent_user e (user_watch ob) s;
     case v of
       Canceled \<Rightarrow> fail_with 0x2D s
     | Timed_Out \<Rightarrow> fail_with 0x34 s
     | Verified _ \<Rightarrow>
         sign_assertion e (busy ob) (requested r) (0x01 OR 0x04 OR (if gaExt r then 0x80 else 0))
           (length matched) (hd matched) c s }"

definition assert_for :: "env \<Rightarrow> observed \<Rightarrow> ga_req \<Rightarrow> ctap \<Rightarrow> ctap option" where
  "assert_for e ob r s =
     (if gaRpId r = [] \<or> length (gaHash r) \<noteq> 32 then fail_with 0x0A s
      else do {
        (matched, s) \<leftarrow> matching e (new_secret ob) r s;
        if matched = [] then fail_with 0x2E s
        else do {
          (found, s) \<leftarrow> resolve e (new_secret ob) (gaRpId r) (hd matched) s;
          case found of None \<Rightarrow> fail_with 0x2E s | Some c \<Rightarrow> assert_with e ob r matched c s } })"

definition getAssertion :: "env \<Rightarrow> observed \<Rightarrow> bytes \<Rightarrow> ctap \<Rightarrow> ctap option" where
  "getAssertion e ob data s = do {
     req \<leftarrow> parse_ga data;
     case req of None \<Rightarrow> fail_with 0x12 s | Some r \<Rightarrow> assert_for e ob r s }"

definition getNextAssertion :: "env \<Rightarrow> observed \<Rightarrow> ctap \<Rightarrow> ctap option" where
  "getNextAssertion e ob s =
     (if nextAssertionIdx s \<ge> length (nextAssertionCreds s) then fail_with 0x2C s
      else do {
        let credHex = nextAssertionCreds s ! nextAssertionIdx s;
        let s = s\<lparr>nextAssertionIdx := nextAssertionIdx s + 1\<rparr>;
        (found, s) \<leftarrow> resolve e (new_secret ob) (nextAssertionRpId s) credHex s;
        case found of
          None \<Rightarrow> fail_with 0x2E s
        | Some c \<Rightarrow>
            sign_assertion e (busy ob) (remembered s)
              (0x01 OR (if nextAssertionOptionUV s then 0x04 else 0) OR (if nextAssertionExtReq s then 0x80 else 0))
              0 credHex c s })"

section \<open>The reply is signed\<close>

text \<open>A credential whose fields fit the buffers of the reply.\<close>

definition presentable :: "cred \<Rightarrow> bool" where
  "presentable c \<longleftrightarrow> length (userIdHex c) \<le> 128 \<and> length (userName c) \<le> 255 \<and> 0 \<notin> set (userName c) \<and>
     length (credBlobHex c) \<le> 64"

lemma length_hmac_output:
  assumes "primitives_ok (crypt e)"
  shows "length (hmac_output e a c) \<le> 64"
  using primitivesD(2) [OF assms] by (simp add: hmac_output_def Let_def)

text \<open>Calls that are accepted and need at most \<open>n\<close> bytes.\<close>

definition within :: "nat \<Rightarrow> write_call list \<Rightarrow> bool" where
  "within n cs \<longleftrightarrow> (\<forall>x \<in> set cs. call_ok x) \<and> sum_list (map payload cs) + 9 * length cs \<le> n"

lemma within_append: "within m cs \<Longrightarrow> within n ds \<Longrightarrow> within (m + n) (cs @ ds)"
  by (auto simp: within_def)

lemma within_simps:
  "within n []" "within n (c # cs) \<longleftrightarrow> call_ok c \<and> payload c + 9 \<le> n \<and> within (n - (payload c + 9)) cs"
  by (auto simp: within_def)

lemma within_if: "(b \<Longrightarrow> within n cs) \<Longrightarrow> within n (if b then cs else [])"
  by (simp add: within_def)

lemma within_respond: "within 8181 cs \<Longrightarrow> respond cs s = Some (s\<lparr>sent := sent s @ [reply_of cs]\<rparr>)"
  using respond_reply [of cs s] by (simp add: within_def)

lemma length_lits:
  "payload (text_lit s) = length s" "call_ok (text_lit s) \<longleftrightarrow> length s \<le> 255"
  by (simp_all add: text_lit_def ascii_def)

lemma assertion_items_fit:
  assumes "primitives_ok (crypt e)" "presentable c" "length credHex \<le> 512" "length authData = 37" "length sig \<le> 5000"
  shows "\<exists>cs. assertion_items e a n credHex c authData sig = Some cs \<and> within 8181 cs"
proof -
  have b: "length (userIdHex c) div 2 \<le> 64" "length (credBlobHex c) div 2 \<le> 32" "length credHex div 2 \<le> 256"
    "cstr (userName c) = userName c" "length (userName c) \<le> 255"
    using assms(2,3) by (auto simp: presentable_def)
  have s: "within 5600 (signed_part credHex authData sig)"
    using b assms(4,5) by (auto simp: signed_part_def within_simps length_lits)
  have u: "within 700 (user_entity c)" using b by (auto simp: user_entity_def within_simps length_lits)
  have x: "within 200 (ext_outputs e a c)"
    using b length_hmac_output [OF assms(1), of a c] by (auto simp: ext_outputs_def within_simps length_lits)
  show ?thesis
    using b(1,2) s u x unfolding assertion_items_def Let_def
    by (auto simp: within_def)
qed

text \<open>
  A stored credential that can be used: its id is not long enough for a stateless one, its reply fits,
  and its key signs for the public key \<open>pk\<close>.
\<close>

definition usable :: "env \<Rightarrow> (int \<Rightarrow> bytes \<Rightarrow> bytes \<Rightarrow> bytes \<Rightarrow> bool) \<Rightarrow> bytes \<Rightarrow> bytes \<Rightarrow> cred \<Rightarrow> bool" where
  "usable e V pk cid c \<longleftrightarrow> presentable c \<and> length cid < 246 \<and>
     signs V (heap (plat e)) (signing e) (sint (algId c)) (privateKeyHex c, pk) \<and>
     (\<forall>m sig. generateAlgSignature (heap (plat e)) (signing e) (sint (algId c)) (privateKeyHex c) m = Some (Some sig) \<longrightarrow>
        length sig \<le> 5000)"

text \<open>The reply for a credential: its signature verifies for the relying party, the flags and the request.\<close>

definition asserts ::
  "env \<Rightarrow> (int \<Rightarrow> bytes \<Rightarrow> bytes \<Rightarrow> bytes \<Rightarrow> bool) \<Rightarrow> (bytes \<Rightarrow> bytes) \<Rightarrow> store \<Rightarrow> assertion \<Rightarrow> u8 \<Rightarrow> nat \<Rightarrow> u32 \<Rightarrow> bytes \<Rightarrow>
    u8 \<times> bytes \<Rightarrow> bool" where
  "asserts e V pub st a flags ncreds n cid x \<longleftrightarrow> (\<exists>c sig cs. map_of st cid = Some c \<and>
     assertion_items e a ncreds cid c (auth_data e (forRpId a) flags n) sig = Some cs \<and> x = reply_of cs \<and>
     V (sint (algId c)) (pub cid) (auth_data e (forRpId a) flags n @ clientHash a) sig)"

lemma sign_assertion_ok:
  assumes "primitives_ok (crypt e)" "\<forall>n. heap (plat e) n" "usable e V (pub cid) cid c" "map_of st cid = Some c"
    "n = loadPersistedSignCount s + 1"
  shows "\<exists>x. sign_assertion e k a flags ncreds cid c s =
      Some (s\<lparr>eeprom_word := n, sent := sent s @ replicate k (0xBB, [2]) @ [x]\<rparr>) \<and>
    asserts e V pub st a flags ncreds n cid x"
proof -
  define ad where "ad = auth_data e (forRpId a) flags n"
  obtain sig where sig: "generateAlgSignature (heap (plat e)) (signing e) (sint (algId c)) (privateKeyHex c)
      (ad @ clientHash a) = Some (Some sig)" "V (sint (algId c)) (pub cid) (ad @ clientHash a) sig"
    using assms(3) unfolding usable_def signs_def fst_conv snd_conv by blast
  have l: "length ad = 37" using primitivesD(1) [OF assms(1)] by (simp add: ad_def auth_data_def)
  have u: "presentable c" "length cid \<le> 512" "length sig \<le> 5000" using assms(3) sig(1) by (auto simp: usable_def)
  obtain cs where cs: "assertion_items e a ncreds cid c ad sig = Some cs" "within 8181 cs"
    using assertion_items_fit [OF assms(1) u(1,2) l u(3)] by blast
  have "sign_assertion e k a flags ncreds cid c s =
      Some (s\<lparr>eeprom_word := n, sent := sent s @ replicate k (0xBB, [2]) @ [reply_of cs]\<rparr>)"
    using sig(1) cs(1) within_respond [OF cs(2)] assms(2)
    by (simp add: sign_assertion_def Let_def savePersistedSignCount_def stay_busy_def ad_def flip: assms(5))
  with cs(1) sig(2) assms(4) show ?thesis unfolding asserts_def ad_def by blast
qed

lemma resolve_stored:
  assumes "roomy (plat e)" "holds (plat e) (ctap_files s) st" "map_of st cid = Some c" "length cid < 246"
  shows "resolve e fresh rp cid s = Some (Some c, s)"
  using getPasskey_holds [OF assms(1,2), of cid] assms(3,4)
  by (auto simp: resolve_def unwrap_stateless_def truncate_id Let_def)

section \<open>One assertion per credential\<close>

definition replies :: "ctap \<Rightarrow> (u8 \<times> bytes) list" where
  "replies s = filter (\<lambda>(cmd, d). cmd = 0x90) (sent s)"

definition next_flags :: "assertion \<Rightarrow> u8" where
  "next_flags a = 0x05 OR (if extReq a then 0x80 else 0)"

definition next_good :: "env \<Rightarrow> (int \<Rightarrow> bytes \<Rightarrow> bytes \<Rightarrow> bytes \<Rightarrow> bool) \<Rightarrow> (bytes \<Rightarrow> bytes) \<Rightarrow> store \<Rightarrow> assertion \<Rightarrow> ctap \<Rightarrow> bool" where
  "next_good e V pub st a s \<longleftrightarrow> roomy (plat e) \<and> primitives_ok (crypt e) \<and> (\<forall>n. heap (plat e) n) \<and>
     holds (plat e) (ctap_files s) st \<and> (\<forall>(cid, c) \<in> set st. usable e V (pub cid) cid c) \<and>
     set (nextAssertionCreds s) \<subseteq> fst ` set st \<and> remembered s = a \<and> nextAssertionOptionUV s"

lemma remembered_simps [simp]:
  "remembered (s\<lparr>eeprom_word := n\<rparr>) = remembered s" "remembered (s\<lparr>sent := x\<rparr>) = remembered s"
  "remembered (s\<lparr>nextAssertionIdx := i\<rparr>) = remembered s"
  by (simp_all add: remembered_def)

lemma next_assertion_good:
  assumes "next_good e V pub st a s" "nextAssertionIdx s < length (nextAssertionCreds s)"
  shows "\<exists>x. getNextAssertion e ob s = Some (s\<lparr>nextAssertionIdx := nextAssertionIdx s + 1,
      eeprom_word := loadPersistedSignCount s + 1, sent := sent s @ replicate (busy ob) (0xBB, [2]) @ [x]\<rparr>) \<and>
    asserts e V pub st a (next_flags a) 0 (loadPersistedSignCount s + 1) (nextAssertionCreds s ! nextAssertionIdx s) x"
proof -
  define cid where "cid = nextAssertionCreds s ! nextAssertionIdx s"
  have g: "roomy (plat e)" "primitives_ok (crypt e)" "\<forall>n. heap (plat e) n" "holds (plat e) (ctap_files s) st"
    "\<forall>(cid, c) \<in> set st. usable e V (pub cid) cid c" "remembered s = a" "nextAssertionOptionUV s"
    using assms(1) by (auto simp: next_good_def)
  have "cid \<in> fst ` set st" using assms by (auto simp: cid_def next_good_def)
  then obtain c where c: "map_of st cid = Some c" by (metis map_of_eq_None_iff not_None_eq)
  then have u: "usable e V (pub cid) cid c" using g(5) map_of_SomeD [OF c] by auto
  define s1 where "s1 = s\<lparr>nextAssertionIdx := nextAssertionIdx s + 1\<rparr>"
  have "resolve e (new_secret ob) (nextAssertionRpId s1) cid s1 = Some (Some c, s1)"
    using g(1,4) c u by (intro resolve_stored) (simp_all add: s1_def usable_def)
  moreover have f: "0x01 OR (if nextAssertionOptionUV s1 then 0x04 else 0) OR
      (if nextAssertionExtReq s1 then 0x80 else 0) = next_flags a"
    using g(6,7) by (auto simp: s1_def next_flags_def remembered_def)
  moreover have "remembered s1 = a" using g(6) by (simp add: s1_def)
  ultimately have "getNextAssertion e ob s = sign_assertion e (busy ob) a (next_flags a) 0 cid c s1"
    using assms(2) by (simp add: getNextAssertion_def Let_def cid_def s1_def)
  moreover have "loadPersistedSignCount s1 = loadPersistedSignCount s" by (simp add: s1_def loadPersistedSignCount_def)
  ultimately show ?thesis
    using sign_assertion_ok [where s = s1 and pub = pub and cid = cid and k = "busy ob" and a = a and flags = "next_flags a" and ncreds = 0, OF g(2,3) u c refl]
    by (simp add: s1_def flip: cid_def)
qed

interpretation assertions: enumeration "getNextAssertion e ob" nextAssertionCreds nextAssertionIdx replies
  "next_good e V pub st a" "\<lambda>cid x. \<exists>n. asserts e V pub st a (next_flags a) 0 n cid x" "(0x90, [0x2C])" for e ob V pub st a
proof
  fix s assume s: "next_good e V pub st a s" "nextAssertionIdx s < length (nextAssertionCreds s)"
  obtain x where x: "getNextAssertion e ob s = Some (s\<lparr>nextAssertionIdx := nextAssertionIdx s + 1,
      eeprom_word := loadPersistedSignCount s + 1, sent := sent s @ replicate (busy ob) (0xBB, [2]) @ [x]\<rparr>)"
    "asserts e V pub st a (next_flags a) 0 (loadPersistedSignCount s + 1) (nextAssertionCreds s ! nextAssertionIdx s) x"
    using next_assertion_good [OF s] by blast
  moreover have "fst x = 0x90" using x(2) by (auto simp: asserts_def reply_of_def)
  ultimately show "\<exists>s' x. getNextAssertion e ob s = Some s' \<and> next_good e V pub st a s' \<and>
      nextAssertionCreds s' = nextAssertionCreds s \<and> nextAssertionIdx s' = nextAssertionIdx s + 1 \<and>
      replies s' = replies s @ [x] \<and>
      (\<exists>n. asserts e V pub st a (next_flags a) 0 n (nextAssertionCreds s ! nextAssertionIdx s) x)"
    using s(1) by (intro exI [of _ x] exI [of _ "s\<lparr>nextAssertionIdx := nextAssertionIdx s + 1,
      eeprom_word := loadPersistedSignCount s + 1, sent := sent s @ replicate (busy ob) (0xBB, [2]) @ [x]\<rparr>"])
      (auto simp: next_good_def replies_def split: prod.splits)
next
  fix s assume "next_good e V pub st a s" "\<not> nextAssertionIdx s < length (nextAssertionCreds s)"
  then show "\<exists>s'. getNextAssertion e ob s = Some s' \<and> replies s' = replies s @ [(0x90, [0x2C])]"
    by (simp add: getNextAssertion_def fail_with_def send_hid_def replies_def)
qed

text \<open>What user verification leaves of the files.\<close>

lemma verify_recent_frame:
  assumes "verify_recent_user e w s = Some (v, s')"
  shows "\<exists>s1 t. uv_frame s s1 \<and> s' = s1\<lparr>lastFingerprintSuccessTime := t\<rparr>"
proof (cases "lastFingerprintSuccessTime s > 0 \<and> now w - lastFingerprintSuccessTime s < 5000")
  case True
  then show ?thesis using assms uv_frame_refl [of s] ctap.surjective [of s]
    by (intro exI [of _ s] exI [of _ "lastFingerprintSuccessTime s"]) (simp add: verify_recent_user_def)
next
  case False
  then obtain s1 where "uv_loop e (now w) (turns w) 0 s = Some (v, s1)"
    "s' = (case v of Verified t \<Rightarrow> s1\<lparr>lastFingerprintSuccessTime := t\<rparr> | _ \<Rightarrow> s1)"
    using assms by (auto simp: verify_recent_user_def verify_user_def bind_eq_Some_conv)
  then show ?thesis using uv_loop_frame [of e "now w" "turns w" 0 s v s1]
    by (intro exI [of _ s1] exI [of _ "case v of Verified t \<Rightarrow> t | _ \<Rightarrow> lastFingerprintSuccessTime s1"])
      (auto split: verdict.splits)
qed

lemma verify_recent_same:
  assumes "verify_recent_user e w s = Some (v, s')"
  shows "ctap_files s' ''/passkeys.bin'' = ctap_files s ''/passkeys.bin''" "eeprom_word s' = eeprom_word s"
    "nextAssertionCreds s' = nextAssertionCreds s" "nextAssertionIdx s' = nextAssertionIdx s"
    "remembered s' = remembered s" "nextAssertionOptionUV s' = nextAssertionOptionUV s"
    "\<exists>n. sent s' = sent s @ replicate n (0xBB, [2])"
proof -
  obtain s1 t where f: "uv_frame s s1" "s' = s1\<lparr>lastFingerprintSuccessTime := t\<rparr>"
    using verify_recent_frame [OF assms] by blast
  then obtain n c h where s1: "s1 = s\<lparr>sys := sys s1, lastConfidenceScore := c, hasPendingCommand := h,
      sent := sent s @ replicate n (0xBB, [2])\<rparr>"
    unfolding uv_frame_def by metis
  show "ctap_files s' ''/passkeys.bin'' = ctap_files s ''/passkeys.bin''"
    using same_files [OF uv_frameD(1) [OF f(1)], of "''/passkeys.bin''"] f(2) by simp
  show "eeprom_word s' = eeprom_word s" "nextAssertionCreds s' = nextAssertionCreds s"
    "nextAssertionIdx s' = nextAssertionIdx s"
    "remembered s' = remembered s" "nextAssertionOptionUV s' = nextAssertionOptionUV s"
    "\<exists>n. sent s' = sent s @ replicate n (0xBB, [2])"
    unfolding f(2) by (subst s1, simp add: remembered_def)+
qed

lemma holds_same:
  "fs' ''/passkeys.bin'' = fs ''/passkeys.bin'' \<Longrightarrow> holds p fs' st \<longleftrightarrow> holds p fs st"
  by (simp add: holds_def stores_def)

text \<open>A request, and then the remaining assertions one by one.\<close>

definition all_assertions :: "env \<Rightarrow> observed \<Rightarrow> bytes \<Rightarrow> nat \<Rightarrow> ctap \<Rightarrow> ctap option" where
  "all_assertions e ob data n s = do { s \<leftarrow> getAssertion e ob data s; rounds n (getNextAssertion e ob) s }"

text \<open>What the remembered request says of an extension that was not requested is left from an earlier one.\<close>

definition same_request :: "assertion \<Rightarrow> assertion \<Rightarrow> bool" where
  "same_request a b \<longleftrightarrow> a\<lparr>salt1 := salt1 b, salt2 := salt2 b\<rparr> = b \<and>
     (extReq a \<longrightarrow> salt1 a = salt1 b \<and> salt2 a = salt2 b)"

lemma remember_assertion_simps:
  "nextAssertionCreds (remember_assertion m r s) = m" "nextAssertionIdx (remember_assertion m r s) = 1"
  "nextAssertionOptionUV (remember_assertion m r s)" "sent (remember_assertion m r s) = sent s"
  "sys (remember_assertion m r s) = sys s" "eeprom_word (remember_assertion m r s) = eeprom_word s"
  "lastFingerprintSuccessTime (remember_assertion m r s) = lastFingerprintSuccessTime s"
  "same_request (requested r) (remembered (remember_assertion m r s))"
  by (simp_all add: remember_assertion_def Let_def same_request_def requested_def remembered_def)

lemma same_request_asserts:
  assumes "same_request a b"
  shows "asserts e V pub st a f k n cid x \<longleftrightarrow> asserts e V pub st b f k n cid x" "next_flags a = next_flags b"
proof -
  have s: "forRpId b = forRpId a" "clientHash b = clientHash a" "extReq b = extReq a" "largeBlobReq b = largeBlobReq a"
    "credBlobReq b = credBlobReq a" "extReq a \<Longrightarrow> salt1 b = salt1 a" "extReq a \<Longrightarrow> salt2 b = salt2 a"
    using assms by (cases a; cases b; auto simp: same_request_def)+
  show "next_flags a = next_flags b" by (simp add: next_flags_def s)
  have x: "ext_outputs e b c = ext_outputs e a c" for c
    by (cases "extReq a") (simp_all add: ext_outputs_def includes_blob_def hmac_output_def Let_def s)
  have "assertion_items e b k cid c ad sig = assertion_items e a k cid c ad sig" for c ad sig
    by (simp add: assertion_items_def includes_blob_def x s Let_def)
  then show "asserts e V pub st a f k n cid x \<longleftrightarrow> asserts e V pub st b f k n cid x"
    by (simp add: asserts_def s)
qed

lemma remembered_good:
  assumes "roomy (plat e)" "primitives_ok (crypt e)" "\<forall>n. heap (plat e) n" "holds (plat e) (ctap_files s) st"
    "\<forall>(cid, c) \<in> set st. usable e V (pub cid) cid c" "set m \<subseteq> fst ` set st"
    "verify_recent_user e w (remember_assertion m r s) = Some (v, s1)"
  shows "next_good e V pub st (remembered (remember_assertion m r s)) s1" "nextAssertionCreds s1 = m"
    "nextAssertionIdx s1 = 1" "eeprom_word s1 = eeprom_word s" "replies s1 = replies s"
proof -
  note f = verify_recent_same [OF assms(7), unfolded remember_assertion_simps]
  show "next_good e V pub st (remembered (remember_assertion m r s)) s1"
    using assms(1-6) f holds_same [of "ctap_files s1" "ctap_files s"]
    by (simp add: next_good_def remember_assertion_simps(3))
  show "nextAssertionCreds s1 = m" "nextAssertionIdx s1 = 1" "eeprom_word s1 = eeprom_word s" using f by simp_all
  show "replies s1 = replies s" using f(7) by (auto simp: replies_def)
qed

lemma first_assertion_ok:
  assumes "roomy (plat e)" "primitives_ok (crypt e)" "\<forall>n. heap (plat e) n" "holds (plat e) (ctap_files s) st"
    "\<forall>(cid, c) \<in> set st. usable e V (pub cid) cid c" "parse_ga data = Some (Some r)" "gaRpId r \<noteq> []"
    "length (gaHash r) = 32" "gaAllow r = []"
    "m = map fst (filter (\<lambda>(cid, c). rpFieldMatchesRpId (plat e) (rpId c) (gaRpId r)) st)" "m \<noteq> []"
    "verify_recent_user e (user_watch ob) (remember_assertion m r s) = Some (v, s1)"
  shows "case v of Canceled \<Rightarrow> getAssertion e ob data s = fail_with 0x2D s1
    | Timed_Out \<Rightarrow> getAssertion e ob data s = fail_with 0x34 s1
    | Verified d \<Rightarrow> \<exists>x n. getAssertion e ob data s =
          Some (s1\<lparr>eeprom_word := n, sent := sent s1 @ replicate (busy ob) (0xBB, [2]) @ [x]\<rparr>) \<and>
        n = loadPersistedSignCount s + 1 \<and>
        asserts e V pub st (requested r) (next_flags (requested r)) (length m) n (hd m) x"
proof -
  have "hd m \<in> fst ` set st" using assms(10,11) list.set_sel(1) [of m] by auto
  then obtain c where c: "map_of st (hd m) = Some c" by (metis map_of_eq_None_iff not_None_eq)
  then have u: "usable e V (pub (hd m)) (hd m) c" using assms(5) map_of_SomeD [OF c] by auto
  have "resolve e (new_secret ob) (gaRpId r) (hd m) s = Some (Some c, s)"
    using resolve_stored [OF assms(1,4) c] u by (simp add: usable_def)
  moreover have "matching e (new_secret ob) r s = Some (m, s)"
    using assms(9,10) readers_hold(3) [OF assms(1,4)] by (simp add: matching_def)
  ultimately have g: "getAssertion e ob data s = (case v of
      Canceled \<Rightarrow> fail_with 0x2D s1 | Timed_Out \<Rightarrow> fail_with 0x34 s1
    | Verified _ \<Rightarrow> sign_assertion e (busy ob) (requested r) (0x01 OR 0x04 OR (if gaExt r then 0x80 else 0))
        (length m) (hd m) c s1)"
    using assms(6-8,11,12) by (simp add: getAssertion_def assert_for_def assert_with_def Let_def)
  have f: "0x01 OR 0x04 OR (if gaExt r then 0x80 else 0) = next_flags (requested r)"
    by (simp add: next_flags_def requested_def)
  have n: "loadPersistedSignCount s1 = loadPersistedSignCount s"
    using remembered_good(4) [OF assms(1-5) _ assms(12)] verify_recent_same(2) [OF assms(12)]
    by (simp add: loadPersistedSignCount_def remember_assertion_simps)
  show ?thesis
    using sign_assertion_ok [where s = s1 and pub = pub and cid = "hd m" and k = "busy ob" and a = "requested r"
        and flags = "next_flags (requested r)" and ncreds = "length m", OF assms(2,3) u c refl] n
    unfolding g f by (auto split: verdict.split)
qed

section \<open>Properties\<close>

text \<open>
  C2: asserting. When the user is verified, a request without an allow list is answered for the first
  stored credential of the relying party with a signature that verifies under its public key, for the
  relying party, the signature counter advanced by one, and the client data; asking for the next
  assertions then gives one for every other credential, in the order of the store, and after the last
  the answer that there are no more.
\<close>

theorem assertion_for_each_credential:
  assumes "roomy (plat e)" "primitives_ok (crypt e)" "\<forall>n. heap (plat e) n" "holds (plat e) (ctap_files s) st"
    "\<forall>(cid, c) \<in> set st. usable e V (pub cid) cid c" "parse_ga data = Some (Some r)" "gaRpId r \<noteq> []"
    "length (gaHash r) = 32" "gaAllow r = []"
    "m = map fst (filter (\<lambda>(cid, c). rpFieldMatchesRpId (plat e) (rpId c) (gaRpId r)) st)" "m \<noteq> []"
    "verify_recent_user e (user_watch ob) (remember_assertion m r s) = Some (Verified d, s1)"
  shows "\<exists>s' x xs. all_assertions e ob data (length m) s = Some s' \<and>
    replies s' = replies s @ x # xs @ [(0x90, [0x2C])] \<and>
    asserts e V pub st (requested r) (next_flags (requested r)) (length m) (loadPersistedSignCount s + 1) (hd m) x \<and>
    list_all2 (\<lambda>cid x. \<exists>n. asserts e V pub st (requested r) (next_flags (requested r)) 0 n cid x) (tl m) xs"
proof -
  have m: "set m \<subseteq> fst ` set st" using assms(10) by auto
  note R = remembered_good [OF assms(1-5) m assms(12)]
  note q = same_request_asserts [OF remember_assertion_simps(8) [of r m s]]
  obtain x n where x: "getAssertion e ob data s =
      Some (s1\<lparr>eeprom_word := n, sent := sent s1 @ replicate (busy ob) (0xBB, [2]) @ [x]\<rparr>)"
    "n = loadPersistedSignCount s + 1" "asserts e V pub st (requested r) (next_flags (requested r)) (length m) n (hd m) x"
    using first_assertion_ok [OF assms] by auto
  define s2 where "s2 = s1\<lparr>eeprom_word := n, sent := sent s1 @ replicate (busy ob) (0xBB, [2]) @ [x]\<rparr>"
  have g: "next_good e V pub st (remembered (remember_assertion m r s)) s2"
    using R(1) by (simp add: next_good_def s2_def)
  have i: "nextAssertionIdx s2 \<le> length (nextAssertionCreds s2)"
    "length (nextAssertionCreds s2) - nextAssertionIdx s2 = length m - 1"
    using R(2,3) assms(11) by (auto simp: s2_def Suc_le_eq)
  obtain s' xs where s': "rounds (Suc (length m - 1)) (getNextAssertion e ob) s2 = Some s'"
    "replies s' = replies s2 @ xs @ [(0x90, [0x2C])]"
    "list_all2 (\<lambda>cid x. \<exists>n. asserts e V pub st (remembered (remember_assertion m r s))
      (next_flags (remembered (remember_assertion m r s))) 0 n cid x)
      (drop (nextAssertionIdx s2) (nextAssertionCreds s2)) xs"
    using assertions.all_items [OF g i, of ob] by blast
  have "Suc (length m - 1) = length m" using assms(11) by (cases m) auto
  moreover have "fst x = 0x90" using x(3) by (auto simp: asserts_def reply_of_def)
  then have "replies s2 = replies s @ [x]"
    using R(5) by (auto simp: replies_def s2_def split: prod.splits)
  moreover have "drop (nextAssertionIdx s2) (nextAssertionCreds s2) = tl m" using R(2,3) by (simp add: s2_def drop_Suc)
  ultimately show ?thesis
    using s' x unfolding all_assertions_def x(1) s2_def [symmetric] bind.bind_lunit
    by (intro exI [of _ s'] exI [of _ x] exI [of _ xs]) (simp add: q)
qed

text \<open>
  The remaining assertions are prepared before the user is verified. When the verification is cancelled or
  times out the request is answered with the error, yet the next getNextAssertion signs with the second
  credential, with the flags of a verified user.
\<close>

theorem next_assertion_without_user:
  assumes "roomy (plat e)" "primitives_ok (crypt e)" "\<forall>n. heap (plat e) n" "holds (plat e) (ctap_files s) st"
    "\<forall>(cid, c) \<in> set st. usable e V (pub cid) cid c" "parse_ga data = Some (Some r)" "gaRpId r \<noteq> []"
    "length (gaHash r) = 32" "gaAllow r = []"
    "m = map fst (filter (\<lambda>(cid, c). rpFieldMatchesRpId (plat e) (rpId c) (gaRpId r)) st)" "1 < length m"
    "verify_recent_user e (user_watch ob) (remember_assertion m r s) = Some (v, s1)" "v = Canceled \<or> v = Timed_Out"
  shows "\<exists>s' err x n. all_assertions e ob data 1 s = Some s' \<and> err \<in> {0x2D, 0x34} \<and>
    replies s' = replies s @ [(0x90, [err]), x] \<and>
    asserts e V pub st (requested r) (next_flags (requested r)) 0 n (m ! 1) x"
proof -
  have m: "set m \<subseteq> fst ` set st" "m \<noteq> []" using assms(10,11) by auto
  note R = remembered_good [OF assms(1-5) m(1) assms(12)]
  note q = same_request_asserts [OF remember_assertion_simps(8) [of r m s]]
  obtain err where err: "getAssertion e ob data s = fail_with err s1" "err \<in> {0x2D, 0x34}"
    using first_assertion_ok [OF assms(1-10) m(2) assms(12)] assms(13) by auto
  define s2 where "s2 = send_hid 0x90 [err] s1"
  have g: "next_good e V pub st (remembered (remember_assertion m r s)) s2"
    using R(1) by (simp add: next_good_def s2_def send_hid_def)
  have "nextAssertionIdx s2 < length (nextAssertionCreds s2)" using R(2,3) assms(11) by (simp add: s2_def send_hid_def)
  then obtain s' x n where x: "getNextAssertion e ob s2 = Some s'" "replies s' = replies s2 @ [x]"
    "asserts e V pub st (remembered (remember_assertion m r s)) (next_flags (remembered (remember_assertion m r s))) 0 n
      (nextAssertionCreds s2 ! nextAssertionIdx s2) x"
    using assertions.item [OF g, of ob] by blast
  have "all_assertions e ob data 1 s = Some s'"
    using err(1) x(1) by (simp add: all_assertions_def fail_with_def s2_def)
  moreover have "replies s2 = replies s @ [(0x90, [err])]" using R(5) by (simp add: s2_def replies_def send_hid_def)
  moreover have "nextAssertionCreds s2 ! nextAssertionIdx s2 = m ! 1" using R(2,3) by (simp add: s2_def send_hid_def)
  ultimately show ?thesis using x err(2)
    by (intro exI [of _ s'] exI [of _ err] exI [of _ x] exI [of _ n]) (simp add: q)
qed

text \<open>Looking for the credential changes at most the stateless master secret.\<close>

definition secret_frame :: "ctap \<Rightarrow> ctap \<Rightarrow> bool" where
  "secret_frame s s' \<longleftrightarrow> (\<exists>k. s' = s\<lparr>sys := (sys s)\<lparr>sl_secret := k\<rparr>\<rparr>)"

lemma secret_frame_refl: "secret_frame s s"
  unfolding secret_frame_def by (rule exI [of _ "sl_secret (sys s)"]) simp

lemma secret_frame_trans: "secret_frame s t \<Longrightarrow> secret_frame t u \<Longrightarrow> secret_frame s u"
  by (auto simp: secret_frame_def)

lemma secret_frameD:
  "secret_frame s s' \<Longrightarrow> ctap_files s' = ctap_files s \<and> eeprom_word s' = eeprom_word s \<and> sent s' = sent s \<and>
    lastFingerprintSuccessTime s' = lastFingerprintSuccessTime s"
  by (auto simp: secret_frame_def)

lemma unwrap_stateless_frame: "unwrap_stateless e fresh cid rp s = Some (u, s') \<Longrightarrow> secret_frame s s'"
proof -
  assume a: "unwrap_stateless e fresh cid rp s = Some (u, s')"
  obtain secret t where g: "getStatelessMasterSecret (nvs_ok e) fresh (sys s) = (secret, t)" by fastforce
  then have "\<exists>k. t = (sys s)\<lparr>sl_secret := k\<rparr>"
    using system.surjective [of "sys s"] by (auto simp: getStatelessMasterSecret_def split: if_splits option.splits
        intro: exI [of _ "sl_secret (sys s)"])
  with a g show ?thesis using secret_frame_refl [of s]
    by (auto simp: unwrap_stateless_def secret_frame_def split: if_splits)
qed

lemma match_allowed_frame: "match_allowed e fresh rp ids m s = Some (m', s') \<Longrightarrow> secret_frame s s'"
proof (induction ids arbitrary: m s)
  case (Cons cid ids)
  then show ?case
    using secret_frame_trans [OF unwrap_stateless_frame]
    by (auto simp: bind_eq_Some_conv split: option.splits)
qed (simp add: secret_frame_refl)

lemma matching_frame: "matching e fresh r s = Some (m, s') \<Longrightarrow> secret_frame s s'"
  using match_allowed_frame secret_frame_refl by (auto simp: matching_def split: if_splits)

lemma resolve_frame: "resolve e fresh rp cid s = Some (c, s') \<Longrightarrow> secret_frame s s'"
  using unwrap_stateless_frame
  by (auto simp: resolve_def Let_def bind_eq_Some_conv split: if_splits option.splits)

text \<open>The user was seen: less than five seconds ago, or in a turn of the loop.\<close>

definition user_present :: "env \<Rightarrow> watch \<Rightarrow> ctap \<Rightarrow> bool" where
  "user_present e w s \<longleftrightarrow> lastFingerprintSuccessTime s > 0 \<and> now w - lastFingerprintSuccessTime s < 5000 \<or>
     (\<exists>t. files t = ctap_files s \<and> (\<exists>u \<in> set (turns w). user_seen e t (now w) u))"

lemma verify_recent_present:
  assumes "verify_recent_user e w s = Some (Verified d, s')"
  shows "user_present e w s"
proof (cases "lastFingerprintSuccessTime s > 0 \<and> now w - lastFingerprintSuccessTime s < 5000")
  case False
  then obtain s1 where "uv_loop e (now w) (turns w) 0 s = Some (Verified d, s1)"
    using assms by (auto simp: verify_recent_user_def verify_user_def bind_eq_Some_conv)
  then show ?thesis using uv_loop_verified unfolding user_present_def by blast
qed (simp add: user_present_def)

lemma user_present_same:
  "ctap_files s' = ctap_files s \<Longrightarrow> lastFingerprintSuccessTime s' = lastFingerprintSuccessTime s \<Longrightarrow>
    user_present e w s' = user_present e w s"
  by (simp add: user_present_def)

lemma sign_assertion_counts:
  assumes "sign_assertion e k a flags n cid c s = Some s'"
  shows "eeprom_word s' = loadPersistedSignCount s + 1"
proof -
  obtain sig where "generateAlgSignature (heap (plat e)) (signing e) (sint (algId c)) (privateKeyHex c)
      (auth_data e (forRpId a) flags (loadPersistedSignCount s + 1) @ clientHash a) = Some sig"
    using assms by (auto simp: sign_assertion_def Let_def bind_eq_Some_conv)
  then show ?thesis using assms
    by (auto simp: sign_assertion_def Let_def bind_eq_Some_conv fail_with_def respond_def send_hid_def stay_busy_def
        savePersistedSignCount_def split: option.splits if_splits)
qed

text \<open>An error and nothing else: the counter stays, and behind keep-alives comes one error code.\<close>

definition refused :: "ctap \<Rightarrow> ctap \<Rightarrow> bool" where
  "refused s s' \<longleftrightarrow> eeprom_word s' = eeprom_word s \<and>
     (\<exists>n err. sent s' = sent s @ replicate n (0xBB, [2]) @ [(0x90, [err])] \<and> err \<noteq> 0)"

lemma refused_fail:
  "fail_with err t = Some s' \<Longrightarrow> err \<noteq> 0 \<Longrightarrow> eeprom_word t = eeprom_word s \<Longrightarrow>
    \<exists>n. sent t = sent s @ replicate n (0xBB, [2]) \<Longrightarrow> refused s s'"
  by (auto simp: refused_def fail_with_def send_hid_def)

lemma refused_secret: "fail_with err t = Some s' \<Longrightarrow> err \<noteq> 0 \<Longrightarrow> secret_frame s t \<Longrightarrow> refused s s'"
  by (intro refused_fail [of err t s' s] exI [of _ 0]) (simp_all add: secret_frameD)

lemma assert_with_user:
  assumes "assert_with e ob r m c t = Some s'" "secret_frame s t"
  shows "refused s s' \<or> eeprom_word s' = loadPersistedSignCount s + 1 \<and> user_present e (user_watch ob) s"
proof -
  note D = secret_frameD [OF assms(2)]
  define t1 where "t1 = remember_assertion m r t"
  obtain v t2 where v: "verify_recent_user e (user_watch ob) t1 = Some (v, t2)"
    using assms(1) by (auto simp: assert_with_def bind_eq_Some_conv t1_def Let_def)
  have g: "(case v of Canceled \<Rightarrow> fail_with 0x2D t2 | Timed_Out \<Rightarrow> fail_with 0x34 t2
      | Verified _ \<Rightarrow> sign_assertion e (busy ob) (requested r) (0x01 OR 0x04 OR (if gaExt r then 0x80 else 0))
          (length m) (hd m) c t2) = Some s'"
    using assms(1) v by (simp add: assert_with_def t1_def Let_def)
  note w = verify_recent_same [OF v, unfolded t1_def remember_assertion_simps]
  have f: "fail_with err t2 = Some s' \<Longrightarrow> err \<noteq> 0 \<Longrightarrow> refused s s'" for err
    using w(2,7) D by (intro refused_fail [of err t2 s' s]) simp_all
  have "user_present e (user_watch ob) t1 = user_present e (user_watch ob) s"
    using D by (intro user_present_same) (simp_all add: t1_def remember_assertion_simps)
  moreover have "v = Verified d \<Longrightarrow> user_present e (user_watch ob) t1" for d
    using verify_recent_present v by blast
  moreover have "v = Verified d \<Longrightarrow> eeprom_word s' = loadPersistedSignCount t2 + 1" for d
    using g sign_assertion_counts by simp
  moreover have "loadPersistedSignCount t2 = loadPersistedSignCount s" using w(2) D by (simp add: loadPersistedSignCount_def)
  ultimately show ?thesis using g f by (cases v) simp_all
qed

lemma assert_for_user:
  assumes "assert_for e ob r s = Some s'"
  shows "refused s s' \<or> eeprom_word s' = loadPersistedSignCount s + 1 \<and> user_present e (user_watch ob) s"
proof (cases "gaRpId r = [] \<or> length (gaHash r) \<noteq> 32")
  case True
  then show ?thesis using assms refused_secret [OF _ _ secret_frame_refl] by (auto simp: assert_for_def)
next
  case False
  then obtain m s1 where m: "matching e (new_secret ob) r s = Some (m, s1)"
    using assms by (auto simp: assert_for_def bind_eq_Some_conv)
  have f1: "secret_frame s s1" using matching_frame [OF m] .
  show ?thesis
  proof (cases "m = []")
    case True
    then show ?thesis using assms False m refused_secret [OF _ _ f1] by (auto simp: assert_for_def)
  next
    case ne: False
    then obtain c s2 where c: "resolve e (new_secret ob) (gaRpId r) (hd m) s1 = Some (c, s2)"
      using assms False m by (auto simp: assert_for_def bind_eq_Some_conv)
    have "secret_frame s s2" using secret_frame_trans [OF f1 resolve_frame [OF c]] .
    then show ?thesis
      using assms False m ne c refused_secret [of _ s2] assert_with_user [of e ob r m _ s2]
      by (cases c) (auto simp: assert_for_def)
  qed
qed

text \<open>
  C1: no assertion without the user. Whatever the request and the stored credentials, unless a finger was
  accepted in the last five seconds or in one of the turns of this command, getAssertion makes no
  signature: the counter stays, and the only reply is an error code.
\<close>

theorem assertion_needs_user:
  assumes "getAssertion e ob data s = Some s'"
  shows "eeprom_word s' = eeprom_word s \<and> (\<exists>n err. sent s' = sent s @ replicate n (0xBB, [2]) @ [(0x90, [err])] \<and> err \<noteq> 0) \<or>
    eeprom_word s' = loadPersistedSignCount s + 1 \<and> user_present e (user_watch ob) s"
proof (cases "parse_ga data")
  case (Some req)
  then show ?thesis using assms assert_for_user refused_secret [OF _ _ secret_frame_refl]
    by (cases req) (auto simp: getAssertion_def refused_def [of s s', symmetric])
qed (use assms in \<open>simp add: getAssertion_def\<close>)

definition ed_cred :: cred where
  "ed_cred = toy_cred\<lparr>privateKeyHex := toHex (replicate 32 3), algId := - 8\<rparr>"

definition ed_pub :: "bytes \<Rightarrow> bytes" where
  "ed_pub cid = replicate 32 4"

definition a_hash :: bytes where
  "a_hash = replicate 32 1"

definition ga_data :: bytes where
  "ga_data = [0xA2, 1, 0x6B] @ ascii ''example.com'' @ [2, 0x58, 0x20] @ a_hash"

definition ga_example :: ga_req where
  "ga_example = \<lparr>gaRpId = ascii ''example.com'', gaHash = a_hash, gaUP = True, gaUV = False, gaExt = False,
     gaSalt1 = [], gaSalt2 = [], gaLargeBlobKey = False, gaCredBlob = False, gaAllow = []\<rparr>"

lemma ga_example: "parse_ga ga_data = Some (Some ga_example)"
  by code_simp

lemma ed_cred_ok: "cred_ok (ascii ''ab'') ed_cred"
  by (simp add: cred_ok_def fields_ok_def plain_string_def ed_cred_def toy_cred_def ascii_def rawPayload_def
      show_int_def show_nat.simps) code_simp

text \<open>Signatures of bounded length.\<close>

definition sign_env :: env where
  "sign_env = good_env\<lparr>signing := toy_signers\<lparr>ed_sign := (\<lambda>x p m. p @ take 32 m)\<rparr>\<rparr>"

definition short_verifies :: "int \<Rightarrow> bytes \<Rightarrow> bytes \<Rightarrow> bytes \<Rightarrow> bool" where
  "short_verifies alg pub m sig \<longleftrightarrow> alg = - 7 \<or> sig = pub @ take 32 m"

lemma sign_env_ok:
  "plat sign_env = plat good_env" "roomy (plat sign_env)" "primitives_ok (crypt sign_env)" "\<forall>n. heap (plat sign_env) n"
  using good_env_ok by (simp_all add: sign_env_def sound_def) (simp add: good_env_def toy_env_def toy_platform_def)

lemma ed_cred_usable: "usable sign_env short_verifies (ed_pub cid) (ascii ''ab'') ed_cred"
proof -
  have "fromHex (privateKeyHex ed_cred) 32 = replicate 32 3" by code_simp
  moreover have "length (privateKeyHex ed_cred) = 64" by code_simp
  ultimately have "generateAlgSignature (heap (plat sign_env)) (signing sign_env) (sint (algId ed_cred)) (privateKeyHex ed_cred) m
      = Some (Some (replicate 32 4 @ take 32 m))" for m
    using sign_env_ok(4) by (simp add: generateAlgSignature_def ed_cred_def sign_env_def toy_signers_def blob_lengths Let_def)
  then show ?thesis
    by (auto simp: usable_def signs_def short_verifies_def ed_pub_def presentable_def ed_cred_def toy_cred_def ascii_def)
qed

definition ed_watch :: observed where
  "ed_watch = \<lparr>user_watch = \<lparr>now = 2, turns = []\<rparr>, new_secret = [], busy = 1\<rparr>"

theorem assertion_for_each_credential_witness:
  "\<exists>s' x. all_assertions sign_env ed_watch ga_data 1 (full_ctap ed_cred) = Some s' \<and>
    replies s' = [x, (0x90, [0x2C])] \<and>
    asserts sign_env short_verifies ed_pub [(ascii ''ab'', ed_cred)] (requested ga_example) 5 1 1 (ascii ''ab'') x"
proof -
  have f: "holds (plat sign_env) (ctap_files (full_ctap ed_cred)) [(ascii ''ab'', ed_cred)]"
    using saved_fs [OF ed_cred_ok] by (simp add: full_ctap_def store_files_def sign_env_ok(1))
  have u: "\<forall>(cid, c) \<in> set [(ascii ''ab'', ed_cred)]. usable sign_env short_verifies (ed_pub cid) cid c"
    using ed_cred_usable by simp
  have m: "[ascii ''ab''] = map fst (filter (\<lambda>(cid, c). rpFieldMatchesRpId (plat sign_env) (rpId c) (gaRpId ga_example))
      [(ascii ''ab'', ed_cred)])"
    by (simp add: rpFieldMatchesRpId_def ga_example_def ed_cred_def toy_cred_def)
  have v: "verify_recent_user sign_env (user_watch ed_watch) (remember_assertion [ascii ''ab''] ga_example (full_ctap ed_cred)) =
      Some (Verified 1, remember_assertion [ascii ''ab''] ga_example (full_ctap ed_cred))"
    by (simp add: verify_recent_user_def remember_assertion_simps ed_watch_def full_ctap_def store_files_def)
  have g: "gaRpId ga_example \<noteq> []" "length (gaHash ga_example) = 32" "gaAllow ga_example = []" "[ascii ''ab''] \<noteq> []"
    by (simp_all add: ga_example_def a_hash_def ascii_def)
  have "next_flags (requested ga_example) = 5" "loadPersistedSignCount (full_ctap ed_cred) = 0" "replies (full_ctap ed_cred) = []"
    by (simp_all add: next_flags_def requested_def ga_example_def loadPersistedSignCount_def full_ctap_def store_files_def
        toy_ctap_def replies_def)
  then show ?thesis
    using assertion_for_each_credential [OF sign_env_ok(2-4) f u ga_example g(1-3) m g(4) v] by auto
qed

theorem assertion_needs_user_witness:
  "(\<exists>n err. sent (send_hid 0x90 [0x0A] toy_ctap) = replicate n (0xBB, [2]) @ [(0x90, [err])] \<and> err \<noteq> 0) \<or>
    user_present toy_env (user_watch ed_watch) toy_ctap"
proof -
  have "map_option (map_option (\<lambda>r. gaRpId r = [])) (parse_ga [0xA0]) = Some (Some True)" by code_simp
  then have "getAssertion toy_env ed_watch [0xA0] toy_ctap = Some (send_hid 0x90 [0x0A] toy_ctap)"
    by (auto simp: getAssertion_def assert_for_def fail_with_def)
  from assertion_needs_user [OF this] show ?thesis by (auto simp: toy_ctap_def)
qed

end
