(* ===== verification/CtapBio.thy ===== *)
theory CtapBio
  imports CtapAssert
begin

text \<open>
  authenticatorBioEnrollment (0x09, 0x40) of \<open>src/FIDO2Manager.cpp\<close>: the capture of one sample
  (\<open>captureBioSample\<close>) and the subcommands that enrol, cancel, list, rename and remove fingers.

  The templates themselves are in the sensor: its answers are observed, and what it stores is not
  modelled. The wait for the removal of the finger between two samples changes no state and is left out.
\<close>

section \<open>One sample\<close>

text \<open>
  One turn of the wait for a finger: the clock at the time limit, whether a cancel of this channel is
  pending, the clock at the keep-alive test and after the keep-alive, and the next image.
\<close>

record wait_turn =
  at_limit :: u32
  wait_cancel :: bool
  at_alive :: u32
  after_alive :: u32
  next_image :: finger_code

record sample =
  wait_start :: u32
  first_image :: finger_code
  wait_turns :: "wait_turn list"
  sample_tz :: finger_code
  createModel :: finger_code
  storeModel :: finger_code

datatype waited = Got finger_code | Wait_Canceled | Waited_Out

fun wait_finger :: "u32 \<Rightarrow> wait_turn list \<Rightarrow> u32 \<Rightarrow> finger_code \<Rightarrow> ctap \<Rightarrow> (waited \<times> ctap) option" where
  "wait_finger start ts lastKeepAlive img s =
     (if img \<noteq> FINGERPRINT_NOFINGER then Some (Got img, s)
      else case ts of
          [] \<Rightarrow> None
        | t # ts \<Rightarrow>
            if at_limit t - start \<ge> 15000 then Some (Waited_Out, s)
            else if wait_cancel t then Some (Wait_Canceled, s\<lparr>hasPendingCommand := False\<rparr>)
            else if at_alive t - lastKeepAlive > 500
              then wait_finger start ts (after_alive t) (next_image t) (send_hid 0xBB [2] s)
              else wait_finger start ts lastKeepAlive (next_image t) s)"

text \<open>The status, \<open>outCanceled\<close> and \<open>outFinished\<close>.\<close>

record captured =
  status :: u8
  outCanceled :: bool
  outFinished :: bool

definition capture_failed :: "u8 \<Rightarrow> captured" where
  "capture_failed st = \<lparr>status = st, outCanceled = False, outFinished = False\<rparr>"

definition captureBioSample :: "sample \<Rightarrow> ctap \<Rightarrow> (captured \<times> ctap) option" where
  "captureBioSample m s = do {
     (w, s) \<leftarrow> wait_finger (wait_start m) (wait_turns m) 0 (first_image m) s;
     case w of
       Waited_Out \<Rightarrow> Some (capture_failed 0x09, s)
     | Wait_Canceled \<Rightarrow> Some (\<lparr>status = 0x0A, outCanceled = True, outFinished = False\<rparr>, s)
     | Got img \<Rightarrow>
         if img \<noteq> FINGERPRINT_OK then Some (capture_failed 0x07, s)
         else if sample_tz m \<noteq> FINGERPRINT_OK then Some (capture_failed 0x07, s)
         else
           let s = s\<lparr>bioEnrollSamplesRemaining :=
                 if bioEnrollSamplesRemaining s > 0 then bioEnrollSamplesRemaining s - 1 else 0\<rparr> in
           if bioEnrollSamplesRemaining s > 0 then Some (capture_failed 0x00, s)
           else if createModel m \<noteq> FINGERPRINT_OK then Some (capture_failed 0x0A, s)
           else if storeModel m \<noteq> FINGERPRINT_OK then Some (capture_failed 0x0A, s)
           else Some (\<lparr>status = 0x00, outCanceled = False, outFinished = True\<rparr>, s) }"

section \<open>Subcommands\<close>

definition finger_name :: "u8 \<Rightarrow> bytes" where
  "finger_name i = ascii ''Finger '' @ show_int (uint i)"

definition save_name :: "env \<Rightarrow> u8 \<Rightarrow> bytes \<Rightarrow> ctap \<Rightarrow> bool \<times> ctap" where
  "save_name e i name s = (case saveBioTemplateName (plat e) (json_lib e) i name (sys s) of (ok, t) \<Rightarrow> (ok, s\<lparr>sys := t\<rparr>))"

text \<open>What a sample leads to: the reply has \<open>extra\<close> calls before the status.\<close>

definition enroll_sample :: "env \<Rightarrow> sample \<Rightarrow> write_call list \<Rightarrow> ctap \<Rightarrow> ctap option" where
  "enroll_sample e m extra s = do {
     (c, s) \<leftarrow> captureBioSample m s;
     if outCanceled c then fail_with 0x2D (s\<lparr>bioEnrollActive := False\<rparr>)
     else
       let s = (if status c \<noteq> 0 then s\<lparr>bioEnrollActive := False\<rparr>
         else if outFinished c then
           snd (save_name e (bioEnrollTemplateId s) (finger_name (bioEnrollTemplateId s)) (s\<lparr>bioEnrollActive := False\<rparr>))
         else s) in
       respond (extra @ [WUInt 5, WUInt (ucast (status c)), WUInt 6, WUInt (ucast (bioEnrollSamplesRemaining s))]) s }"

definition enroll_begin :: "env \<Rightarrow> sample \<Rightarrow> ctap \<Rightarrow> ctap option" where
  "enroll_begin e m s =
     (let freeSlot = findFreeBioTemplateSlot (json_lib e) (sys s) in
      if freeSlot = 0 then fail_with 0x28 s
      else enroll_sample e m [WMap 3, WUInt 4, WBytes [freeSlot]]
        (s\<lparr>bioEnrollActive := True, bioEnrollTemplateId := freeSlot, bioEnrollSamplesRequired := 2,
          bioEnrollSamplesRemaining := 2\<rparr>))"

definition enroll_next :: "env \<Rightarrow> sample \<Rightarrow> bio_req \<Rightarrow> ctap \<Rightarrow> ctap option" where
  "enroll_next e m r s =
     (if \<not> bioEnrollActive s \<or> beTemplateId r \<noteq> Some [bioEnrollTemplateId s] then fail_with 0x2A s
      else enroll_sample e m [WMap 2] s)"

definition finger_entry :: "env \<Rightarrow> ctap \<Rightarrow> u8 \<Rightarrow> write_call list" where
  "finger_entry e s i =
     (let name = getBioTemplateName (json_lib e) i (sys s) in
      [WMap 2, WUInt 1, WBytes [i], WUInt 2, WText (cstr (if name = [] then finger_name i else name))])"

definition list_fingers :: "env \<Rightarrow> watch \<Rightarrow> ctap \<Rightarrow> ctap option" where
  "list_fingers e w s = do {
     (v, s) \<leftarrow> verify_recent_user e w s;
     case v of
       Canceled \<Rightarrow> fail_with 0x2D s
     | Timed_Out \<Rightarrow> fail_with 0x3F s
     | Verified _ \<Rightarrow>
         let ids = getAllBioTemplateIds (json_lib e) (sys s) in
         if ids = [] then fail_with 0x2E s
         else respond ([WMap 1, WUInt 7, WArray (length ids)] @ concat (map (finger_entry e s) ids)) s }"

definition rename_finger :: "env \<Rightarrow> bio_req \<Rightarrow> ctap \<Rightarrow> ctap option" where
  "rename_finger e r s =
     (case (beTemplateId r, beFriendlyName r) of
        (Some [i], Some name) \<Rightarrow>
          if i \<notin> set (getAllBioTemplateIds (json_lib e) (sys s)) then fail_with 0x22 s
          else (case save_name e i name s of (ok, s) \<Rightarrow> if ok then respond [WMap 0] s else fail_with 0x21 s)
      | _ \<Rightarrow> fail_with 0x14 s)"

definition remove_finger :: "env \<Rightarrow> bio_req \<Rightarrow> ctap \<Rightarrow> ctap option" where
  "remove_finger e r s =
     (case beTemplateId r of
        Some [targetId] \<Rightarrow>
          if targetId \<notin> set (getAllBioTemplateIds (json_lib e) (sys s)) then fail_with 0x22 s
          else
            let s = s\<lparr>sys := snd (deleteBioTemplateRecord (plat e) (json_lib e) targetId (sys s))\<rparr>;
                s = (if bioEnrollActive s \<and> bioEnrollTemplateId s = targetId then s\<lparr>bioEnrollActive := False\<rparr> else s) in
            respond [WMap 0] s
      | _ \<Rightarrow> fail_with 0x14 s)"

definition bio_subcommand :: "env \<Rightarrow> sample \<Rightarrow> watch \<Rightarrow> bio_req \<Rightarrow> u64 \<Rightarrow> ctap \<Rightarrow> ctap option" where
  "bio_subcommand e m w r sub s =
     (if sub = 7 then
        respond [WMap 3, WUInt 2, WUInt 1, WUInt 3, WUInt (ucast (bioEnrollSamplesRequired s)), WUInt 8, WUInt 32] s
      else if \<not> isFidoPinSet (sys s) then fail_with 0x35 s
      else if bePinUvAuthParam r = [] then fail_with 0x36 s
      else if sub = 1 then enroll_begin e m s
      else if sub = 2 then enroll_next e m r s
      else if sub = 3 then respond [WMap 0] (s\<lparr>bioEnrollActive := False\<rparr>)
      else if sub = 4 then list_fingers e w s
      else if sub = 5 then rename_finger e r s
      else if sub = 6 then remove_finger e r s
      else fail_with 0x2B s)"

definition bioEnrollment :: "env \<Rightarrow> sample \<Rightarrow> watch \<Rightarrow> bytes \<Rightarrow> ctap \<Rightarrow> ctap option" where
  "bioEnrollment e m w data s = do {
     req \<leftarrow> parse_bio data;
     case req of
       None \<Rightarrow> fail_with 0x11 s
     | Some r \<Rightarrow>
         (case beSub r of
            None \<Rightarrow> if beModalityOnly r then respond [WMap 1, WUInt 1, WUInt 1] s else fail_with 0x14 s
          | Some sub \<Rightarrow> bio_subcommand e m w r sub s) }"

section \<open>Samples\<close>

lemma respond_only_sends: "respond cs s = Some s' \<Longrightarrow> \<exists>x. s' = s\<lparr>sent := sent s @ [x]\<rparr>"
  by (auto simp: respond_def send_hid_def bind_eq_Some_conv)

lemma fail_only_sends: "fail_with err s = Some s' \<Longrightarrow> s' = s\<lparr>sent := sent s @ [(0x90, [err])]\<rparr>"
  by (simp add: fail_with_def send_hid_def)

lemma wait_finger_frame:
  "wait_finger start ts l img s = Some (w, s') \<Longrightarrow>
    \<exists>h n. s' = s\<lparr>hasPendingCommand := h, sent := sent s @ replicate n (0xBB, [2])\<rparr>"
proof (induction ts arbitrary: l img s)
  case Nil
  then show ?case
    by (intro exI [of _ "hasPendingCommand s"] exI [of _ 0]) (auto split: if_splits)
next
  case (Cons t ts)
  show ?case
  proof (cases "img \<noteq> FINGERPRINT_NOFINGER \<or> at_limit t - start \<ge> 15000 \<or> wait_cancel t")
    case True
    then show ?thesis using Cons.prems
      by (intro exI [of _ "hasPendingCommand s'"] exI [of _ 0]) (auto split: if_splits)
  next
    case False
    define s1 where "s1 = (if at_alive t - l > 500 then send_hid 0xBB [2] s else s)"
    have "\<exists>l1. wait_finger start ts l1 (next_image t) s1 = Some (w, s')"
      using False Cons.prems by (auto simp: s1_def split: if_splits)
    then obtain h n where s': "s' = s1\<lparr>hasPendingCommand := h, sent := sent s1 @ replicate n (0xBB, [2])\<rparr>"
      using Cons.IH by blast
    show ?thesis
    proof (cases "at_alive t - l > 500")
      case True
      then show ?thesis using s'
        by (intro exI [of _ h] exI [of _ "Suc n"]) (simp add: s1_def send_hid_def)
    next
      case False
      then show ?thesis using s' unfolding s1_def by auto
    qed
  qed
qed

text \<open>The wait ends: every turn takes at least the 30 ms of its delay.\<close>

fun slow_turns :: "u32 \<Rightarrow> wait_turn list \<Rightarrow> bool" where
  "slow_turns c [] \<longleftrightarrow> True"
| "slow_turns c (t # ts) \<longleftrightarrow> 30 \<le> at_limit t - c \<and> at_limit t - c < 4294952296 \<and> slow_turns (at_limit t) ts"

lemma wait_finger_ends:
  "slow_turns (at_limit t) ts \<Longrightarrow> 15000 \<le> unat (at_limit t - start) + 30 * length ts \<Longrightarrow>
    wait_finger start (t # ts) l img s \<noteq> None"
proof (induction ts arbitrary: t l img s)
  case Nil
  then have "at_limit t - start \<ge> 15000" by (simp add: word_le_nat_alt)
  then show ?case by simp
next
  case (Cons u ts)
  show ?case
  proof (cases "at_limit t - start \<ge> 15000")
    case False
    have "at_limit u - start = (at_limit u - at_limit t) + (at_limit t - start)" by simp
    moreover have "unat (at_limit u - at_limit t) + unat (at_limit t - start) < 2 ^ 32"
      using False Cons.prems(1) by (simp add: word_less_nat_alt not_le)
    ultimately have "unat (at_limit u - start) = unat (at_limit u - at_limit t) + unat (at_limit t - start)"
      using unat_add_lem [of "at_limit u - at_limit t" "at_limit t - start"] by simp
    then have "15000 \<le> unat (at_limit u - start) + 30 * length ts"
      using Cons.prems by (simp add: word_le_nat_alt)
    then have "wait_finger start (u # ts) l img s \<noteq> None" for l img s
      using Cons.IH Cons.prems(1) by simp
    then show ?thesis by (simp del: wait_finger.simps add: wait_finger.simps [of start "t # u # ts"])
  qed simp
qed

lemma captured_frame:
  assumes "captureBioSample m s = Some (c, s')"
  shows "sys s' = sys s" "bioEnrollActive s' = bioEnrollActive s" "bioEnrollTemplateId s' = bioEnrollTemplateId s"
    "bioEnrollSamplesRequired s' = bioEnrollSamplesRequired s"
    "status c = 0 \<Longrightarrow> bioEnrollSamplesRemaining s' = (if bioEnrollSamplesRemaining s > 0 then bioEnrollSamplesRemaining s - 1 else 0)"
    "status c = 0 \<Longrightarrow> outFinished c \<longleftrightarrow> bioEnrollSamplesRemaining s' = 0"
    "outFinished c \<Longrightarrow> status c = 0 \<and> createModel m = FINGERPRINT_OK \<and> storeModel m = FINGERPRINT_OK"
proof -
  obtain w s1 where w: "wait_finger (wait_start m) (wait_turns m) 0 (first_image m) s = Some (w, s1)"
    using assms by (auto simp: captureBioSample_def bind_eq_Some_conv)
  obtain h n where s1: "s1 = s\<lparr>hasPendingCommand := h, sent := sent s @ replicate n (0xBB, [2])\<rparr>"
    using wait_finger_frame [OF w] by blast
  have f: "sys s1 = sys s" "bioEnrollActive s1 = bioEnrollActive s" "bioEnrollTemplateId s1 = bioEnrollTemplateId s"
    "bioEnrollSamplesRequired s1 = bioEnrollSamplesRequired s" "bioEnrollSamplesRemaining s1 = bioEnrollSamplesRemaining s"
    by (simp_all add: s1)
  show "sys s' = sys s" "bioEnrollActive s' = bioEnrollActive s" "bioEnrollTemplateId s' = bioEnrollTemplateId s"
    "bioEnrollSamplesRequired s' = bioEnrollSamplesRequired s"
    "status c = 0 \<Longrightarrow> bioEnrollSamplesRemaining s' = (if bioEnrollSamplesRemaining s > 0 then bioEnrollSamplesRemaining s - 1 else 0)"
    "status c = 0 \<Longrightarrow> outFinished c \<longleftrightarrow> bioEnrollSamplesRemaining s' = 0"
    "outFinished c \<Longrightarrow> status c = 0 \<and> createModel m = FINGERPRINT_OK \<and> storeModel m = FINGERPRINT_OK"
    using assms w f
    by (auto simp: captureBioSample_def capture_failed_def Let_def word_gt_0 simp del: wait_finger.simps
        split: waited.splits if_splits)
qed

section \<open>Enrolment as a state machine\<close>

text \<open>Between commands an active enrolment waits for exactly one more sample.\<close>

definition enrol_ok :: "ctap \<Rightarrow> bool" where
  "enrol_ok s \<longleftrightarrow> (bioEnrollActive s \<longrightarrow> bioEnrollSamplesRequired s = 2 \<and> bioEnrollSamplesRemaining s = 1)"

abbreviation names_file :: "ctap \<Rightarrow> bytes option" where
  "names_file s \<equiv> files (sys s) ''/bio_templates.json''"

lemma enrol_ok_sent [simp]: "enrol_ok (s\<lparr>sent := x\<rparr>) = enrol_ok s"
  by (simp add: enrol_ok_def)

lemma reply_enrol: "respond cs s = Some s' \<Longrightarrow> enrol_ok s' = enrol_ok s" "fail_with err s = Some s' \<Longrightarrow> enrol_ok s' = enrol_ok s"
  by (auto dest!: respond_only_sends fail_only_sends)

lemma reply_names: "respond cs s = Some s' \<Longrightarrow> names_file s' = names_file s" "fail_with err s = Some s' \<Longrightarrow> names_file s' = names_file s"
  by (auto dest!: respond_only_sends fail_only_sends)

lemma enrol_ok_sys: "enrol_ok (s\<lparr>sys := t\<rparr>) = enrol_ok s"
  by (simp add: enrol_ok_def)

lemma rename_finger_enrol: "rename_finger e r s = Some s' \<Longrightarrow> enrol_ok s' = enrol_ok s"
  by (auto simp: rename_finger_def save_name_def enrol_ok_sys dest: reply_enrol
      split: option.splits list.splits prod.splits if_splits)

lemma remove_finger_enrol:
  assumes "remove_finger e r s = Some s'" "enrol_ok s"
  shows "enrol_ok s'"
proof -
  have "enrol_ok (s\<lparr>sys := t\<rparr>)" "enrol_ok (s\<lparr>sys := t, bioEnrollActive := False\<rparr>)" for t
    using assms(2) by (simp_all add: enrol_ok_def)
  then show ?thesis
    using assms(1) by (auto simp: remove_finger_def Let_def assms(2) dest!: reply_enrol split: option.splits list.splits if_splits)
qed

lemma enroll_sample_step:
  assumes "enroll_sample e m extra s = Some s'" "bioEnrollSamplesRequired s = 2" "bioEnrollActive s"
    "bioEnrollSamplesRemaining s = 1 \<or> bioEnrollSamplesRemaining s = 2"
  shows "enrol_ok s'"
    "names_file s' \<noteq> names_file s \<Longrightarrow> bioEnrollSamplesRemaining s = 1 \<and> createModel m = FINGERPRINT_OK \<and> storeModel m = FINGERPRINT_OK"
proof -
  obtain c s1 where c: "captureBioSample m s = Some (c, s1)"
    using assms(1) by (auto simp: enroll_sample_def bind_eq_Some_conv)
  note F = captured_frame [OF c]
  define s2 where "s2 = (if outCanceled c \<or> status c \<noteq> 0 then s1\<lparr>bioEnrollActive := False\<rparr>
    else if outFinished c then
      snd (save_name e (bioEnrollTemplateId s1) (finger_name (bioEnrollTemplateId s1)) (s1\<lparr>bioEnrollActive := False\<rparr>))
    else s1)"
  have "(if outCanceled c then fail_with 0x2D s2 else respond (extra @ [WUInt 5, WUInt (ucast (status c)), WUInt 6,
      WUInt (ucast (bioEnrollSamplesRemaining s2))]) s2) = Some s'"
    using assms(1) c by (cases "outCanceled c"; cases "status c = 0"; cases "outFinished c")
      (simp_all add: enroll_sample_def s2_def Let_def)
  then obtain x where s': "s' = s2\<lparr>sent := sent s2 @ [x]\<rparr>"
    using fail_only_sends [of "0x2D" s2 s'] respond_only_sends by (cases "outCanceled c") (simp, metis)
  have n: "outCanceled c \<or> status c \<noteq> 0 \<Longrightarrow> names_file s2 = names_file s" using F(1) by (simp add: s2_def)
  have a: "\<not> bioEnrollActive s2 \<or> s2 = s1 \<and> status c = 0 \<and> \<not> outFinished c"
    by (auto simp: s2_def save_name_def split: prod.split)
  then show "enrol_ok s'"
    using F(4-6) assms(2,4) unfolding s' enrol_ok_sent by (auto simp: enrol_ok_def split: if_splits)
  assume "names_file s' \<noteq> names_file s"
  then have "names_file s2 \<noteq> names_file s" by (simp add: s')
  then have "outFinished c" using F(1) n by (auto simp: s2_def split: if_splits)
  then show "bioEnrollSamplesRemaining s = 1 \<and> createModel m = FINGERPRINT_OK \<and> storeModel m = FINGERPRINT_OK"
    using F(5-7) assms(4) by auto
qed

lemma list_fingers_frame:
  assumes "list_fingers e w s = Some s'"
  shows "names_file s' = names_file s" "enrol_ok s' = enrol_ok s"
proof -
  obtain v s1 where v: "verify_recent_user e w s = Some (v, s1)"
    using assms by (auto simp: list_fingers_def bind_eq_Some_conv)
  obtain s0 t where f: "uv_frame s s0" "s1 = s0\<lparr>lastFingerprintSuccessTime := t\<rparr>"
    using verify_recent_frame [OF v] by blast
  have "\<exists>x. s' = s1\<lparr>sent := sent s1 @ [x]\<rparr>"
    using assms v fail_only_sends [of _ s1 s'] respond_only_sends [of _ s1 s']
    by (auto simp: list_fingers_def Let_def split: verdict.splits if_splits)
  then obtain x where s': "s' = s1\<lparr>sent := sent s1 @ [x]\<rparr>" ..
  show "names_file s' = names_file s"
    using same_files [OF uv_frameD(1) [OF f(1)], of "''/bio_templates.json''"] by (simp add: s' f(2))
  obtain u n c h where "s0 = s\<lparr>sys := u, lastConfidenceScore := c, hasPendingCommand := h,
      sent := sent s @ replicate n (0xBB, [2])\<rparr>"
    using f(1) unfolding uv_frame_def by metis
  then show "enrol_ok s' = enrol_ok s" by (simp add: s' f(2) enrol_ok_def)
qed

text \<open>What may change the names: the second sample of the active enrolment, or a change of a stored name.\<close>

definition may_change_names :: "sample \<Rightarrow> bio_req \<Rightarrow> ctap \<Rightarrow> bool" where
  "may_change_names m r s \<longleftrightarrow> isFidoPinSet (sys s) \<and> bePinUvAuthParam r \<noteq> [] \<and>
     (beSub r = Some 2 \<and> bioEnrollActive s \<and> beTemplateId r = Some [bioEnrollTemplateId s] \<and>
        createModel m = FINGERPRINT_OK \<and> storeModel m = FINGERPRINT_OK \<or>
      beSub r \<in> {Some 5, Some 6})"

lemma bio_subcommand_step:
  assumes "bio_subcommand e m w r sub s = Some s'" "beSub r = Some sub" "enrol_ok s"
  shows "enrol_ok s' \<and> (names_file s' \<noteq> names_file s \<longrightarrow> may_change_names m r s)"
proof (cases "sub = 7 \<or> \<not> isFidoPinSet (sys s) \<or> bePinUvAuthParam r = []")
  case True
  then obtain x where "s' = s\<lparr>sent := sent s @ [x]\<rparr>"
    using assms(1) fail_only_sends [of _ s s'] respond_only_sends [of _ s s']
    by (auto simp: bio_subcommand_def split: if_splits)
  then show ?thesis using assms(3) by simp
next
  case False
  then have g: "isFidoPinSet (sys s)" "bePinUvAuthParam r \<noteq> []" "sub \<noteq> 7" by auto
  consider "sub = 1" | "sub = 2" | "sub = 3" | "sub = 4" | "sub \<in> {5, 6}" | "sub \<notin> {1, 2, 3, 4, 5, 6}" by blast
  then show ?thesis
  proof cases
    case 1
    define tid where "tid = findFreeBioTemplateSlot (json_lib e) (sys s)"
    define s1 where "s1 = s\<lparr>bioEnrollActive := True, bioEnrollTemplateId := tid, bioEnrollSamplesRequired := 2,
      bioEnrollSamplesRemaining := 2\<rparr>"
    have b: "enroll_begin e m s = Some s'" using assms(1) g 1 by (simp add: bio_subcommand_def)
    show ?thesis
    proof (cases "tid = 0")
      case True
      then have "s' = s\<lparr>sent := sent s @ [(0x90, [0x28])]\<rparr>"
        using b fail_only_sends [of "0x28" s s'] by (simp add: enroll_begin_def Let_def flip: tid_def)
      then show ?thesis using assms(3) by simp
    next
      case False
      then have "enroll_sample e m [WMap 3, WUInt 4, WBytes [tid]] s1 = Some s'"
        using b by (simp add: enroll_begin_def Let_def s1_def flip: tid_def)
      from enroll_sample_step [OF this] show ?thesis by (auto simp: s1_def)
    qed
  next
    case 2
    have b: "enroll_next e m r s = Some s'" using assms(1) g 2 by (simp add: bio_subcommand_def)
    show ?thesis
    proof (cases "\<not> bioEnrollActive s \<or> beTemplateId r \<noteq> Some [bioEnrollTemplateId s]")
      case True
      then have "s' = s\<lparr>sent := sent s @ [(0x90, [0x2A])]\<rparr>" using b fail_only_sends [of "0x2A" s s'] by (simp add: enroll_next_def)
      then show ?thesis using assms(3) by simp
    next
      case False
      then have "enroll_sample e m [WMap 2] s = Some s'" using b by (simp add: enroll_next_def)
      from enroll_sample_step [OF this] show ?thesis
        using False assms(2,3) g 2 by (auto simp: enrol_ok_def may_change_names_def)
    qed
  next
    case 3
    then have "\<exists>x. s' = s\<lparr>bioEnrollActive := False, sent := sent s @ [x]\<rparr>"
      using assms(1) g respond_only_sends [of "[WMap 0]" "s\<lparr>bioEnrollActive := False\<rparr>" s'] by (simp add: bio_subcommand_def)
    then show ?thesis by (auto simp: enrol_ok_def)
  next
    case 4
    then have "list_fingers e w s = Some s'" using assms(1) g by (simp add: bio_subcommand_def)
    from list_fingers_frame [OF this] show ?thesis using assms(3) by simp
  next
    case 5
    then have m: "may_change_names m r s" using g assms(2) by (auto simp: may_change_names_def)
    have "rename_finger e r s = Some s' \<or> remove_finger e r s = Some s'"
      using assms(1) g 5 by (auto simp: bio_subcommand_def)
    then have "enrol_ok s'" using rename_finger_enrol remove_finger_enrol assms(3) by blast
    then show ?thesis using m by blast
  next
    case 6
    then have "s' = s\<lparr>sent := sent s @ [(0x90, [0x2B])]\<rparr>"
      using assms(1) g fail_only_sends [of "0x2B" s s'] by (simp add: bio_subcommand_def)
    then show ?thesis using assms(3) by simp
  qed
qed

section \<open>A complete enrolment\<close>

text \<open>A sample without a hitch.\<close>

definition good_sample :: "sample \<Rightarrow> bool" where
  "good_sample m \<longleftrightarrow> first_image m = FINGERPRINT_OK \<and> sample_tz m = FINGERPRINT_OK \<and> createModel m = FINGERPRINT_OK \<and>
     storeModel m = FINGERPRINT_OK"

definition enroll_request :: "u64 \<Rightarrow> u8 \<Rightarrow> bytes \<Rightarrow> bio_req" where
  "enroll_request sub tid auth = \<lparr>beSub = Some sub, beTemplateId = Some [tid], beFriendlyName = None,
     bePinUvAuthParam = auth, beModalityOnly = False\<rparr>"

definition enroll_finger :: "env \<Rightarrow> watch \<Rightarrow> u8 \<Rightarrow> bytes \<Rightarrow> sample \<Rightarrow> sample \<Rightarrow> ctap \<Rightarrow> ctap option" where
  "enroll_finger e w tid auth m1 m2 s = do {
     s \<leftarrow> bio_subcommand e m1 w (enroll_request 1 tid auth) 1 s;
     bio_subcommand e m2 w (enroll_request 2 tid auth) 2 s }"

lemma good_capture:
  assumes "good_sample m"
  shows "captureBioSample m s =
    (let s = s\<lparr>bioEnrollSamplesRemaining := if bioEnrollSamplesRemaining s > 0 then bioEnrollSamplesRemaining s - 1 else 0\<rparr> in
     Some (\<lparr>status = 0, outCanceled = False, outFinished = (bioEnrollSamplesRemaining s = 0)\<rparr>, s))"
  using assms by (simp add: captureBioSample_def good_sample_def capture_failed_def Let_def word_gt_0)

lemma enroll_finger_ok:
  assumes "isFidoPinSet (sys s)" "auth \<noteq> []" "good_sample m1" "good_sample m2" "tid \<noteq> 0"
    "tid = findFreeBioTemplateSlot (json_lib e) (sys s)"
  shows "enroll_finger e w tid auth m1 m2 s =
    Some (s\<lparr>sys := snd (saveBioTemplateName (plat e) (json_lib e) tid (finger_name tid) (sys s)),
      bioEnrollActive := False, bioEnrollTemplateId := tid, bioEnrollSamplesRequired := 2, bioEnrollSamplesRemaining := 0,
      sent := sent s @ [reply_of [WMap 3, WUInt 4, WBytes [tid], WUInt 5, WUInt 0, WUInt 6, WUInt 1],
        reply_of [WMap 2, WUInt 5, WUInt 0, WUInt 6, WUInt 0]]\<rparr>)"
proof -
  define s1 where "s1 = s\<lparr>bioEnrollActive := True, bioEnrollTemplateId := tid, bioEnrollSamplesRequired := 2,
    bioEnrollSamplesRemaining := 1, sent := sent s @ [reply_of [WMap 3, WUInt 4, WBytes [tid], WUInt 5, WUInt 0, WUInt 6, WUInt 1]]\<rparr>"
  have "within 8181 [WMap 3, WUInt 4, WBytes [tid], WUInt 5, WUInt 0, WUInt 6, WUInt 1]"
    "within 8181 [WMap 2, WUInt 5, WUInt 0, WUInt 6, WUInt 0]" by (simp_all add: within_simps)
  note r = this [THEN within_respond]
  have "bio_subcommand e m1 w (enroll_request 1 tid auth) 1 s = Some s1"
    using assms r(1) by (simp add: bio_subcommand_def enroll_request_def enroll_begin_def Let_def enroll_sample_def good_capture
        s1_def)
  moreover have "bio_subcommand e m2 w (enroll_request 2 tid auth) 2 s1 =
    Some (s\<lparr>sys := snd (saveBioTemplateName (plat e) (json_lib e) tid (finger_name tid) (sys s)),
      bioEnrollActive := False, bioEnrollTemplateId := tid, bioEnrollSamplesRequired := 2, bioEnrollSamplesRemaining := 0,
      sent := sent s @ [reply_of [WMap 3, WUInt 4, WBytes [tid], WUInt 5, WUInt 0, WUInt 6, WUInt 1],
        reply_of [WMap 2, WUInt 5, WUInt 0, WUInt 6, WUInt 0]]\<rparr>)"
    using assms r(2) by (simp add: bio_subcommand_def enroll_request_def enroll_next_def Let_def enroll_sample_def good_capture
        save_name_def s1_def split: prod.split)
  ultimately show ?thesis by (simp add: enroll_finger_def)
qed

lemma bioEnrollment_step:
  assumes "bioEnrollment e m w data s = Some s'" "enrol_ok s"
  shows "enrol_ok s' \<and> (names_file s' \<noteq> names_file s \<longrightarrow> (\<exists>r. parse_bio data = Some (Some r) \<and> may_change_names m r s))"
proof (cases "\<exists>r sub. parse_bio data = Some (Some r) \<and> beSub r = Some sub")
  case True
  then obtain r sub where r: "parse_bio data = Some (Some r)" "beSub r = Some sub" by blast
  then have "bio_subcommand e m w r sub s = Some s'" using assms(1) by (simp add: bioEnrollment_def)
  from bio_subcommand_step [OF this r(2) assms(2)] r(1) show ?thesis by blast
next
  case False
  obtain q where q: "parse_bio data = Some q" using assms(1) by (auto simp: bioEnrollment_def bind_eq_Some_conv)
  then have "(\<exists>err. fail_with err s = Some s') \<or> (\<exists>cs. respond cs s = Some s')"
    using assms(1) False by (cases q) (auto simp: bioEnrollment_def split: option.splits if_splits)
  then show ?thesis using assms(2) reply_enrol reply_names by metis
qed

section \<open>Properties\<close>


definition bio_sample :: sample where
  "bio_sample = \<lparr>wait_start = 5, first_image = FINGERPRINT_OK, wait_turns = [], sample_tz = FINGERPRINT_OK,
     createModel = FINGERPRINT_OK, storeModel = FINGERPRINT_OK\<rparr>"


text \<open>
  Removing a finger needs no touch, and the authentication parameter of the request is not checked: any
  host process can remove the last finger, after which every touch verifies the user.
\<close>

theorem removal_disables_verification:
  assumes "json_ok (json_lib e)" "can_open (plat e) ''/bio_templates.json''" "isFidoPinSet (sys s)" "auth \<noteq> []"
    "bio_doc (json_lib e) (sys s) = [(show_int (uint i), name)]" "word_of_int (toInt (show_int (uint i))) = i"
    "getFailedUvAttempts (sys s) < 8" "getImage f 0 = FINGERPRINT_OK"
  shows "\<exists>s'. bio_subcommand e m w (enroll_request 6 i auth) 6 s = Some s' \<and> accepted e (sys s') f"
proof -
  define t where "t = snd (deleteBioTemplateRecord (plat e) (json_lib e) i (sys s))"
  have ids: "getAllBioTemplateIds (json_lib e) (sys s) = [i]" using assms(5,6) by (simp add: getAllBioTemplateIds_def)
  have "parse_obj (json_lib e) (ser_obj (json_lib e) []) = Some []" using json_okD(2) [OF assms(1), of "[]"] by simp
  then have t: "bio_doc (json_lib e) t = []"
    using assms(2,5) by (simp add: t_def deleteBioTemplateRecord_def Let_def write_file_def)
      (simp add: bio_doc_def or_empty_def)
  have "files t ''/fido_uv_fail.txt'' = files (sys s) ''/fido_uv_fail.txt''"
    using assms(2,5) by (simp add: t_def deleteBioTemplateRecord_def Let_def write_file_def)
  then have "getFailedUvAttempts t < 8" using assms(7) by (simp add: getFailedUvAttempts_def)
  then have "accepted e t f"
    using bootstrap_accepts_any_touch [of e t f] t assms(8) by (simp add: getBioTemplateCount_def getAllBioTemplateIds_def)
  moreover have "\<exists>s'. bio_subcommand e m w (enroll_request 6 i auth) 6 s = Some s' \<and> sys s' = t"
    using assms(3,4) ids within_respond [of "[WMap 0]"]
    by (simp add: bio_subcommand_def enroll_request_def remove_finger_def Let_def t_def within_simps)
  ultimately show ?thesis by blast
qed

end
