(* ===== verification/CtapMake.thy ===== *)
theory CtapMake
  imports CtapAssert
begin

text \<open>
  authenticatorMakeCredential (0x01) of \<open>src/FIDO2Manager.cpp\<close>, from the exclude list over user
  verification, key generation and storage of the credential to the attested reply.

  \<open>making\<close> is what the command observes beside that: the keep-alives of the task that generates the key, the
  random credential id, large-blob key, padding of the record and initialisation vector.
\<close>

record making = observed +
  gen_busy :: nat
  fresh_id :: bytes
  fresh_blob_key :: bytes
  record_pad :: u32
  fresh_iv :: bytes

section \<open>Key generation\<close>

record new_key =
  newPriv :: bytes
  newPub :: bytes
  newExp :: bytes

text \<open>Length of the public key and of the secret key of an ML-DSA algorithm identifier.\<close>

definition mldsa_pub_len :: "i32 \<Rightarrow> nat" where
  "mldsa_pub_len alg = (if alg = - 48 then 1312 else if alg = - 49 then 1952 else 2592)"

definition mldsa_priv_cap :: "i32 \<Rightarrow> nat" where
  "mldsa_priv_cap alg = (if alg = - 48 then 2560 else if alg = - 49 then 4032 else 4896) + 32"

text \<open>\<open>None\<close> is \<open>keygenSuccess == false\<close>, which it is for every other algorithm, too.\<close>

definition new_credential_key :: "env \<Rightarrow> i32 \<Rightarrow> new_key option" where
  "new_credential_key e alg =
     (let h = heap (plat e); k = signing e in
      if alg = - 7 then
        if h 65 then map_option (\<lambda>(d, p). \<lparr>newPriv = d, newPub = p, newExp = []\<rparr>) (generateCredentialKeyP256 k) else None
      else if alg = - 8 then
        if h 32 then map_option (\<lambda>(d, p). \<lparr>newPriv = d, newPub = p, newExp = []\<rparr>) (generateEd25519KeyPair k) else None
      else if alg = - 257 then
        if h 256 \<and> h 3 then map_option (\<lambda>(d, n, x). \<lparr>newPriv = d, newPub = n, newExp = x\<rparr>) (generateRsa2048KeyPair k)
        else None
      else if alg \<in> {- 48, - 49, - 50} then
        if h (mldsa_pub_len alg) \<and> h (mldsa_priv_cap alg) then
          map_option (\<lambda>(d, p). \<lparr>newPriv = toHex d, newPub = p, newExp = []\<rparr>)
            (generateMlDsaKeyPairEx k (sint alg) (mldsa_priv_cap alg))
        else None
      else None)"

text \<open>RSA and ML-DSA keys are made by a task of their own.\<close>

definition gen_task :: "env \<Rightarrow> i32 \<Rightarrow> bool" where
  "gen_task e alg =
     (if alg = - 257 then heap (plat e) 256 \<and> heap (plat e) 3
      else alg \<in> {- 48, - 49, - 50} \<and> heap (plat e) (mldsa_pub_len alg) \<and> heap (plat e) (mldsa_priv_cap alg))"

section \<open>The credential\<close>

text \<open>\<open>optionRK\<close> after the algorithms whose keys do not fit a credential id were forced to be resident.\<close>

definition resident :: "mc_req \<Rightarrow> bool" where
  "resident r \<longleftrightarrow> mcRK r \<or> mcAlg r \<in> {- 257, - 48, - 49, - 50}"

definition largeBlobKeyGenerated :: "mc_req \<Rightarrow> bool" where
  "largeBlobKeyGenerated r \<longleftrightarrow> mcLargeBlobKey r \<and> resident r"

definition credBlobStored :: "mc_req \<Rightarrow> bool" where
  "credBlobStored r \<longleftrightarrow> mcCredBlob r \<and> resident r \<and> 0 < length (mcCredBlobRaw r) \<and> length (mcCredBlobRaw r) \<le> MAX_CRED_BLOB_LEN"

definition new_record :: "making \<Rightarrow> mc_req \<Rightarrow> bytes \<Rightarrow> cred" where
  "new_record mk r privHex = \<lparr>rpId = mcRpId r, userIdHex = toHex (mcUserId r), userName = mcUserName r,
     privateKeyHex = privHex, algId = mcAlg r, credProtect = int (mcCredProtect r),
     largeBlobKeyHex = (if largeBlobKeyGenerated r then toHex (fresh_blob_key mk) else []),
     credBlobHex = (if credBlobStored r then toHex (mcCredBlobRaw r) else [])\<rparr>"

text \<open>The record of the same user is deleted before the new one is written.\<close>

definition save_resident :: "env \<Rightarrow> making \<Rightarrow> mc_req \<Rightarrow> bytes \<Rightarrow> ctap \<Rightarrow> (bool \<times> ctap) option" where
  "save_resident e mk r privHex s = do {
     existing \<leftarrow> findCredentialIdByRpAndUser (plat e) (ctap_files s) (mcRpId r) (toHex (mcUserId r));
     fs \<leftarrow> (if existing \<noteq> [] then map_option snd (deletePasskeyRecord (plat e) existing (ctap_files s))
       else Some (ctap_files s));
     (ok, fs, n) \<leftarrow> savePasskeyRecord (plat e) (record_pad mk) (toHex (fresh_id mk)) (new_record mk r privHex) (fs, nonces s);
     Some (ok, store_files fs s\<lparr>nonces := n\<rparr>) }"

text \<open>
  The credential id and the state, or the error code. \<open>rawCredId\<close> has 224 bytes.
\<close>

definition new_credential :: "env \<Rightarrow> making \<Rightarrow> mc_req \<Rightarrow> bytes \<Rightarrow> ctap \<Rightarrow> ((u8 + bytes) \<times> ctap) option" where
  "new_credential e mk r privHex s =
     (if resident r then
        map_option (\<lambda>(ok, s). (if ok then Inr (fresh_id mk) else Inl 0x21, s)) (save_resident e mk r privHex s)
      else case getStatelessMasterSecret (nvs_ok e) (new_secret mk) (sys s) of (secret, t) \<Rightarrow>
        let s = s\<lparr>sys := t\<rparr> in
        case wrapStatelessCredential (plat e) secret (fresh_iv mk) (mcRpId r) (mcUserId r) (mcUserName r) privHex (mcAlg r) of
          None \<Rightarrow> Some (Inl 0x01, s)
        | Some credId \<Rightarrow> if length credId > MAX_CREDENTIAL_ID_LEN then None else Some (Inr credId, s))"

section \<open>Authenticator data\<close>

definition cose_public_key :: "i32 \<Rightarrow> new_key \<Rightarrow> bytes" where
  "cose_public_key alg k =
     (if alg = - 7 then
        [0xA5, 0x01, 0x02, 0x03, 0x26, 0x20, 0x01, 0x21, 0x58, 0x20] @ take 32 (drop 1 (newPub k)) @
        [0x22, 0x58, 0x20] @ take 32 (drop 33 (newPub k))
      else if alg = - 8 then
        [0xA4, 0x01, 0x01, 0x03, 0x27, 0x20, 0x06, 0x21, 0x58, 0x20] @ take 32 (newPub k)
      else if alg = - 257 then
        [0xA4, 0x01, 0x03, 0x03, 0x39, 0x01, 0x00, 0x20, 0x59, 0x01, 0x00] @ take 256 (newPub k) @
        [0x21, 0x43] @ take 3 (newExp k)
      else
        [0xA3, 0x01, 0x07, 0x03, 0x38, ucast (- alg - 1), 0x20, 0x59, of_nat (mldsa_pub_len alg div 256),
         of_nat (mldsa_pub_len alg mod 256)] @ take (mldsa_pub_len alg) (newPub k))"

definition mc_extensions :: "mc_req \<Rightarrow> write_call list" where
  "mc_extensions r =
     (if mcHmacSecret r \<or> mcCredBlob r then
        [WMap (of_bool (mcHmacSecret r) + of_bool (mcCredBlob r))] @
        (if mcHmacSecret r then [text_lit ''hmac-secret'', WBool True] else []) @
        (if mcCredBlob r then [text_lit ''credBlob'', WBool (credBlobStored r)] else [])
      else [])"

definition attested_data :: "env \<Rightarrow> mc_req \<Rightarrow> bytes \<Rightarrow> new_key \<Rightarrow> ctap \<Rightarrow> bytes" where
  "attested_data e r credId k s =
     mbed_sha256 (crypt e) (mcRpId r) @ [if mcHmacSecret r \<or> mcCredBlob r then 0xC5 else 0x45] @
     u32_bytes (loadPersistedSignCount s) @ dynamicAaguid s @
     [of_nat (length credId div 256), of_nat (length credId mod 256)] @ credId @ cose_public_key (mcAlg r) k"

text \<open>The extension map is written by an encoder over the rest of the buffer of 8192 bytes.\<close>

definition make_auth_data :: "env \<Rightarrow> mc_req \<Rightarrow> bytes \<Rightarrow> new_key \<Rightarrow> ctap \<Rightarrow> bytes option" where
  "make_auth_data e r credId k s = do {
     let d = attested_data e r credId k s;
     (oks, x) \<leftarrow> run_calls (mc_extensions r) (new_encoder (replicate (8192 - length d) 0));
     Some (d @ written x) }"

section \<open>Attestation and reply\<close>

definition attestation_cert :: "ctap \<Rightarrow> bytes option" where
  "attestation_cert s = (if isBatchAttestationAvailable s then getLeafAttestationCert s else None)"

definition attestation_key :: "mc_req \<Rightarrow> new_key \<Rightarrow> ctap \<Rightarrow> i32 \<times> bytes" where
  "attestation_key r k s =
     (case attestation_cert s of
        Some _ \<Rightarrow> (- 7, toHex (take 32 (attestationPrivKeyCache s)))
      | None \<Rightarrow> (mcAlg r, newPriv k))"

definition attestation_items :: "making \<Rightarrow> mc_req \<Rightarrow> i32 \<Rightarrow> bytes option \<Rightarrow> bytes \<Rightarrow> bytes \<Rightarrow> write_call list" where
  "attestation_items mk r alg cert authData sig =
     [WMap (3 + of_bool (largeBlobKeyGenerated r)), WUInt 1, text_lit ''packed'', WUInt 2, WBytes authData,
      WUInt 3, WMap (case cert of Some _ \<Rightarrow> 3 | None \<Rightarrow> 2), text_lit ''alg'', WNInt (scast alg),
      text_lit ''sig'', WBytes sig] @
     (case cert of Some c \<Rightarrow> [text_lit ''x5c'', WArray 1, WBytes c] | None \<Rightarrow> []) @
     (if largeBlobKeyGenerated r then [WUInt 5, WBytes (fresh_blob_key mk)] else [])"

text \<open>\<open>rawMsg\<close> is not tested: the copy to a null pointer is undefined.\<close>

definition attest :: "env \<Rightarrow> making \<Rightarrow> mc_req \<Rightarrow> bytes \<Rightarrow> new_key \<Rightarrow> ctap \<Rightarrow> ctap option" where
  "attest e mk r credId k s =
     (if \<not> heap (plat e) 8192 then fail_with 0x01 s
      else do {
        authData \<leftarrow> make_auth_data e r credId k s;
        if \<not> heap (plat e) (length authData + 32) then None
        else case attestation_key r k s of (alg, privHex) \<Rightarrow> do {
          sig \<leftarrow> generateAlgSignature (heap (plat e)) (signing e) (sint alg) privHex (authData @ mcHash r);
          let s = stay_busy (busy mk) s;
          case sig of
            None \<Rightarrow> fail_with 0x01 s
          | Some sig \<Rightarrow> respond (attestation_items mk r alg (attestation_cert s) authData sig) s } })"

section \<open>The command\<close>

fun excluded :: "env \<Rightarrow> bytes \<Rightarrow> bytes list \<Rightarrow> ctap \<Rightarrow> bool option" where
  "excluded e rp [] s = Some False"
| "excluded e rp (credId # ids) s = do {
     c \<leftarrow> getPasskeyRecord (plat e) (ctap_files s) (toHex credId);
     case c of
       Some c \<Rightarrow> if rpFieldMatchesPlainRpId (plat e) (rpId c) rp then Some True else excluded e rp ids s
     | None \<Rightarrow> excluded e rp ids s }"

definition register :: "env \<Rightarrow> making \<Rightarrow> mc_req \<Rightarrow> ctap \<Rightarrow> ctap option" where
  "register e mk r s = do {
     let key = new_credential_key e (mcAlg r);
     let s = (if gen_task e (mcAlg r) then stay_busy (gen_busy mk) s else s);
     case key of
       None \<Rightarrow> fail_with 0x01 s
     | Some k \<Rightarrow> do {
         (c, s) \<leftarrow> new_credential e mk r (newPriv k) s;
         case c of Inl err \<Rightarrow> fail_with err s | Inr credId \<Rightarrow> attest e mk r credId k s } }"

definition make_for :: "env \<Rightarrow> making \<Rightarrow> mc_req \<Rightarrow> ctap \<Rightarrow> ctap option" where
  "make_for e mk r s =
     (if mcRpId r = [] \<or> mcUserId r = [] \<or> length (mcHash r) \<noteq> 32 then fail_with 0x0A s
      else do {
        x \<leftarrow> excluded e (mcRpId r) (mcExclude r) s;
        if x then fail_with 0x19 s
        else do {
          (v, s) \<leftarrow> verify_user e (user_watch mk) s;
          case v of
            Canceled \<Rightarrow> fail_with 0x2D s
          | Timed_Out \<Rightarrow> fail_with 0x34 s
          | Verified _ \<Rightarrow> register e mk r s } })"

definition makeCredential :: "env \<Rightarrow> making \<Rightarrow> bytes \<Rightarrow> ctap \<Rightarrow> ctap option" where
  "makeCredential e mk data s = do { r \<leftarrow> parse_mc (defaultCryptoAlg s) data; make_for e mk r s }"

section \<open>What the parts promise\<close>

lemma parse_mc_ok:
  assumes "length data < 65536"
  shows "\<exists>r. parse_mc alg data = Some r \<and> mc_ok r"
proof -
  have "mc_ok (mc_start alg)" by (simp add: mc_ok_def mc_start_def)
  then show ?thesis
    using bounded_walkI [OF mc_steady _ assms, of "mc_start alg" alg]
    by (auto simp: bounded_walk_def parse_mc_def split: option.splits)
qed

lemma excluded_eq:
  assumes "roomy (plat e)" "holds (plat e) (ctap_files s) st"
  shows "excluded e rp ids s = Some (\<exists>i \<in> set ids. \<exists>c. map_of st (toHex i) = Some c \<and> rpFieldMatchesPlainRpId (plat e) (rpId c) rp)"
proof (induction ids)
  case (Cons i ids)
  have "getPasskeyRecord (plat e) (ctap_files s) (toHex i) = Some (map_of st (toHex i))"
    using getPasskey_holds [OF assms, of "toHex i"] by (cases "map_of st (toHex i)") (simp_all add: truncate_id)
  then show ?case using Cons by (cases "map_of st (toHex i)") auto
qed simp

definition supported :: "i32 \<Rightarrow> bool" where
  "supported alg \<longleftrightarrow> alg \<in> {- 7, - 8, - 257, - 48, - 49, - 50}"

lemma supported_negative: "supported alg \<Longrightarrow> (scast alg :: 64 word) <s 0"
  by (auto simp: supported_def word_sless_alt sint_scast64)

lemma new_key_signs:
  assumes "key_lengths (signing e)" "primitives_sign V (signing e)" "\<forall>n. heap (plat e) n"
    "new_credential_key e alg = Some k"
  shows "supported alg" "signs V (heap (plat e)) (signing e) (sint alg) (newPriv k, newPub k)" "\<exists>d. newPriv k = toHex d"
proof -
  have "alg = - 7 \<or> alg = - 8 \<or> alg = - 257 \<or> alg \<in> {- 48, - 49, - 50}"
    using assms(4) by (auto simp: new_credential_key_def Let_def split: if_splits)
  then show "supported alg" by (auto simp: supported_def)
  show "signs V (heap (plat e)) (signing e) (sint alg) (newPriv k, newPub k)"
    using assms(4) p256_signs [OF assms(1-3)] ed_signs [OF assms(1-3)] rsa_signs [OF assms(1-3)] mldsa_signs [OF assms(1-3)]
    by (auto simp: new_credential_key_def Let_def split: if_splits)
  show "\<exists>d. newPriv k = toHex d"
    using assms(4)
    by (auto simp: new_credential_key_def Let_def generateCredentialKeyP256_def generateEd25519KeyPair_def
        generateRsa2048KeyPair_def split: if_splits option.splits)
qed

lemma make_auth_data_eq:
  assumes "length (attested_data e r credId k s) \<le> 8000"
  shows "make_auth_data e r credId k s = Some (attested_data e r credId k s @ concat (map call_enc (mc_extensions r)))"
proof -
  define n where "n = 8192 - length (attested_data e r credId k s)"
  have n: "192 \<le> n" "n \<le> 8192" using assms by (simp_all add: n_def)
  have x: "\<forall>c \<in> set (mc_extensions r). call_ok c" "enc_len (mc_extensions r) \<le> 80"
    using enc_len_le [of "mc_extensions r"] by (auto simp: mc_extensions_def length_lits split: if_splits)
  have "ewf (new_encoder (replicate n 0))" "eoff (new_encoder (replicate n 0)) = 0" "ecap (new_encoder (replicate n 0)) = n"
    using n by (simp_all add: ewf_def new_encoder_def)
  then obtain oks e' where "run_calls (mc_extensions r) (new_encoder (replicate n 0)) = Some (oks, e')"
    "written e' = concat (map call_enc (mc_extensions r))"
    using run_calls_room [of "new_encoder (replicate n 0)" "mc_extensions r"] x n new_encoder_ok(2) [of "replicate n 0"]
    by auto
  then show ?thesis by (simp add: make_auth_data_def n_def)
qed

lemma length_attested_data:
  assumes "primitives_ok (crypt e)" "length credId \<le> 224" "length (dynamicAaguid s) = 16"
  shows "length (attested_data e r credId k s) \<le> 2890"
proof -
  have "length (cose_public_key (mcAlg r) k) \<le> 2602" by (auto simp: cose_public_key_def mldsa_pub_len_def)
  then show ?thesis using assms primitivesD(1) [OF assms(1)] by (simp add: attested_data_def)
qed

text \<open>Signatures of the six algorithms have at most 4627 bytes.\<close>

definition short_signatures :: "env \<Rightarrow> bool" where
  "short_signatures e \<longleftrightarrow> (\<forall>alg priv m sig. generateAlgSignature (heap (plat e)) (signing e) alg priv m = Some (Some sig) \<longrightarrow>
     length sig \<le> 4627)"

text \<open>What is assumed of the environment when a credential is made.\<close>

definition sound_env :: "(int \<Rightarrow> bytes \<Rightarrow> bytes \<Rightarrow> bytes \<Rightarrow> bool) \<Rightarrow> env \<Rightarrow> bool" where
  "sound_env V e \<longleftrightarrow> sound (plat e) \<and> primitives_ok (crypt e) \<and> key_lengths (signing e) \<and> primitives_sign V (signing e) \<and>
     short_signatures e"

lemma sound_envD:
  assumes "sound_env V e"
  shows "sound (plat e)" "roomy (plat e)" "\<forall>n. heap (plat e) n" "primitives_ok (crypt e)" "key_lengths (signing e)"
    "primitives_sign V (signing e)" "short_signatures e"
  using assms by (auto simp: sound_env_def sound_def roomy_def)

text \<open>The reply to a registration with self attestation.\<close>

definition attests :: "(int \<Rightarrow> bytes \<Rightarrow> bytes \<Rightarrow> bytes \<Rightarrow> bool) \<Rightarrow> env \<Rightarrow> making \<Rightarrow> mc_req \<Rightarrow> bytes \<Rightarrow> new_key \<Rightarrow> ctap \<Rightarrow>
    u8 \<times> bytes \<Rightarrow> bool" where
  "attests V e mk r credId k s x \<longleftrightarrow>
     (let authData = attested_data e r credId k s @ concat (map call_enc (mc_extensions r)) in
      \<exists>sig. x = reply_of (attestation_items mk r (mcAlg r) None authData sig) \<and>
        V (sint (mcAlg r)) (newPub k) (authData @ mcHash r) sig)"

lemma attestation_cert_sent [simp]: "attestation_cert (s\<lparr>sent := x\<rparr>) = attestation_cert s"
  by (simp add: attestation_cert_def isBatchAttestationAvailable_def getLeafAttestationCert_def)

lemma attest_ok:
  assumes "sound_env V e" "new_credential_key e (mcAlg r) = Some k" "attestation_cert s = None"
    "length credId \<le> 224" "length (dynamicAaguid s) = 16" "length (fresh_blob_key mk) = 32"
  shows "\<exists>x. attest e mk r credId k s = Some (s\<lparr>sent := sent s @ replicate (busy mk) (0xBB, [2]) @ [x]\<rparr>) \<and>
    attests V e mk r credId k s x"
proof -
  note E = sound_envD [OF assms(1)]
  note K = new_key_signs [OF E(5,6,3) assms(2)]
  define authData where "authData = attested_data e r credId k s @ concat (map call_enc (mc_extensions r))"
  have l: "length (attested_data e r credId k s) \<le> 2890" using length_attested_data [OF E(4) assms(4,5)] .
  then have m: "make_auth_data e r credId k s = Some authData" using make_auth_data_eq by (simp add: authData_def)
  have "enc_len (mc_extensions r) \<le> 80"
    using enc_len_le [of "mc_extensions r"] by (auto simp: mc_extensions_def length_lits split: if_splits)
  then have a: "length authData \<le> 2970" using l by (simp add: authData_def enc_len_def)
  obtain sig where sig: "generateAlgSignature (heap (plat e)) (signing e) (sint (mcAlg r)) (newPriv k) (authData @ mcHash r) =
      Some (Some sig)" "V (sint (mcAlg r)) (newPub k) (authData @ mcHash r) sig"
    using K(2) unfolding signs_def fst_conv snd_conv by blast
  have "length sig \<le> 4627" using E(7) sig(1) unfolding short_signatures_def by blast
  then have "within 8181 (attestation_items mk r (mcAlg r) None authData sig)"
    using a assms(6) supported_negative [OF K(1)] unfolding attestation_items_def within_def by (simp add: length_lits)
  from within_respond [OF this]
  have "attest e mk r credId k s = Some (s\<lparr>sent := sent s @ replicate (busy mk) (0xBB, [2]) @
      [reply_of (attestation_items mk r (mcAlg r) None authData sig)]\<rparr>)"
    using E(3) m assms(3) sig(1) by (simp add: attest_def attestation_key_def stay_busy_def Let_def)
  moreover have "attests V e mk r credId k s (reply_of (attestation_items mk r (mcAlg r) None authData sig))"
    using sig(2) by (auto simp: attests_def authData_def Let_def)
  ultimately show ?thesis by blast
qed

text \<open>Storing: the record of the same user goes, and the new one comes, when it can be saved.\<close>

definition others :: "env \<Rightarrow> mc_req \<Rightarrow> store \<Rightarrow> store" where
  "others e r st = filter (\<lambda>(cid, c). cid \<noteq> first_match (plat e) (mcRpId r) (toHex (mcUserId r)) st) st"

lemma save_resident_ok:
  assumes "sound (plat e)" "holds (plat e) (ctap_files s) st" "cred_ok (toHex (fresh_id mk)) (new_record mk r priv)"
    "nonce_subsystem_initialized (nonces s)" "\<forall>(cid, c) \<in> set st. cid \<noteq> []"
  shows "\<exists>ok s'. save_resident e mk r priv s = Some (ok, s') \<and>
    (\<exists>fs n. s' = store_files fs s\<lparr>nonces := n\<rparr> \<and> nonce_subsystem_initialized n \<and>
      holds (plat e) fs (others e r st @ (if ok then [(toHex (fresh_id mk), new_record mk r priv)] else [])))"
proof -
  have p: "roomy (plat e)" using assms(1) by (simp add: sound_def)
  define old where "old = first_match (plat e) (mcRpId r) (toHex (mcUserId r)) st"
  have f: "findCredentialIdByRpAndUser (plat e) (ctap_files s) (mcRpId r) (toHex (mcUserId r)) = Some old"
    using find_by_user_holds [OF p assms(2)] by (simp add: old_def)
  obtain fs1 where fs1: "(if old \<noteq> [] then map_option snd (deletePasskeyRecord (plat e) old (ctap_files s)) else Some (ctap_files s))
      = Some fs1" "holds (plat e) fs1 (others e r st)"
  proof (cases "old = []")
    case True
    then have "others e r st = st"
      using assms(5) by (auto simp: others_def filter_id_conv simp flip: old_def)
    then show thesis using that [of "ctap_files s"] True assms(2) by simp
  next
    case False
    obtain fs' where d: "delete_where (plat e) (\<lambda>cid rp. cid = old) (ctap_files s) = Some (\<exists>(cid, c) \<in> set st. cid = old, fs')"
      "holds (plat e) fs' (filter (\<lambda>(cid, c). cid \<noteq> old) st)"
      using delete_holds [OF p assms(2), of "\<lambda>cid rp. cid = old"] by blast
    then show thesis using that [of fs'] False by (simp add: deletePasskeyRecord_def others_def flip: old_def)
  qed
  obtain ok fs' n where sv: "savePasskeyRecord (plat e) (record_pad mk) (toHex (fresh_id mk)) (new_record mk r priv)
      (fs1, nonces s) = Some (ok, fs', n)"
    "holds (plat e) fs' (if ok then others e r st @ [(toHex (fresh_id mk), new_record mk r priv)] else others e r st)"
    "nonce_subsystem_initialized n"
    using save_holds [OF assms(1) fs1(2) assms(3,4)] by metis
  have "save_resident e mk r priv s = Some (ok, store_files fs' s\<lparr>nonces := n\<rparr>)"
    using f fs1(1) sv(1) by (simp add: save_resident_def)
  then show ?thesis
    using sv(2,3) by (intro exI [of _ ok] exI [of _ "store_files fs' s\<lparr>nonces := n\<rparr>"] conjI exI [of _ fs'] exI [of _ n])
      (simp_all split: if_splits)
qed

lemma attests_same:
  "eeprom_word s' = eeprom_word s \<Longrightarrow> dynamicAaguid s' = dynamicAaguid s \<Longrightarrow>
    attests V e mk r credId k s' x = attests V e mk r credId k s x"
  by (simp add: attests_def attested_data_def loadPersistedSignCount_def)

lemma attestation_cert_same:
  "attestationProvisioned s' = attestationProvisioned s \<Longrightarrow> attestationChainCache s' = attestationChainCache s \<Longrightarrow>
    attestation_cert s' = attestation_cert s"
  by (simp add: attestation_cert_def isBatchAttestationAvailable_def getLeafAttestationCert_def)

lemma new_record_ok:
  assumes "mc_ok r" "10 \<notin> set (mcUserName r)" "length (fresh_id mk) = 16" "length (fresh_blob_key mk) = 32"
    "length d \<le> 4928"
  shows "cred_ok (toHex (fresh_id mk)) (new_record mk r (toHex d))"
proof -
  have "mcCredProtect r \<in> {1, 2, 3}" using assms(1) by (auto simp: mc_ok_def)
  moreover have "length (show_int 1) = 1 \<and> 0 \<notin> set (show_int 1)" "length (show_int 2) = 1 \<and> 0 \<notin> set (show_int 2)"
    "length (show_int 3) = 1 \<and> 0 \<notin> set (show_int 3)" by code_simp+
  ultimately have p: "length (show_int (int (mcCredProtect r))) = 1" "0 \<notin> set (show_int (int (mcCredProtect r)))"
    "int (mcCredProtect r) \<le> 3"
    by auto
  have m: "length (mcUserName r) < 128" "0 \<notin> set (mcUserName r)" "length (mcUserId r) \<le> 64" "length (mcCredBlobRaw r) \<le> 32"
    "length (mcRpId r) < 128" "0 \<notin> set (mcRpId r)"
    using assms(1) by (simp_all add: mc_ok_def)
  show ?thesis
    using p m assms(2-5) toHex_plain
    by (auto simp: cred_ok_def fields_ok_def plain_string_def new_record_def rawPayload_def)
qed

text \<open>What precedes the storing: the user is verified, and nothing else has changed.\<close>

lemma make_reaches_register:
  assumes "sound_env V e" "holds (plat e) (ctap_files s) st" "parse_mc (defaultCryptoAlg s) data = Some r"
    "mcRpId r \<noteq> []" "mcUserId r \<noteq> []" "length (mcHash r) = 32"
    "\<forall>i \<in> set (mcExclude r). \<forall>c. map_of st (toHex i) = Some c \<longrightarrow> \<not> rpFieldMatchesPlainRpId (plat e) (rpId c) (mcRpId r)"
    "verify_user e (user_watch mk) s = Some (Verified d, s1)"
  shows "makeCredential e mk data s = register e mk r s1" "holds (plat e) (ctap_files s1) st" "nonces s1 = nonces s"
    "eeprom_word s1 = eeprom_word s" "dynamicAaguid s1 = dynamicAaguid s" "attestation_cert s1 = attestation_cert s"
    "replies s1 = replies s"
proof -
  have "excluded e (mcRpId r) (mcExclude r) s = Some False"
    using excluded_eq [OF sound_envD(2) [OF assms(1)] assms(2), of "mcRpId r" "mcExclude r"] assms(7) by simp
  then show "makeCredential e mk data s = register e mk r s1"
    using assms(3-6,8) by (simp add: makeCredential_def make_for_def)
  have f: "uv_frame s s1" using uv_loop_frame assms(8) unfolding verify_user_def by blast
  note D = uv_frameD [OF f]
  show "holds (plat e) (ctap_files s1) st"
    using holds_same [of "ctap_files s1" "ctap_files s"] same_files [OF D(1), of "''/passkeys.bin''"] assms(2) by simp
  show "nonces s1 = nonces s" "eeprom_word s1 = eeprom_word s" "dynamicAaguid s1 = dynamicAaguid s"
    by (fact D)+
  show "attestation_cert s1 = attestation_cert s" using D(6,7) by (rule attestation_cert_same)
  show "replies s1 = replies s" using D(19) by (auto simp: replies_def)
qed

section \<open>Properties\<close>

text \<open>
  C3: registering a resident credential. When the user is verified and no credential of the exclude list
  is stored for the relying party, makeCredential replaces the record of the same user by the new
  one, and reports it with a signature of the new key that verifies under the reported public key;
  the stored private key signs every later message for that public key. When the record cannot be
  written, the reply is the error 0x21.
\<close>

theorem registration_of_resident:
  assumes "sound_env V e" "holds (plat e) (ctap_files s) st" "parse_mc (defaultCryptoAlg s) data = Some r"
    "mcRpId r \<noteq> []" "mcUserId r \<noteq> []" "length (mcHash r) = 32"
    "\<forall>i \<in> set (mcExclude r). \<forall>c. map_of st (toHex i) = Some c \<longrightarrow> \<not> rpFieldMatchesPlainRpId (plat e) (rpId c) (mcRpId r)"
    "verify_user e (user_watch mk) s = Some (Verified d, s1)"
    and "length data < 65536" "resident r" "new_credential_key e (mcAlg r) = Some k" "length (newPriv k) \<le> 9856"
    "10 \<notin> set (mcUserName r)" "attestation_cert s = None" "length (dynamicAaguid s) = 16"
    "length (fresh_id mk) = 16" "length (fresh_blob_key mk) = 32" "nonce_subsystem_initialized (nonces s)"
    "\<forall>(cid, c) \<in> set st. cid \<noteq> []"
  shows "\<exists>ok s' x. makeCredential e mk data s = Some s' \<and> replies s' = replies s @ [x] \<and>
    holds (plat e) (ctap_files s') (others e r st @ (if ok then [(toHex (fresh_id mk), new_record mk r (newPriv k))] else [])) \<and>
    (if ok then attests V e mk r (fresh_id mk) k s x else x = (0x90, [0x21])) \<and>
    signs V (heap (plat e)) (signing e) (sint (mcAlg r)) (newPriv k, newPub k)"
proof -
  note R = make_reaches_register [OF assms(1-8)]
  note E = sound_envD [OF assms(1)]
  note K = new_key_signs [OF E(5,6,3) assms(11)]
  obtain b where b: "newPriv k = toHex b" using K(3) by blast
  have "mc_ok r" using parse_mc_ok [OF assms(9), of "defaultCryptoAlg s"] assms(3) by simp
  then have c: "cred_ok (toHex (fresh_id mk)) (new_record mk r (newPriv k))"
    using new_record_ok [of r mk b] assms(12,13,16,17) by (simp add: b)
  define s2 where "s2 = (if gen_task e (mcAlg r) then stay_busy (gen_busy mk) s1 else s1)"
  have s2: "sys s2 = sys s1" "nonces s2 = nonces s" "eeprom_word s2 = eeprom_word s" "dynamicAaguid s2 = dynamicAaguid s"
    "attestation_cert s2 = None" "replies s2 = replies s"
    using R(3-7) assms(14) by (auto simp: s2_def stay_busy_def replies_def)
  obtain ok fs n where sv: "save_resident e mk r (newPriv k) s2 = Some (ok, store_files fs s2\<lparr>nonces := n\<rparr>)"
    "holds (plat e) fs (others e r st @ (if ok then [(toHex (fresh_id mk), new_record mk r (newPriv k))] else []))"
    using save_resident_ok [of e s2 st mk r "newPriv k"] E(1) R(2) s2(1,2) c assms(18,19) by metis
  define s3 where "s3 = store_files fs s2\<lparr>nonces := n\<rparr>"
  have s3: "eeprom_word s3 = eeprom_word s" "dynamicAaguid s3 = dynamicAaguid s" "attestation_cert s3 = None"
    "replies s3 = replies s" "ctap_files s3 = fs"
    using s2 attestation_cert_same [of s3 s2] by (simp_all add: s3_def store_files_def replies_def)
  have reg: "makeCredential e mk data s = (if ok then attest e mk r (fresh_id mk) k s3 else fail_with 0x21 s3)"
    using R(1) assms(10,11) sv(1) by (simp add: register_def new_credential_def Let_def flip: s2_def s3_def)
  show ?thesis
  proof (cases ok)
    case True
    obtain x where x: "attest e mk r (fresh_id mk) k s3 =
        Some (s3\<lparr>sent := sent s3 @ replicate (busy mk) (0xBB, [2]) @ [x]\<rparr>)" "attests V e mk r (fresh_id mk) k s3 x"
      using attest_ok [OF assms(1,11) s3(3), of "fresh_id mk" mk] s3(2) assms(15-17) by auto
    then have "fst x = 0x90" by (auto simp: attests_def reply_of_def Let_def)
    then have "replies (s3\<lparr>sent := sent s3 @ replicate (busy mk) (0xBB, [2]) @ [x]\<rparr>) = replies s @ [x]"
      using s3(4) by (auto simp: replies_def split: prod.splits)
    moreover have "attests V e mk r (fresh_id mk) k s x" using x(2) attests_same [OF s3(1,2)] by simp
    ultimately show ?thesis
      using True reg x(1) sv(2) s3(5) K(2)
      by (intro exI [of _ True] exI [of _ "s3\<lparr>sent := sent s3 @ replicate (busy mk) (0xBB, [2]) @ [x]\<rparr>"] exI [of _ x]) simp
  next
    case False
    then show ?thesis
      using reg sv(2) s3(4,5) K(2)
      by (intro exI [of _ False] exI [of _ "send_hid 0x90 [0x21] s3"] exI [of _ "(0x90, [0x21])"])
        (simp add: fail_with_def send_hid_def replies_def)
  qed
qed

text \<open>The keys of a stateless credential are short enough for the credential id.\<close>

lemma stateless_key_length:
  assumes "key_lengths (signing e)" "new_credential_key e (mcAlg r) = Some k" "\<not> resident r"
  shows "\<exists>d. newPriv k = toHex d \<and> length d \<le> 64 \<and> 32 \<le> length d"
  using assms key_lengthsD(1,2,5,8) [OF assms(1)]
  by (fastforce simp: resident_def new_credential_key_def Let_def generateCredentialKeyP256_def generateKeypairP256_def
      generateEd25519KeyPair_def bind_eq_Some_conv split: if_splits option.splits)

lemma pad16_mono: "a \<le> b \<Longrightarrow> pad16 a \<le> pad16 b"
  by (simp add: pad16_def div_le_mono)

lemma length_wrapped:
  assumes "primitives_ok (backend p)" "length iv = 16"
    "wrapStatelessCredential p secret iv rp u n (toHex d) alg = Some credId"
  shows "length credId = 48 + pad16 (108 + length d)"
proof -
  obtain aesKey hmacKey where k: "getStatelessMasterKeys (backend p) secret = (aesKey, hmacKey)" by fastforce
  have l: "length (plaintext (backend p) rp u n (toHex d) alg) = pad16 (108 + length d)" by (simp add: length_plaintext)
  then obtain c where "mbed_aes_cbc (backend p) aesKey True iv (plaintext (backend p) rp u n (toHex d) alg) = Some c"
    "length c = pad16 (108 + length d)"
    using primitivesD(3) [OF assms(1), of "plaintext (backend p) rp u n (toHex d) alg" iv aesKey] assms(2) pad16(2) by auto
  then show ?thesis
    using assms(2,3) primitivesD(2) [OF assms(1)] by (auto simp: wrapStatelessCredential_def k Let_def split: if_splits)
qed

lemma wrap_total:
  assumes "primitives_ok (backend p)" "length iv = 16" "\<forall>n. heap p n"
  shows "\<exists>credId. wrapStatelessCredential p secret iv rp u n (toHex d) alg = Some credId"
proof -
  obtain aesKey hmacKey where k: "getStatelessMasterKeys (backend p) secret = (aesKey, hmacKey)" by fastforce
  have "length (plaintext (backend p) rp u n (toHex d) alg) = pad16 (108 + length d)" by (simp add: length_plaintext)
  then obtain c where "mbed_aes_cbc (backend p) aesKey True iv (plaintext (backend p) rp u n (toHex d) alg) = Some c"
    using primitivesD(3) [OF assms(1), of "plaintext (backend p) rp u n (toHex d) alg" iv aesKey] assms(2) pad16(2) by auto
  then show ?thesis using assms(3) by (simp add: wrapStatelessCredential_def k Let_def)
qed

lemma secret_kept:
  assumes "getStatelessMasterSecret nvs fresh t = (secret, t')" "length fresh = 32"
  shows "getStatelessMasterSecret nvs fresh' t' = (secret, t')" "files t' = files t"
  using assms by (auto simp: getStatelessMasterSecret_def split: if_splits option.splits)

text \<open>The credential behind a stateless credential id: user id and name are cut to 32 bytes.\<close>

definition recovered :: "mc_req \<Rightarrow> bytes \<Rightarrow> cred" where
  "recovered r privHex = \<lparr>rpId = mcRpId r, userIdHex = toHex (take 32 (mcUserId r)),
     userName = (if cstr (take 32 (mcUserName r)) = [] then ascii ''Stateless User'' else cstr (take 32 (mcUserName r))),
     privateKeyHex = privHex, algId = mcAlg r, credProtect = 1, largeBlobKeyHex = [], credBlobHex = []\<rparr>"

lemma resolve_wrapped:
  assumes "primitives_ok (crypt e)" "\<forall>n. heap (plat e) n" "length iv = 16" "32 \<le> length d" "length d \<le> 64"
    "getStatelessMasterSecret (nvs_ok e) fresh (sys s) = (secret, sys s)"
    "wrapStatelessCredential (plat e) secret iv (mcRpId r) (mcUserId r) (mcUserName r) (toHex d) (mcAlg r) = Some credId"
  shows "resolve e fresh (mcRpId r) (toHex credId) s = Some (Some (recovered r (toHex d)), s)" "length credId \<le> 224"
proof -
  have l: "length credId = 48 + pad16 (108 + length d)" by (rule length_wrapped [OF assms(1,3,7)])
  have "pad16 (108 + length d) \<le> pad16 172" using assms(5) by (intro pad16_mono) simp
  then show l2: "length credId \<le> 224" using l by (simp add: pad16_def)
  have "140 \<le> pad16 (108 + length d)" using pad16(1) [of "108 + length d"] assms(4) by simp
  then have "\<not> length credId < 123" using l by simp
  then have "unwrap_stateless e fresh credId (mcRpId r) s =
      Some (Some \<lparr>outUserIdHex = toHex (take 32 (mcUserId r)), outUserName = cstr (take 32 (mcUserName r)),
        outPrivateKeyHex = toHex d, outAlgId = mcAlg r\<rparr>, s)"
    using unwrap_wrap [OF assms(1,2,3) _ assms(7), of "mcRpId r"] assms(5,6) by (simp add: unwrap_stateless_def)
  then show "resolve e fresh (mcRpId r) (toHex credId) s = Some (Some (recovered r (toHex d)), s)"
    using l2 by (simp add: resolve_def fromHex_toHex recovered_def)
qed

text \<open>
  C18: registering without a resident key. Nothing is stored: the reply carries a credential id from which,
  later, the device recovers the key pair's private key for that relying party; and that key signs
  every message for the public key that was reported and attested.
\<close>

theorem registration_of_stateless:
  assumes "sound_env V e" "holds (plat e) (ctap_files s) st" "parse_mc (defaultCryptoAlg s) data = Some r"
    "mcRpId r \<noteq> []" "mcUserId r \<noteq> []" "length (mcHash r) = 32"
    "\<forall>i \<in> set (mcExclude r). \<forall>c. map_of st (toHex i) = Some c \<longrightarrow> \<not> rpFieldMatchesPlainRpId (plat e) (rpId c) (mcRpId r)"
    "verify_user e (user_watch mk) s = Some (Verified d, s1)"
    and "\<not> resident r" "new_credential_key e (mcAlg r) = Some k" "attestation_cert s = None" "length (dynamicAaguid s) = 16"
    "length (fresh_iv mk) = 16" "length (fresh_blob_key mk) = 32" "length (new_secret mk) = 32"
  shows "\<exists>s' x credId. makeCredential e mk data s = Some s' \<and> replies s' = replies s @ [x] \<and>
    holds (plat e) (ctap_files s') st \<and> attests V e mk r credId k s x \<and>
    (\<forall>fresh. resolve e fresh (mcRpId r) (toHex credId) s' = Some (Some (recovered r (newPriv k)), s')) \<and>
    signs V (heap (plat e)) (signing e) (sint (algId (recovered r (newPriv k))))
      (privateKeyHex (recovered r (newPriv k)), newPub k)"
proof -
  note R = make_reaches_register [OF assms(1-8)]
  note E = sound_envD [OF assms(1)]
  note K = new_key_signs [OF E(5,6,3) assms(10)]
  obtain b where b: "newPriv k = toHex b" "length b \<le> 64" "32 \<le> length b"
    using stateless_key_length [OF E(5) assms(10,9)] by blast
  have g: "\<not> gen_task e (mcAlg r)" using assms(9) by (auto simp: gen_task_def resident_def)
  obtain secret t where t: "getStatelessMasterSecret (nvs_ok e) (new_secret mk) (sys s1) = (secret, t)" by fastforce
  note T = secret_kept [OF t assms(15)]
  obtain credId where w: "wrapStatelessCredential (plat e) secret (fresh_iv mk) (mcRpId r) (mcUserId r) (mcUserName r)
      (newPriv k) (mcAlg r) = Some credId"
    using wrap_total [OF E(4) assms(13) E(3)] b(1) by metis
  note W = resolve_wrapped [OF E(4,3) assms(13) b(3,2) _ w [unfolded b(1)]]
  define s3 where "s3 = s1\<lparr>sys := t\<rparr>"
  have s3: "eeprom_word s3 = eeprom_word s" "dynamicAaguid s3 = dynamicAaguid s" "attestation_cert s3 = None"
    "replies s3 = replies s"
    using R(3-7) assms(11) attestation_cert_same [of s3 s1] by (simp_all add: s3_def replies_def)
  have l: "length credId \<le> 224" using W(2) [of _ "s1\<lparr>sys := t\<rparr>"] T(1) by simp
  have reg: "makeCredential e mk data s = attest e mk r credId k s3"
    using R(1) assms(9,10) g t w l by (simp add: register_def new_credential_def Let_def MAX_CREDENTIAL_ID_LEN_def s3_def)
  obtain x where x: "attest e mk r credId k s3 = Some (s3\<lparr>sent := sent s3 @ replicate (busy mk) (0xBB, [2]) @ [x]\<rparr>)"
    "attests V e mk r credId k s3 x"
    using attest_ok [OF assms(1,10) s3(3) l, of mk] s3(2) assms(12,14) by auto
  define s4 where "s4 = s3\<lparr>sent := sent s3 @ replicate (busy mk) (0xBB, [2]) @ [x]\<rparr>"
  have "fst x = 0x90" using x(2) by (auto simp: attests_def reply_of_def Let_def)
  then have "replies s4 = replies s @ [x]" using s3(4) by (auto simp: s4_def replies_def split: prod.splits)
  moreover have "attests V e mk r credId k s x" using x(2) attests_same [OF s3(1,2)] by simp
  moreover have "holds (plat e) (ctap_files s4) st" using R(2) T(2) by (simp add: s4_def s3_def)
  moreover have "sys s4 = t" by (simp add: s4_def s3_def)
  then have "\<forall>fresh. resolve e fresh (mcRpId r) (toHex credId) s4 = Some (Some (recovered r (newPriv k)), s4)"
    using W(1) [of _ s4] T(1) b(1) by simp
  ultimately show ?thesis
    using reg x(1) K(2)
    by (intro exI [of _ s4] exI [of _ x] exI [of _ credId]) (simp add: s4_def recovered_def)
qed

text \<open>An example: one touch on a device without enrolled fingers.\<close>

definition mc_data :: "bool \<Rightarrow> bytes" where
  "mc_data rk = [if rk then 0xA4 else 0xA3, 1, 0x58, 0x20] @ a_hash @ [2, 0xA1, 0x62] @ ascii ''id'' @ [0x6B] @ ascii ''example.com'' @
     [3, 0xA1, 0x62] @ ascii ''id'' @ [0x42, 1, 2] @ (if rk then [7, 0xA1, 0x62] @ ascii ''rk'' @ [0xF5] else [])"

definition mc_example :: "bool \<Rightarrow> mc_req" where
  "mc_example rk = (mc_start (- 7))\<lparr>mcRK := rk, mcRpId := ascii ''example.com'', mcHash := a_hash, mcUserId := [1, 2]\<rparr>"

lemma mc_example: "parse_mc (- 7) (mc_data rk) = Some (mc_example rk)"
  by (cases rk; simp; code_simp)

definition mk_example :: making where
  "mk_example = \<lparr>user_watch = \<lparr>now = 100, turns = [toy_turn 100]\<rparr>, new_secret = replicate 32 5, busy = 1, gen_busy = 0,
     fresh_id = replicate 16 6, fresh_blob_key = replicate 32 7, record_pad = 8, fresh_iv = replicate 16 9\<rparr>"

definition mk_key :: new_key where
  "mk_key = \<lparr>newPriv = toHex (replicate 64 1), newPub = 4 # replicate 64 2, newExp = []\<rparr>"

lemma mk_key: "new_credential_key sign_env (- 7) = Some mk_key"
  using sign_env_ok(4)
  by (simp add: new_credential_key_def generateCredentialKeyP256_def sign_env_def toy_signers_def mk_key_def)

lemma mk_verified: "\<exists>s1. verify_user sign_env (user_watch mk_example) toy_ctap = Some (Verified 103, s1)"
proof -
  obtain l s0 where k: "keep_alive (toy_turn 100) 0 toy_ctap = (l, s0)" by fastforce
  then have "sys s0 = open_system" by (auto simp: keep_alive_def send_hid_def toy_ctap_def split: if_splits)
  moreover have "getBioTemplateCount (json_lib sign_env) open_system = 0"
    by (simp add: getBioTemplateCount_def getAllBioTemplateIds_def bio_doc_def open_system_def or_empty_def)
  ultimately have "accepted sign_env (sys s0) touch"
    using bootstrap_accepts_any_touch [of sign_env open_system touch]
    by (simp add: touch_def open_system_def getFailedUvAttempts_def)
  then obtain s1 where "fidoVerifyFingerprint sign_env touch s0 = (True, s1)"
    using verify_accepts [of sign_env touch s0] by (metis prod.collapse)
  then show ?thesis using k by (simp add: verify_user_def mk_example_def toy_turn_def)
qed

lemma sign_env_sound: "sound_env short_verifies sign_env"
proof -
  have "length sig \<le> 4627"
    if "generateAlgSignature (heap (plat sign_env)) (signing sign_env) alg priv m = Some (Some sig)" for alg priv m sig
    using that
    by (auto simp: generateAlgSignature_def generateFido2Signature_def signECDSA_P256_def derEncodeSignature_def mldsa_sign_def
        sign_env_def toy_signers_def Let_def bind_eq_Some_conv split: if_splits option.splits)
  then have "short_signatures sign_env" by (simp add: short_signatures_def)
  moreover have "key_lengths (signing sign_env)"
    by (simp add: key_lengths_def sign_env_def toy_signers_def)
  moreover have "primitives_sign short_verifies (signing sign_env)"
    unfolding primitives_sign_def by (intro conjI; simp add: sign_env_def toy_signers_def short_verifies_def derEncodeSignature_def)
  ultimately show ?thesis using sign_env_ok good_env_ok(3) by (simp add: sound_env_def)
qed

lemma toy_holds: "holds p (ctap_files toy_ctap) []"
  using holds_empty by (simp add: toy_ctap_def open_system_def)

lemma mc_example_simps:
  "mcAlg (mc_example rk) = - 7" "resident (mc_example rk) \<longleftrightarrow> rk" "mcUserName (mc_example rk) = []"
  "mcRpId (mc_example rk) \<noteq> []" "mcUserId (mc_example rk) \<noteq> []" "length (mcHash (mc_example rk)) = 32"
  "mcExclude (mc_example rk) = []" "defaultCryptoAlg toy_ctap = - 7" "attestation_cert toy_ctap = None"
  "length (dynamicAaguid toy_ctap) = 16" "length (fresh_id mk_example) = 16" "length (fresh_blob_key mk_example) = 32"
  "length (fresh_iv mk_example) = 16" "length (new_secret mk_example) = 32" "length (newPriv mk_key) = 128"
  "nonce_subsystem_initialized (nonces toy_ctap)" "length (mc_data rk) < 65536" "replies toy_ctap = []"
  by (simp_all add: mc_example_def mc_start_def resident_def a_hash_def ascii_def toy_ctap_def attestation_cert_def
      isBatchAttestationAvailable_def mk_example_def mk_key_def booted_def mc_data_def replies_def)

theorem registration_of_resident_witness:
  "\<exists>ok s' x. makeCredential sign_env mk_example (mc_data True) toy_ctap = Some s' \<and> replies s' = [x] \<and>
    holds (plat sign_env) (ctap_files s')
      (if ok then [(toHex (fresh_id mk_example), new_record mk_example (mc_example True) (newPriv mk_key))] else [])"
proof -
  obtain s1 where v: "verify_user sign_env (user_watch mk_example) toy_ctap = Some (Verified 103, s1)"
    using mk_verified by blast
  have k: "new_credential_key sign_env (mcAlg (mc_example True)) = Some mk_key" using mk_key mc_example_simps(1) by simp
  have p: "parse_mc (defaultCryptoAlg toy_ctap) (mc_data True) = Some (mc_example True)"
    using mc_example mc_example_simps(8) by simp
  have x: "\<forall>i \<in> set (mcExclude (mc_example True)). \<forall>c. map_of [] (toHex i) = Some c \<longrightarrow>
      \<not> rpFieldMatchesPlainRpId (plat sign_env) (rpId c) (mcRpId (mc_example True))" by simp
  have rk: "resident (mc_example True)" "length (newPriv mk_key) \<le> 9856" "10 \<notin> set (mcUserName (mc_example True))"
    by (simp_all add: mc_example_simps)
  from registration_of_resident [OF sign_env_sound toy_holds p mc_example_simps(4-6) x v mc_example_simps(17) rk(1) k rk(2,3)
      mc_example_simps(9-12,16)]
  obtain ok s' x where "makeCredential sign_env mk_example (mc_data True) toy_ctap = Some s'" "replies s' = replies toy_ctap @ [x]"
    "holds (plat sign_env) (ctap_files s') (others sign_env (mc_example True) [] @
      (if ok then [(toHex (fresh_id mk_example), new_record mk_example (mc_example True) (newPriv mk_key))] else []))"
    by auto
  then show ?thesis
    by (intro exI [of _ ok] exI [of _ s'] exI [of _ x]) (simp add: others_def mc_example_simps(18))
qed

theorem registration_of_stateless_witness:
  "\<exists>s' x credId. makeCredential sign_env mk_example (mc_data False) toy_ctap = Some s' \<and> replies s' = [x] \<and>
    holds (plat sign_env) (ctap_files s') [] \<and>
    resolve sign_env [] (ascii ''example.com'') (toHex credId) s' = Some (Some (recovered (mc_example False) (newPriv mk_key)), s')"
proof -
  obtain s1 where v: "verify_user sign_env (user_watch mk_example) toy_ctap = Some (Verified 103, s1)"
    using mk_verified by blast
  have k: "new_credential_key sign_env (mcAlg (mc_example False)) = Some mk_key" using mk_key mc_example_simps(1) by simp
  have p: "parse_mc (defaultCryptoAlg toy_ctap) (mc_data False) = Some (mc_example False)"
    using mc_example mc_example_simps(8) by simp
  have x: "\<forall>i \<in> set (mcExclude (mc_example False)). \<forall>c. map_of [] (toHex i) = Some c \<longrightarrow>
      \<not> rpFieldMatchesPlainRpId (plat sign_env) (rpId c) (mcRpId (mc_example False))" by simp
  have rk: "\<not> resident (mc_example False)" by (simp add: mc_example_simps)
  have "mcRpId (mc_example False) = ascii ''example.com''" by (simp add: mc_example_def)
  moreover from registration_of_stateless [OF sign_env_sound toy_holds p mc_example_simps(4-6) x v rk k
      mc_example_simps(9,10,13,12,14)]
  obtain s' x credId where "makeCredential sign_env mk_example (mc_data False) toy_ctap = Some s'"
    "replies s' = replies toy_ctap @ [x]" "holds (plat sign_env) (ctap_files s') []"
    "\<forall>fresh. resolve sign_env fresh (mcRpId (mc_example False)) (toHex credId) s' =
      Some (Some (recovered (mc_example False) (newPriv mk_key)), s')"
    by blast
  ultimately show ?thesis
    by (intro exI [of _ s'] exI [of _ x] exI [of _ credId]) (simp add: mc_example_simps(18))
qed

end
