(* ===== verification/U2f.thy ===== *)
theory U2f
  imports CtapMake
begin

text \<open>
  The U2F commands of \<open>FIDO2HIDDevice::processU2fCommand\<close> (\<open>src/FIDO2Manager.cpp\<close>): version,
  registration and authentication. A message is in a block of its own length, so that a read behind
  its end is undefined (\<open>None\<close>).
\<close>

section \<open>The commands\<close>

definition u2f_reply :: "bytes \<Rightarrow> ctap \<Rightarrow> ctap option" where
  "u2f_reply d s = Some (send_hid 0x83 d s)"

text \<open>\<open>n\<close> bytes of the message at \<open>i\<close>.\<close>

definition message_part :: "bytes \<Rightarrow> nat \<Rightarrow> nat \<Rightarrow> bytes option" where
  "message_part data i n = (if i + n \<le> length data then Some (take n (drop i data)) else None)"

text \<open>What a command observes: a reading of the sensor, the random key handle and the padding of the record.\<close>

record u2f_seen =
  u2f_reading :: reading
  key_handle :: bytes
  u2f_pad :: u32

definition u2f_record :: "bytes \<Rightarrow> bytes \<Rightarrow> cred" where
  "u2f_record appId privHex = \<lparr>rpId = toHex appId, userIdHex = [], userName = [], privateKeyHex = privHex, algId = - 7,
     credProtect = 1, largeBlobKeyHex = [], credBlobHex = []\<rparr>"

definition u2f_save :: "env \<Rightarrow> u2f_seen \<Rightarrow> bytes \<Rightarrow> bytes \<Rightarrow> ctap \<Rightarrow> (bool \<times> ctap) option" where
  "u2f_save e o1 appId privHex s = do {
     (saved, fs, n) \<leftarrow> savePasskeyRecord6 (plat e) (u2f_pad o1) (toHex (key_handle o1)) (u2f_record appId privHex)
       (ctap_files s, nonces s);
     Some (saved, store_files fs s\<lparr>nonces := n\<rparr>) }"

text \<open>
  The signature is made with the attestation key when there is a leaf certificate, and with the new key
  otherwise; \<open>pubKey\<close> has 65 bytes.
\<close>

definition u2f_attest :: "env \<Rightarrow> u2f_seen \<Rightarrow> bytes \<Rightarrow> bytes \<Rightarrow> bytes \<Rightarrow> bytes \<Rightarrow> ctap \<Rightarrow> ctap option" where
  "u2f_attest e o1 challenge appId privHex pubKey s = do {
     let kh = key_handle o1;
     let cert = attestation_cert s;
     let signingKeyHex = (case cert of Some _ \<Rightarrow> toHex (take 32 (attestationPrivKeyCache s)) | None \<Rightarrow> privHex);
     let leaf = (case cert of Some c \<Rightarrow> c | None \<Rightarrow> []);
     sig \<leftarrow> generateAlgSignature (heap (plat e)) (signing e) (- 7) signingKeyHex (0x00 # appId @ challenge @ kh @ pubKey);
     case sig of
       None \<Rightarrow> u2f_reply [0x6F, 0x00] s
     | Some sig \<Rightarrow>
         if \<not> heap (plat e) (1 + 65 + 1 + 16 + length leaf + length sig + 2) then u2f_reply [0x6F, 0x00] s
         else u2f_reply (0x05 # pubKey @ [16] @ kh @ leaf @ sig @ [0x90, 0x00]) s }"

definition u2f_register :: "env \<Rightarrow> u2f_seen \<Rightarrow> nat \<Rightarrow> bytes \<Rightarrow> ctap \<Rightarrow> ctap option" where
  "u2f_register e o1 reqLen body s =
     (if reqLen \<noteq> 64 then u2f_reply [0x67, 0x00] s
      else case fidoVerifyFingerprint e (u2f_reading o1) s of (uvOk, s) \<Rightarrow>
        if \<not> uvOk then u2f_reply [0x69, 0x85] s
        else case generateCredentialKeyP256 (signing e) of
          None \<Rightarrow> u2f_reply [0x6F, 0x00] s
        | Some (privHex, pubKey) \<Rightarrow>
            if \<not> isBatchAttestationAvailable s then u2f_reply [0x6F, 0x00] s
            else do {
              appId \<leftarrow> message_part body 32 32;
              (saved, s) \<leftarrow> u2f_save e o1 appId privHex s;
              if \<not> saved then u2f_reply [0x6F, 0x00] s
              else do {
                challenge \<leftarrow> message_part body 0 32;
                u2f_attest e o1 challenge appId privHex (take 65 pubKey) s } })"

text \<open>The reply of an authentication is built in a buffer of 128 bytes; the algorithm of the record is not looked at.\<close>

definition u2f_sign :: "env \<Rightarrow> bytes \<Rightarrow> bytes \<Rightarrow> cred \<Rightarrow> ctap \<Rightarrow> ctap option" where
  "u2f_sign e challenge appId c s = do {
     let ctr = loadPersistedSignCount s + 1;
     let s = savePersistedSignCount ctr s;
     sig \<leftarrow> generateAlgSignature (heap (plat e)) (signing e) (- 7) (privateKeyHex c)
       (appId @ [0x01] @ u32_bytes ctr @ challenge);
     case sig of
       None \<Rightarrow> u2f_reply [0x6F, 0x00] s
     | Some sig \<Rightarrow>
         if 7 + length sig > 128 then None
         else u2f_reply (0x01 # u32_bytes ctr @ sig @ [0x90, 0x00]) s }"

definition u2f_authenticate :: "env \<Rightarrow> u2f_seen \<Rightarrow> u8 \<Rightarrow> nat \<Rightarrow> bytes \<Rightarrow> ctap \<Rightarrow> ctap option" where
  "u2f_authenticate e o1 p1 reqLen body s =
     (if reqLen < 65 then u2f_reply [0x67, 0x00] s
      else do {
        khLen \<leftarrow> message_part body 64 1;
        kh \<leftarrow> message_part body 65 (unat (khLen ! 0));
        appId \<leftarrow> message_part body 32 32;
        r \<leftarrow> getPasskeyRecord (plat e) (ctap_files s) (toHex kh);
        case r of
          None \<Rightarrow> u2f_reply [0x6A, 0x80] s
        | Some c \<Rightarrow>
            if \<not> rpFieldMatchesHash (plat e) (rpId c) (toHex appId) then u2f_reply [0x6A, 0x80] s
            else if p1 = 0x07 then u2f_reply [0x69, 0x85] s
            else case fidoVerifyFingerprint e (u2f_reading o1) s of (ok, s) \<Rightarrow>
              if \<not> ok then u2f_reply [0x69, 0x85] s
              else do { challenge \<leftarrow> message_part body 0 32; u2f_sign e challenge appId c s } })"

definition processU2fCommand :: "env \<Rightarrow> u2f_seen \<Rightarrow> bytes \<Rightarrow> ctap \<Rightarrow> ctap option" where
  "processU2fCommand e o1 data s =
     (if length data < 4 then u2f_reply [0x67, 0x00] s
      else
        let ins = data ! 1; p1 = data ! 2 in
        if ins = 0x03 then u2f_reply (ascii ''U2F_V2'' @ [0x90, 0x00]) s
        else if length data < 7 then u2f_reply [0x67, 0x00] s
        else
          let reqLen = unat (data ! 5) * 256 + unat (data ! 6); body = drop 7 data in
          if ins = 0x01 then u2f_register e o1 reqLen body s
          else if ins = 0x02 then u2f_authenticate e o1 p1 reqLen body s
          else u2f_reply [0x6D, 0x00] s)"

section \<open>Messages\<close>

definition apdu :: "u8 \<Rightarrow> u8 \<Rightarrow> bytes \<Rightarrow> bytes" where
  "apdu ins p1 body = [0, ins, p1, 0, 0, of_nat (length body div 256), of_nat (length body mod 256)] @ body"

lemma apdu_processed:
  assumes "length body < 65536"
  shows "processU2fCommand e o1 (apdu 1 p1 body) s = u2f_register e o1 (length body) body s"
    "processU2fCommand e o1 (apdu 2 p1 body) s = u2f_authenticate e o1 p1 (length body) body s"
proof -
  have "length body div 256 < 256" using assms by simp
  then have "unat (of_nat (length body div 256) :: u8) * 256 + unat (of_nat (length body mod 256) :: u8) = length body"
    by (simp add: unat_of_nat)
  then show "processU2fCommand e o1 (apdu 1 p1 body) s = u2f_register e o1 (length body) body s"
    "processU2fCommand e o1 (apdu 2 p1 body) s = u2f_authenticate e o1 p1 (length body) body s"
    by (simp_all add: processU2fCommand_def apdu_def Let_def)
qed

lemma message_part_simps [simp]:
  "length a = n \<Longrightarrow> message_part (a @ b) 0 n = Some a"
  "message_part a 0 (length a) = Some a"
  by (simp_all add: message_part_def)

lemma message_part_skip [simp]:
  "length a \<le> i \<Longrightarrow> message_part (a @ b) i n = message_part b (i - length a) n"
  by (simp add: message_part_def) arith

section \<open>The user\<close>

lemma verify_keeps:
  "nonces (snd (fidoVerifyFingerprint e f s)) = nonces s" "eeprom_word (snd (fidoVerifyFingerprint e f s)) = eeprom_word s"
  "attestationProvisioned (snd (fidoVerifyFingerprint e f s)) = attestationProvisioned s"
  "attestationPrivKeyCache (snd (fidoVerifyFingerprint e f s)) = attestationPrivKeyCache s"
  "attestation_cert (snd (fidoVerifyFingerprint e f s)) = attestation_cert s"
  "ctap_files (snd (fidoVerifyFingerprint e f s)) ''/passkeys.bin'' = ctap_files s ''/passkeys.bin''"
  "sent (snd (fidoVerifyFingerprint e f s)) = sent s"
proof -
  note D = uv_frameD [OF verify_frame [of s e f]]
  show "nonces (snd (fidoVerifyFingerprint e f s)) = nonces s" "eeprom_word (snd (fidoVerifyFingerprint e f s)) = eeprom_word s"
    "attestationProvisioned (snd (fidoVerifyFingerprint e f s)) = attestationProvisioned s"
    "attestationPrivKeyCache (snd (fidoVerifyFingerprint e f s)) = attestationPrivKeyCache s"
    by (fact D)+
  show "attestation_cert (snd (fidoVerifyFingerprint e f s)) = attestation_cert s" using D(6,7) by (rule attestation_cert_same)
  show "ctap_files (snd (fidoVerifyFingerprint e f s)) ''/passkeys.bin'' = ctap_files s ''/passkeys.bin''"
    using same_files [OF D(1)] by simp
  show "sent (snd (fidoVerifyFingerprint e f s)) = sent s"
    by (simp add: fidoVerifyFingerprint_def Let_def uv_reset_def uv_increment_def)
qed

text \<open>A refusal changes nothing but the counter of failed attempts.\<close>

definition status_words :: "bytes set" where
  "status_words = {[0x67, 0x00], [0x69, 0x85], [0x6A, 0x80], [0x6D, 0x00], [0x6F, 0x00]}"

definition u2f_refused :: "ctap \<Rightarrow> ctap \<Rightarrow> bool" where
  "u2f_refused s s' \<longleftrightarrow> eeprom_word s' = eeprom_word s \<and> nonces s' = nonces s \<and>
     ctap_files s' ''/passkeys.bin'' = ctap_files s ''/passkeys.bin'' \<and>
     (\<exists>d. sent s' = sent s @ [(0x83, d)] \<and> (d \<in> status_words \<or> d = ascii ''U2F_V2'' @ [0x90, 0x00]))"

lemma u2f_reply_refused:
  assumes "u2f_reply d s1 = Some s'" "d \<in> status_words \<or> d = ascii ''U2F_V2'' @ [0x90, 0x00]"
    "s1 = s \<or> s1 = snd (fidoVerifyFingerprint e f s)"
  shows "u2f_refused s s'"
proof -
  have "s' = send_hid 0x83 d s1" using assms(1) by (simp add: u2f_reply_def)
  then show ?thesis using assms(2,3) by (auto simp: u2f_refused_def send_hid_def verify_keeps)
qed

lemma not_accepted:
  assumes "\<not> accepted e (sys s) f"
  obtains "fidoVerifyFingerprint e f s = (False, snd (fidoVerifyFingerprint e f s))"
  using assms verify_accepts [of e f s] by (cases "fidoVerifyFingerprint e f s") auto

lemma register_refused:
  assumes "u2f_register e o1 n body s = Some s'" "\<not> accepted e (sys s) (u2f_reading o1)"
  shows "u2f_refused s s'"
proof -
  obtain s0 where v: "fidoVerifyFingerprint e (u2f_reading o1) s = (False, s0)" "s0 = snd (fidoVerifyFingerprint e (u2f_reading o1) s)"
    using not_accepted [OF assms(2)] by metis
  have "u2f_reply [0x67, 0] s = Some s' \<or> u2f_reply [0x69, 0x85] s0 = Some s'"
    using assms(1) v(1) by (auto simp: u2f_register_def split: if_splits)
  then show ?thesis using u2f_reply_refused [where s = s and s' = s'] v(2) by (auto simp: status_words_def)
qed

lemma authenticate_refused:
  assumes "u2f_authenticate e o1 p1 n body s = Some s'" "\<not> accepted e (sys s) (u2f_reading o1)"
  shows "u2f_refused s s'"
proof -
  obtain s0 where v: "fidoVerifyFingerprint e (u2f_reading o1) s = (False, s0)" "s0 = snd (fidoVerifyFingerprint e (u2f_reading o1) s)"
    using not_accepted [OF assms(2)] by metis
  have "u2f_reply [0x67, 0] s = Some s' \<or> u2f_reply [0x6A, 0x80] s = Some s' \<or> u2f_reply [0x69, 0x85] s = Some s' \<or>
      u2f_reply [0x69, 0x85] s0 = Some s'"
    using assms(1) v(1) unfolding u2f_authenticate_def
    by (auto simp: bind_eq_Some_conv split: if_split_asm option.split_asm)
  then show ?thesis using u2f_reply_refused [where s = s and s' = s'] v(2) by (auto simp: status_words_def)
qed

section \<open>Registration and authentication\<close>

text \<open>A DER signature of P-256 has at most 72 bytes.\<close>

definition short_der :: "env \<Rightarrow> bool" where
  "short_der e \<longleftrightarrow> (\<forall>priv m sig. generateAlgSignature (heap (plat e)) (signing e) (- 7) priv m = Some (Some sig) \<longrightarrow> length sig \<le> 72)"

lemma u2f_record_ok:
  assumes "length kh = 16" "length appId = 32" "length d \<le> 64"
  shows "cred_ok (toHex kh) (u2f_record appId (toHex d))"
proof -
  have "length (show_int 1) = 1 \<and> 0 \<notin> set (show_int 1)" by code_simp
  then show ?thesis
    using assms toHex_plain
    by (auto simp: cred_ok_def fields_ok_def plain_string_def u2f_record_def rawPayload_def)
qed

lemma p256_key_length:
  assumes "key_lengths k" "generateCredentialKeyP256 k = Some (priv, pub)"
  shows "\<exists>d. priv = toHex d \<and> length d \<le> 64"
  using assms(2) key_lengthsD(1,5) [OF assms(1)]
  by (fastforce simp: generateCredentialKeyP256_def generateKeypairP256_def Let_def bind_eq_Some_conv
      split: if_splits option.splits)

lemma u2f_save_ok:
  assumes "sound (plat e)" "holds (plat e) (ctap_files s) st" "cred_ok (toHex (key_handle o1)) (u2f_record appId priv)"
    "nonce_subsystem_initialized (nonces s)"
  obtains saved fs n where "u2f_save e o1 appId priv s = Some (saved, store_files fs s\<lparr>nonces := n\<rparr>)"
    "holds (plat e) fs (st @ (if saved then [(toHex (key_handle o1), u2f_record appId priv)] else []))"
proof -
  have c: "u2f_record appId priv\<lparr>credProtect := 1, largeBlobKeyHex := [], credBlobHex := []\<rparr> = u2f_record appId priv"
    by (simp add: u2f_record_def)
  obtain r fs n where "savePasskeyRecord (plat e) (u2f_pad o1) (toHex (key_handle o1)) (u2f_record appId priv)
      (ctap_files s, nonces s) = Some (r, fs, n)"
    "holds (plat e) fs (if r then st @ [(toHex (key_handle o1), u2f_record appId priv)] else st)"
    using save_holds [OF assms(1-4)] by metis
  then show thesis using that [of r n fs] by (simp add: u2f_save_def savePasskeyRecord6_def c split: if_splits)
qed

definition u2f_attester :: "bytes \<Rightarrow> bytes \<Rightarrow> ctap \<Rightarrow> bytes" where
  "u2f_attester attPub pub s = (case attestation_cert s of Some _ \<Rightarrow> attPub | None \<Rightarrow> pub)"

definition u2f_registered :: "(int \<Rightarrow> bytes \<Rightarrow> bytes \<Rightarrow> bytes \<Rightarrow> bool) \<Rightarrow> bytes \<Rightarrow> bytes \<Rightarrow> bytes \<Rightarrow> bytes \<Rightarrow> bytes \<Rightarrow> ctap \<Rightarrow>
    u8 \<times> bytes \<Rightarrow> bool" where
  "u2f_registered V attPub pub challenge appId kh s x \<longleftrightarrow>
     (\<exists>sig. x = (0x83, 0x05 # pub @ [16] @ kh @ (case attestation_cert s of Some c \<Rightarrow> c | None \<Rightarrow> []) @ sig @ [0x90, 0x00]) \<and>
       V (- 7) (u2f_attester attPub pub s) (0x00 # appId @ challenge @ kh @ pub) sig)"

lemma u2f_attest_ok:
  assumes "\<forall>n. heap (plat e) n" "signs V (heap (plat e)) (signing e) (- 7) (priv, pub)"
    "signs V (heap (plat e)) (signing e) (- 7) (toHex (take 32 (attestationPrivKeyCache s)), attPub)"
  shows "\<exists>x. u2f_attest e o1 challenge appId priv pub s = Some (s\<lparr>sent := sent s @ [x]\<rparr>) \<and>
    u2f_registered V attPub pub challenge appId (key_handle o1) s x"
proof -
  define m where "m = 0x00 # appId @ challenge @ key_handle o1 @ pub"
  define key where "key = (case attestation_cert s of Some _ \<Rightarrow> toHex (take 32 (attestationPrivKeyCache s)) | None \<Rightarrow> priv)"
  have "signs V (heap (plat e)) (signing e) (- 7) (key, u2f_attester attPub pub s)"
    using assms(2,3) by (simp add: key_def u2f_attester_def split: option.split)
  then obtain sig where "generateAlgSignature (heap (plat e)) (signing e) (- 7) key m = Some (Some sig)"
    "V (- 7) (u2f_attester attPub pub s) m sig"
    unfolding signs_def fst_conv snd_conv by blast
  then show ?thesis
    using assms(1) by (auto simp: u2f_attest_def u2f_reply_def send_hid_def u2f_registered_def simp flip: m_def key_def)
qed

lemma holds_verified:
  assumes "holds (plat e) (ctap_files s) st"
  shows "holds (plat e) (ctap_files (snd (fidoVerifyFingerprint e f s))) st"
  using assms holds_same [of "ctap_files (snd (fidoVerifyFingerprint e f s))" "ctap_files s"] verify_keeps(6) by simp

lemma u2f_register_ok:
  assumes "sound_env V e" "holds (plat e) (ctap_files s) st" "nonce_subsystem_initialized (nonces s)"
    "accepted e (sys s) (u2f_reading o1)" "generateCredentialKeyP256 (signing e) = Some (priv, pub)" "length pub = 65"
    "attestationProvisioned s" "length challenge = 32" "length appId = 32" "length (key_handle o1) = 16"
    "signs V (heap (plat e)) (signing e) (- 7) (toHex (take 32 (attestationPrivKeyCache s)), attPub)"
  shows "\<exists>saved s' x. processU2fCommand e o1 (apdu 1 p1 (challenge @ appId)) s = Some s' \<and> sent s' = sent s @ [x] \<and>
    holds (plat e) (ctap_files s') (st @ (if saved then [(toHex (key_handle o1), u2f_record appId priv)] else [])) \<and>
    (if saved then u2f_registered V attPub pub challenge appId (key_handle o1) s x else x = (0x83, [0x6F, 0x00])) \<and>
    eeprom_word s' = eeprom_word s"
proof -
  note E = sound_envD [OF assms(1)]
  define s1 where "s1 = snd (fidoVerifyFingerprint e (u2f_reading o1) s)"
  have v: "fidoVerifyFingerprint e (u2f_reading o1) s = (True, s1)"
    using assms(4) verify_accepts [of e "u2f_reading o1" s] by (metis s1_def prod.collapse)
  note k = verify_keeps [of e "u2f_reading o1" s, folded s1_def]
  obtain d where d: "priv = toHex d" "length d \<le> 64" using p256_key_length [OF E(5) assms(5)] by blast
  obtain saved fs n where sv: "u2f_save e o1 appId priv s1 = Some (saved, store_files fs s1\<lparr>nonces := n\<rparr>)"
    "holds (plat e) fs (st @ (if saved then [(toHex (key_handle o1), u2f_record appId priv)] else []))"
    using u2f_save_ok [OF E(1), of s1 st o1 appId priv] holds_verified [OF assms(2), of "u2f_reading o1", folded s1_def]
      u2f_record_ok [OF assms(10,9) d(2)] assms(3) d(1) k(1) by metis
  define s2 where "s2 = store_files fs s1\<lparr>nonces := n\<rparr>"
  have s2: "sent s2 = sent s" "ctap_files s2 = fs" "eeprom_word s2 = eeprom_word s" "attestation_cert s2 = attestation_cert s"
    "attestationPrivKeyCache s2 = attestationPrivKeyCache s"
    using k attestation_cert_same [of s2 s1] by (simp_all add: s2_def store_files_def)
  have r: "processU2fCommand e o1 (apdu 1 p1 (challenge @ appId)) s =
      (if saved then u2f_attest e o1 challenge appId priv pub s2 else u2f_reply [0x6F, 0x00] s2)"
    using assms(5-9) v sv(1) k(3) apdu_processed(1) [of "challenge @ appId"]
    by (simp add: u2f_register_def isBatchAttestationAvailable_def message_part_def flip: s2_def)
  show ?thesis
  proof (cases saved)
    case True
    obtain x where x: "u2f_attest e o1 challenge appId priv pub s2 = Some (s2\<lparr>sent := sent s2 @ [x]\<rparr>)"
      "u2f_registered V attPub pub challenge appId (key_handle o1) s2 x"
      using u2f_attest_ok [OF E(3) p256_signs [OF E(5,6,3) assms(5)], of s2 attPub o1 challenge appId] assms(11) s2(5) by auto
    then have "u2f_registered V attPub pub challenge appId (key_handle o1) s x"
      using s2(4) by (simp add: u2f_registered_def u2f_attester_def)
    then show ?thesis using True r x(1) s2(1-3) sv(2)
      by (intro exI [of _ True] exI [of _ "s2\<lparr>sent := sent s2 @ [x]\<rparr>"] exI [of _ x]) simp
  next
    case False
    then show ?thesis using r s2 sv(2)
      by (intro exI [of _ False] exI [of _ "send_hid 0x83 [0x6F, 0x00] s2"] exI [of _ "(0x83, [0x6F, 0x00])"])
        (simp add: u2f_reply_def send_hid_def)
  qed
qed

definition u2f_asserted :: "(int \<Rightarrow> bytes \<Rightarrow> bytes \<Rightarrow> bytes \<Rightarrow> bool) \<Rightarrow> bytes \<Rightarrow> bytes \<Rightarrow> bytes \<Rightarrow> u32 \<Rightarrow> u8 \<times> bytes \<Rightarrow> bool" where
  "u2f_asserted V pub challenge appId ctr x \<longleftrightarrow>
     (\<exists>sig. x = (0x83, 0x01 # u32_bytes ctr @ sig @ [0x90, 0x00]) \<and> V (- 7) pub (appId @ [0x01] @ u32_bytes ctr @ challenge) sig)"

lemma u2f_authenticate_found:
  assumes "roomy (plat e)" "holds (plat e) (ctap_files s) st" "map_of st (toHex kh) = Some c" "length kh < 256"
    "length challenge = 32" "length appId = 32"
  shows "processU2fCommand e o1 (apdu 2 p1 (challenge @ appId @ [of_nat (length kh)] @ kh)) s =
    (if \<not> rpFieldMatchesHash (plat e) (rpId c) (toHex appId) then u2f_reply [0x6A, 0x80] s
     else if p1 = 0x07 then u2f_reply [0x69, 0x85] s
     else case fidoVerifyFingerprint e (u2f_reading o1) s of (ok, s) \<Rightarrow>
       if \<not> ok then u2f_reply [0x69, 0x85] s else u2f_sign e challenge appId c s)"
proof -
  have n: "unat (of_nat (length kh) :: u8) = length kh" using assms(4) by (simp add: unat_of_nat)
  have "getPasskeyRecord (plat e) (ctap_files s) (toHex kh) = Some (Some c)"
    using getPasskey_holds [OF assms(1,2)] assms(3) by (simp add: truncate_id)
  moreover have "message_part (challenge @ appId @ [of_nat (length kh)] @ kh) 64 1 = Some [of_nat (length kh)]"
    "message_part (challenge @ appId @ [of_nat (length kh)] @ kh) 65 (length kh) = Some kh"
    "message_part (challenge @ appId @ [of_nat (length kh)] @ kh) 32 32 = Some appId"
    "message_part (challenge @ appId @ [of_nat (length kh)] @ kh) 0 32 = Some challenge"
    using assms(5,6) by (simp_all add: message_part_def)
  ultimately show ?thesis
    using assms(4-6) apdu_processed(2) [of "challenge @ appId @ [of_nat (length kh)] @ kh" e o1 p1 s] n
    by (simp add: u2f_authenticate_def split: prod.split)
qed

lemma u2f_sign_ok:
  assumes "short_der e" "signs V (heap (plat e)) (signing e) (- 7) (privateKeyHex c, pub)"
  shows "\<exists>x. u2f_sign e challenge appId c s = Some (s\<lparr>eeprom_word := loadPersistedSignCount s + 1, sent := sent s @ [x]\<rparr>) \<and>
    u2f_asserted V pub challenge appId (loadPersistedSignCount s + 1) x"
proof -
  define ctr where "ctr = loadPersistedSignCount s + 1"
  define m where "m = appId @ [0x01] @ u32_bytes ctr @ challenge"
  obtain sig where sig: "generateAlgSignature (heap (plat e)) (signing e) (- 7) (privateKeyHex c) m = Some (Some sig)" "V (- 7) pub m sig"
    using assms(2) unfolding signs_def fst_conv snd_conv by blast
  then have "length sig \<le> 72" using assms(1) unfolding short_der_def by blast
  then have "u2f_sign e challenge appId c s =
      u2f_reply (0x01 # u32_bytes ctr @ sig @ [0x90, 0x00]) (savePersistedSignCount ctr s)"
    using sig(1) by (simp add: u2f_sign_def Let_def m_def flip: ctr_def)
  then show ?thesis using sig(2)
    by (auto simp: u2f_reply_def send_hid_def savePersistedSignCount_def u2f_asserted_def m_def simp flip: ctr_def)
qed

text \<open>A stored key handle authenticates the application it was made for.\<close>

lemma u2f_key_handle_works:
  assumes "sound_env V e" "short_der e" "generateCredentialKeyP256 (signing e) = Some (priv, pub)"
    "holds (plat e) (ctap_files t) st" "map_of st (toHex kh) = Some (u2f_record appId priv)" "length kh = 16"
    "length challenge = 32" "length appId2 = 32" "p2 \<noteq> 0x07" "accepted e (sys t) (u2f_reading o2)"
  shows "\<exists>t' y. processU2fCommand e o2 (apdu 2 p2 (challenge @ appId2 @ [16] @ kh)) t = Some t' \<and> sent t' = sent t @ [y] \<and>
    (if rpFieldMatchesHash (plat e) (toHex appId) (toHex appId2)
     then u2f_asserted V pub challenge appId2 (loadPersistedSignCount t + 1) y \<and> eeprom_word t' = loadPersistedSignCount t + 1
     else y = (0x83, [0x6A, 0x80]))"
proof -
  note E = sound_envD [OF assms(1)]
  define t1 where "t1 = snd (fidoVerifyFingerprint e (u2f_reading o2) t)"
  have v: "fidoVerifyFingerprint e (u2f_reading o2) t = (True, t1)"
    using assms(10) verify_accepts [of e "u2f_reading o2" t] by (metis t1_def prod.collapse)
  note k = verify_keeps [of e "u2f_reading o2" t, folded t1_def]
  have n: "loadPersistedSignCount t1 = loadPersistedSignCount t" using k(2) by (simp add: loadPersistedSignCount_def)
  have l: "length kh < 256" using assms(6) by simp
  note f = u2f_authenticate_found [OF E(2) assms(4,5) l assms(7,8), of o2 p2]
  have rp: "rpId (u2f_record appId priv) = toHex appId" by (simp add: u2f_record_def)
  show ?thesis
  proof (cases "rpFieldMatchesHash (plat e) (toHex appId) (toHex appId2)")
    case True
    obtain y where "u2f_sign e challenge appId2 (u2f_record appId priv) t1 =
        Some (t1\<lparr>eeprom_word := loadPersistedSignCount t1 + 1, sent := sent t1 @ [y]\<rparr>)"
      "u2f_asserted V pub challenge appId2 (loadPersistedSignCount t1 + 1) y"
      using u2f_sign_ok [OF assms(2), of V "u2f_record appId priv" pub challenge appId2 t1] p256_signs [OF E(5,6,3) assms(3)]
      by (auto simp: u2f_record_def)
    then show ?thesis
      using f assms(6,9) v n k(7) True
      by (intro exI [of _ "t1\<lparr>eeprom_word := loadPersistedSignCount t1 + 1, sent := sent t1 @ [y]\<rparr>"] exI [of _ y])
        (simp add: rp)
  next
    case False
    then show ?thesis
      using f assms(6)
      by (intro exI [of _ "send_hid 0x83 [0x6A, 0x80] t"] exI [of _ "(0x83, [0x6A, 0x80])"])
        (simp add: rp u2f_reply_def send_hid_def)
  qed
qed

section \<open>Properties\<close>


text \<open>
  C7: U2F without the user. Unless the sensor accepts a finger, every message that is answered is answered
  with a status word or the version: no credential is made, none signs, and the counter stays.
\<close>

theorem u2f_needs_user:
  assumes "processU2fCommand e o1 data s = Some s'" "\<not> accepted e (sys s) (u2f_reading o1)"
  shows "u2f_refused s s'"
proof -
  have simple: "u2f_refused s s'" if "u2f_reply d s = Some s'" "d \<in> status_words \<or> d = ascii ''U2F_V2'' @ [0x90, 0x00]" for d
    using u2f_reply_refused [OF that, of s] by blast
  have w: "u2f_reply [0x67, 0] s = Some s' \<Longrightarrow> u2f_refused s s'" "u2f_reply [0x6D, 0] s = Some s' \<Longrightarrow> u2f_refused s s'"
    "u2f_reply (ascii ''U2F_V2'' @ [0x90, 0]) s = Some s' \<Longrightarrow> u2f_refused s s'"
    using simple by (auto simp: status_words_def)
  show ?thesis
    using assms(1) unfolding processU2fCommand_def Let_def
    by (auto split: if_split_asm intro: w register_refused [OF _ assms(2)] authenticate_refused [OF _ assms(2)])
qed

text \<open>
  The length of the body is taken from the message: a frame shorter than it claims is read behind its end,
  after the user was asked.
\<close>

lemma truncated_registration:
  assumes "accepted e (sys s) (u2f_reading o1)" "attestationProvisioned s" "generateCredentialKeyP256 (signing e) \<noteq> None"
    "length body < 64"
  shows "processU2fCommand e o1 ([0, 1, p1, 0, 0, 0, 64] @ body) s = None"
proof -
  obtain s1 where v: "fidoVerifyFingerprint e (u2f_reading o1) s = (True, s1)" "s1 = snd (fidoVerifyFingerprint e (u2f_reading o1) s)"
    using assms(1) verify_accepts [of e "u2f_reading o1" s] by (metis prod.collapse)
  then have "isBatchAttestationAvailable s1" using assms(2) verify_keeps(3) by (simp add: isBatchAttestationAvailable_def)
  then show ?thesis
    using assms(3,4) v(1) by (auto simp: processU2fCommand_def Let_def u2f_register_def message_part_def)
qed

text \<open>An example: a device whose signer takes every key.\<close>

definition u2f_env :: env where
  "u2f_env = sign_env\<lparr>signing := (signing sign_env)\<lparr>mbedtls_ecdsa_sign := (\<lambda>b h. Some (1, 1))\<rparr>\<rparr>"

definition u2f_ctap :: ctap where
  "u2f_ctap = toy_ctap\<lparr>attestationProvisioned := True, attestationPrivKeyCache := replicate 32 3\<rparr>"

definition u2f_touch :: u2f_seen where
  "u2f_touch = \<lparr>u2f_reading = touch, key_handle = replicate 16 6, u2f_pad = 8\<rparr>"

lemma u2f_signatures:
  "generateAlgSignature (heap (plat u2f_env)) (signing u2f_env) alg priv m = Some (Some sig) \<Longrightarrow>
    length sig \<le> 4627 \<and> (alg = - 7 \<longrightarrow> length sig \<le> 72)"
  by (auto simp: generateAlgSignature_def generateFido2Signature_def signECDSA_P256_def derEncodeSignature_def mldsa_sign_def
      u2f_env_def sign_env_def toy_signers_def Let_def bind_eq_Some_conv split: if_splits option.splits)

lemma u2f_env_sound: "sound_env short_verifies u2f_env" "short_der u2f_env"
proof -
  have "key_lengths (signing u2f_env)" by (simp add: key_lengths_def u2f_env_def sign_env_def toy_signers_def)
  moreover have "primitives_sign short_verifies (signing u2f_env)"
    unfolding primitives_sign_def
    by (intro conjI; simp add: u2f_env_def sign_env_def toy_signers_def short_verifies_def derEncodeSignature_def)
  moreover have "short_signatures u2f_env" using u2f_signatures by (auto simp: short_signatures_def)
  ultimately show "sound_env short_verifies u2f_env"
    using sign_env_sound by (simp add: sound_env_def u2f_env_def)
  show "short_der u2f_env" using u2f_signatures by (auto simp: short_der_def)
qed

lemma u2f_attestation_signs:
  "signs short_verifies (heap (plat u2f_env)) (signing u2f_env) (- 7) (toHex (take 32 (attestationPrivKeyCache u2f_ctap)), pub)"
  using sign_env_ok(4)
  by (simp add: signs_def u2f_env_def u2f_ctap_def generateAlgSignature_def generateFido2Signature_def signECDSA_P256_def
      derEncodeSignature_def sign_env_def toy_signers_def short_verifies_def blob_lengths)

lemma u2f_accepted: "accepted u2f_env (sys u2f_ctap) touch"
proof -
  have "getBioTemplateCount (json_lib u2f_env) open_system = 0"
    by (simp add: getBioTemplateCount_def getAllBioTemplateIds_def bio_doc_def open_system_def or_empty_def)
  then show ?thesis
    using bootstrap_accepts_any_touch [of u2f_env open_system touch]
    by (simp add: touch_def open_system_def getFailedUvAttempts_def u2f_ctap_def toy_ctap_def)
qed


theorem u2f_needs_user_witness:
  "u2f_refused toy_ctap (the (processU2fCommand toy_env (u2f_touch\<lparr>u2f_reading := touch\<lparr>getImage := (\<lambda>n. FINGERPRINT_NOFINGER)\<rparr>\<rparr>)
     (apdu 1 3 (replicate 64 2)) toy_ctap))"
proof -
  define o1 where "o1 = u2f_touch\<lparr>u2f_reading := touch\<lparr>getImage := (\<lambda>n. FINGERPRINT_NOFINGER)\<rparr>\<rparr>"
  have na: "\<not> accepted toy_env (sys toy_ctap) (u2f_reading o1)"
    by (simp add: accepted_def o1_def numeral_3_eq_3)
  obtain s0 where v: "fidoVerifyFingerprint toy_env (u2f_reading o1) toy_ctap = (False, s0)" using not_accepted [OF na] by metis
  have "processU2fCommand toy_env o1 (apdu 1 3 (replicate 64 2)) toy_ctap = Some (send_hid 0x83 [0x69, 0x85] s0)"
    using v apdu_processed(1) [of "replicate 64 2" toy_env o1 3 toy_ctap] by (simp add: u2f_register_def u2f_reply_def)
  from u2f_needs_user [OF this na] this show ?thesis by (simp add: o1_def)
qed

end
