(* ===== verification/CtapDispatch.thy ===== *)
theory CtapDispatch
  imports CtapPin CtapManage CtapBio CtapMake U2f
begin

text \<open>
  \<open>FIDO2HIDDevice::processCborCommand\<close> as a whole: authenticatorGetInfo, authenticatorSelection, the
  dispatch of the other commands, and what \<open>begin\<close> sets up (\<open>src/FIDO2Manager.cpp\<close>). A run of the
  device is a sequence of CTAP2 and U2F messages.
\<close>

section \<open>Information\<close>

definition named :: "string \<Rightarrow> bool \<Rightarrow> write_call list" where
  "named k b = [text_lit k, WBool b]"

definition info_options :: "env \<Rightarrow> ctap \<Rightarrow> (string \<times> bool) list" where
  "info_options e s =
     (let hasBioEnrollments = getBioTemplateCount (json_lib e) (sys s) > 0 in
      [(''rk'', True), (''up'', True), (''uv'', hasBioEnrollments), (''alwaysUv'', True), (''credMgmt'', True),
       (''bioEnroll'', hasBioEnrollments), (''clientPin'', isFidoPinSet (sys s)), (''largeBlobs'', True),
       (''pinUvAuthToken'', True), (''credentialMgmtPreview'', True), (''userVerificationMgmtPreview'', hasBioEnrollments)])"

definition info_algorithm :: "u64 \<Rightarrow> write_call list" where
  "info_algorithm alg = [WMap 2, text_lit ''alg'', WNInt alg, text_lit ''type'', text_lit ''public-key'']"

definition info_items :: "env \<Rightarrow> ctap \<Rightarrow> write_call list" where
  "info_items e s =
     [WMap 12, WUInt 1, WArray 3, text_lit ''FIDO_2_0'', text_lit ''FIDO_2_1_PRE'', text_lit ''FIDO_2_1'',
      WUInt 2, WArray 4, text_lit ''hmac-secret'', text_lit ''credProtect'', text_lit ''largeBlobKey'', text_lit ''credBlob'',
      WUInt 3, WBytes (dynamicAaguid s), WUInt 4, WMap 11] @
     concat (map (\<lambda>(k, b). named k b) (info_options e s)) @
     [WUInt 5, WUInt 8192, WUInt 6, WArray 1, WUInt 1, WUInt 7, WUInt 8, WUInt 8, WUInt (of_nat MAX_CREDENTIAL_ID_LEN),
      WUInt 9, WArray 1, text_lit ''usb'', WUInt 10, WArray 6] @
     concat (map info_algorithm [- 7, - 8, - 257, - 48, - 49, - 50]) @
     [WUInt 0x0B, WUInt (of_nat MAX_LARGE_BLOB_ARRAY), WUInt 0x0F, WUInt (of_nat MAX_CRED_BLOB_LEN)]"

definition getInfo :: "env \<Rightarrow> ctap \<Rightarrow> ctap option" where
  "getInfo e s = (let s = initializeDynamicAaguid e s in respond (info_items e s) s)"

section \<open>Dispatch\<close>

text \<open>
  What a command observes: \<open>making\<close> for a registration (and, of it, the clock and the fresh master secret for
  the others), the random token, the content of fresh memory, one reading and one enrolment sample.
\<close>

record seen =
  seen_making :: making
  seen_token :: bytes
  seen_memory :: "nat \<Rightarrow> bytes"
  seen_reading :: reading
  seen_sample :: sample

definition processCborCommand :: "env \<Rightarrow> seen \<Rightarrow> bytes \<Rightarrow> ctap \<Rightarrow> ctap option" where
  "processCborCommand e v data s =
     (case data of
        [] \<Rightarrow> Some s
      | ctap2Cmd # params \<Rightarrow>
          let mk = seen_making v; w = user_watch mk in
          if \<not> heap (plat e) 8192 then fail_with 0x01 s
          else if ctap2Cmd = 0x04 then getInfo e s
          else if ctap2Cmd = 0x0B then Some (send_hid 0x90 [0x00] s)
          else if ctap2Cmd = 0x01 then makeCredential e mk params s
          else if ctap2Cmd = 0x02 then getAssertion e (observed.truncate mk) params s
          else if ctap2Cmd = 0x06 then clientPIN e (seen_token v) params s
          else if ctap2Cmd = 0x07 then reset e w (new_secret mk) s
          else if ctap2Cmd = 0x08 then getNextAssertion e (observed.truncate mk) s
          else if ctap2Cmd = 0x0C then largeBlobs e (seen_memory v) (seen_reading v) params s
          else if ctap2Cmd = 0x0A \<or> ctap2Cmd = 0x41 then credentialManagement e w params s
          else if ctap2Cmd = 0x0D then authConfig e params s
          else if ctap2Cmd = 0x09 \<or> ctap2Cmd = 0x40 then bioEnrollment e (seen_sample v) w params s
          else fail_with 0x11 s)"

text \<open>\<open>FIDO2HIDDevice::begin\<close>\<close>

definition begin_device :: "env \<Rightarrow> ctap \<Rightarrow> ctap" where
  "begin_device e s = initFidoAttestation e (initializeDynamicAaguid e s)"

section \<open>What a command may touch\<close>

text \<open>A predicate of every state a command can end in.\<close>

definition post :: "(ctap \<Rightarrow> bool) \<Rightarrow> ctap option \<Rightarrow> bool" where
  "post P c \<longleftrightarrow> (\<forall>s'. c = Some s' \<longrightarrow> P s')"

text \<open>
  The enrolment and the counter are the same; only keep-alives have been sent (\<open>working\<close>), and then one
  reply (\<open>finished\<close>).
\<close>

definition same :: "ctap \<Rightarrow> ctap \<Rightarrow> bool" where
  "same s s' \<longleftrightarrow> bioEnrollActive s' = bioEnrollActive s \<and> bioEnrollSamplesRequired s' = bioEnrollSamplesRequired s \<and>
     bioEnrollSamplesRemaining s' = bioEnrollSamplesRemaining s \<and> eeprom_word s' = eeprom_word s"

definition quiet :: "ctap \<Rightarrow> ctap \<Rightarrow> bool" where
  "quiet s s' \<longleftrightarrow> (\<exists>n. sent s' = sent s @ replicate n (0xBB, [2]))"

definition answered :: "ctap \<Rightarrow> ctap \<Rightarrow> bool" where
  "answered s s' \<longleftrightarrow> (\<exists>n d. sent s' = sent s @ replicate n (0xBB, [2]) @ [(0x90, d)])"

definition working :: "ctap \<Rightarrow> ctap \<Rightarrow> bool" where
  "working s s' \<longleftrightarrow> same s s' \<and> quiet s s'"

definition finished :: "ctap \<Rightarrow> ctap \<Rightarrow> bool" where
  "finished s s' \<longleftrightarrow> same s s' \<and> answered s s'"

lemma post_simps [simp]: "post P None" "post P (Some s) \<longleftrightarrow> P s"
  by (simp_all add: post_def)

lemma post_mono: "post P c \<Longrightarrow> (\<And>s. P s \<Longrightarrow> Q s) \<Longrightarrow> post Q c"
  by (auto simp: post_def)

lemma working_refl [simp]: "working s s"
  by (simp add: working_def same_def quiet_def)

lemma quiet_trans: "quiet s t \<Longrightarrow> quiet t u \<Longrightarrow> quiet s u"
  by (auto simp: quiet_def simp flip: replicate_add)

lemma quiet_answered: "quiet s t \<Longrightarrow> answered t u \<Longrightarrow> answered s u"
proof -
  assume "quiet s t" "answered t u"
  then obtain n m d where "sent u = sent s @ replicate (n + m) (0xBB, [2]) @ [(0x90, d)]"
    by (auto simp: quiet_def answered_def replicate_add)
  then show "answered s u" unfolding answered_def by blast
qed

lemma same_counts_trans: "same s t \<Longrightarrow> same t u \<Longrightarrow> same s u"
  by (simp add: same_def)

lemma working_trans: "working s t \<Longrightarrow> working t u \<Longrightarrow> working s u"
  using same_counts_trans quiet_trans unfolding working_def by blast

lemma working_update [simp]:
  "working s (t\<lparr>sys := x1\<rparr>) = working s t"
  "working s (t\<lparr>nonces := x2\<rparr>) = working s t"
  "working s (t\<lparr>lastFingerprintSuccessTime := x3\<rparr>) = working s t"
  "working s (t\<lparr>lastConfidenceScore := x4\<rparr>) = working s t"
  "working s (t\<lparr>hasPendingCommand := x5\<rparr>) = working s t"
  "working s (t\<lparr>nextAssertionCreds := x6\<rparr>) = working s t"
  "working s (t\<lparr>nextAssertionIdx := x7\<rparr>) = working s t"
  "working s (t\<lparr>nextAssertionClientHash := x8\<rparr>) = working s t"
  "working s (t\<lparr>nextAssertionRpId := x9\<rparr>) = working s t"
  "working s (t\<lparr>nextAssertionOptionUV := x10\<rparr>) = working s t"
  "working s (t\<lparr>nextAssertionExtReq := x11\<rparr>) = working s t"
  "working s (t\<lparr>nextAssertionSalt1 := x12\<rparr>) = working s t"
  "working s (t\<lparr>nextAssertionSalt2 := x13\<rparr>) = working s t"
  "working s (t\<lparr>nextAssertionLargeBlobReq := x14\<rparr>) = working s t"
  "working s (t\<lparr>nextAssertionCredBlobReq := x15\<rparr>) = working s t"
  "working s (t\<lparr>largeBlobWriteBuffer := x16\<rparr>) = working s t"
  "working s (t\<lparr>largeBlobExpectedTotalLen := x17\<rparr>) = working s t"
  "working s (t\<lparr>largeBlobReceivedLen := x18\<rparr>) = working s t"
  "working s (t\<lparr>enumRpList := x19\<rparr>) = working s t"
  "working s (t\<lparr>enumRpIdx := x20\<rparr>) = working s t"
  "working s (t\<lparr>enumCredList := x21\<rparr>) = working s t"
  "working s (t\<lparr>enumCredIdx := x22\<rparr>) = working s t"
  "working s (t\<lparr>sessionPrivateKey := x23\<rparr>) = working s t"
  "working s (t\<lparr>sessionKeyValid := x24\<rparr>) = working s t"
  "working s (t\<lparr>sessionSharedSecret := x25\<rparr>) = working s t"
  "working s (t\<lparr>activeAuthToken := x26\<rparr>) = working s t"
  "working s (t\<lparr>dynamicAaguid := x27\<rparr>) = working s t"
  "working s (t\<lparr>isAaguidInitialized := x28\<rparr>) = working s t"
  "working s (t\<lparr>attestationReady := x29\<rparr>) = working s t"
  "working s (t\<lparr>attestationProvisioned := x30\<rparr>) = working s t"
  "working s (t\<lparr>attestationChainCache := x31\<rparr>) = working s t"
  "working s (t\<lparr>attestationPrivKeyCache := x32\<rparr>) = working s t"
  by (simp_all add: working_def same_def quiet_def)

lemma working_helpers [simp]: "working s t \<Longrightarrow> working s (stay_busy n t)" "working s (store_files fs t) = working s t"
  "working s (drop_write_buffer t) = working s t"
proof -
  show "working s t \<Longrightarrow> working s (stay_busy n t)"
    by (rule working_trans [of s t]) (auto simp: working_def same_def quiet_def stay_busy_def)
qed (simp_all add: store_files_def drop_write_buffer_def)

lemma finish: "working s t \<Longrightarrow> t' = t\<lparr>sent := sent t @ [(0x90, d)]\<rparr> \<Longrightarrow> finished s t'"
  by (auto simp: working_def finished_def same_def quiet_def answered_def)

lemma finish_send: "working s t \<Longrightarrow> finished s (send_hid 0x90 d t)"
  using finish by (simp add: send_hid_def)

lemma post_fail: "working s t \<Longrightarrow> post (finished s) (fail_with err t)"
  using finish by (auto simp: fail_with_def send_hid_def)

lemma post_respond: "working s t \<Longrightarrow> post (finished s) (respond cs t)"
  using finish by (auto simp: post_def respond_def send_hid_def bind_eq_Some_conv)

lemma working_uv:
  assumes "uv_frame s t"
  shows "working s t"
proof -
  obtain u n c h where "t = s\<lparr>sys := u, lastConfidenceScore := c, hasPendingCommand := h,
      sent := sent s @ replicate n (0xBB, [2])\<rparr>"
    using assms unfolding uv_frame_def by metis
  then show ?thesis by (auto simp: working_def same_def quiet_def)
qed

lemma working_verify:
  "verify_user e w s = Some (v, s') \<Longrightarrow> working s s'" "verify_recent_user e w s = Some (v, s') \<Longrightarrow> working s s'"
  "working s (snd (fidoVerifyFingerprint e f s))"
proof -
  show u: "working s s'" if "verify_user e w s = Some (v, s')" for v s'
    using that uv_loop_frame working_uv unfolding verify_user_def by blast
  show "working s s'" if r: "verify_recent_user e w s = Some (v, s')"
  proof -
    obtain s0 t where "uv_frame s s0" "s' = s0\<lparr>lastFingerprintSuccessTime := t\<rparr>" using verify_recent_frame [OF r] by blast
    then show ?thesis using working_uv by simp
  qed
  show "working s (snd (fidoVerifyFingerprint e f s))" using working_uv verify_frame by blast
qed

named_theorems post_rules

lemma post_bind: "(\<And>x. c = Some x \<Longrightarrow> post P (f x)) \<Longrightarrow> post P (c \<bind> f)"
  by (auto simp: post_def bind_eq_Some_conv)

lemma post_map: "(\<And>x. c = Some x \<Longrightarrow> P (f x)) \<Longrightarrow> post P (map_option f c)"
  by (auto simp: post_def)

lemma post_if [post_rules]: "(b \<Longrightarrow> post P c) \<Longrightarrow> (\<not> b \<Longrightarrow> post P d) \<Longrightarrow> post P (if b then c else d)"
  by simp

lemma post_let [post_rules]: "(\<And>y. y = x \<Longrightarrow> post P (f y)) \<Longrightarrow> post P (Let x f)"
  by simp

lemma post_option [post_rules]:
  "(x = None \<Longrightarrow> post P c) \<Longrightarrow> (\<And>y. x = Some y \<Longrightarrow> post P (d y)) \<Longrightarrow> post P (case x of None \<Rightarrow> c | Some y \<Rightarrow> d y)"
  by (cases x) simp_all

lemma post_prod [post_rules]: "(\<And>a b. x = (a, b) \<Longrightarrow> post P (f a b)) \<Longrightarrow> post P (case x of (a, b) \<Rightarrow> f a b)"
  by (cases x) simp

lemma post_sum [post_rules]:
  "(\<And>a. x = Inl a \<Longrightarrow> post P (f a)) \<Longrightarrow> (\<And>b. x = Inr b \<Longrightarrow> post P (g b)) \<Longrightarrow> post P (case x of Inl a \<Rightarrow> f a | Inr b \<Rightarrow> g b)"
  by (cases x) simp_all

lemma post_verdict [post_rules]:
  "(\<And>t. x = Verified t \<Longrightarrow> post P (f t)) \<Longrightarrow> post P c \<Longrightarrow> post P d \<Longrightarrow>
    post P (case x of Verified t \<Rightarrow> f t | Canceled \<Rightarrow> c | Timed_Out \<Rightarrow> d)"
  by (cases x) simp_all

lemmas [post_rules] = post_bind post_respond post_fail post_map

section \<open>Every command keeps its hands off\<close>

lemma keep_store: "working s t \<Longrightarrow> post (finished s) (store_pin e d t)"
  unfolding store_pin_def by (intro post_rules) simp_all

lemma keep_pin: "post (finished s) (clientPIN e token data s)"
proof -
  have "post (finished s) (pin_set e r s)" "post (finished s) (pin_change e r s)" for r
    unfolding pin_set_def pin_change_def by (intro post_rules keep_store; simp)+
  then show ?thesis
    unfolding clientPIN_def pin_retries_def pin_key_agreement_def pin_token_def pin_token_with_permissions_def
    by (intro post_rules) simp_all
qed

lemma keep_manage: "post (finished s) (credentialManagement e w data s)"
proof -
  have first: "post (finished s) (mgmt_first_cred e t)" if "working s t" for t
    using that unfolding mgmt_first_cred_def by (intro post_rules) simp
  have "post (finished s) (mgmt_creds_begin e w h s)" for h
    unfolding mgmt_creds_begin_def
    by (intro post_rules first) (auto dest!: working_verify(2) elim!: working_trans [rotated])
  then show ?thesis
    unfolding credentialManagement_def mgmt_metadata_def mgmt_rps_begin_def mgmt_rps_next_def mgmt_creds_next_def mgmt_delete_def
    by (intro post_rules; simp)
qed

lemma keep_config: "post (finished s) (authConfig e data s)"
  unfolding authConfig_def by (intro post_rules) simp_all

lemma keep_reset: "post (finished s) (reset e w fresh s)"
  unfolding reset_def by (intro post_rules) (auto dest: working_verify(1) intro!: finish_send)

lemma keep_blobs: "post (finished s) (largeBlobs e junk f data s)"
proof -
  have ap: "post (finished s) (blob_append e r frag t)" if "working s t" for r frag t
    using that unfolding blob_append_def blob_finish_def by (intro post_rules) simp_all
  have st: "case blob_start e junk f r s of Inl (err, t) \<Rightarrow> working s t | Inr t \<Rightarrow> working s t" for r
    using working_verify(3) [of s e f] by (auto simp: blob_start_def split: option.split prod.split)
  have "post (finished s) (blob_set e junk f r frag s)" for r frag
    using st [of r] ap by (auto simp: blob_set_def intro: post_fail split: sum.split prod.split)
  then show ?thesis
    unfolding largeBlobs_def blob_get_def by (intro post_rules) simp_all
qed

lemma keep_info: "post (finished s) (getInfo e s)"
  unfolding getInfo_def Let_def by (intro post_respond) (simp add: initializeDynamicAaguid_def Let_def)

lemma keep_new_credential:
  assumes "new_credential e mk r priv s = Some (c, s')"
  shows "working s s'"
  using assms unfolding new_credential_def save_resident_def
  by (auto simp: bind_eq_Some_conv Let_def split: if_splits prod.splits option.splits)

lemma keep_attest: "working s t \<Longrightarrow> post (finished s) (attest e mk r credId k t)"
  unfolding attest_def by (intro post_rules) simp_all

lemma keep_register: "working s t \<Longrightarrow> post (finished s) (register e mk r t)"
  unfolding register_def
  by (intro post_rules keep_attest)
    (auto dest!: keep_new_credential elim!: working_trans [rotated] simp del: replicate.simps split: sum.split if_splits)

lemma keep_make: "post (finished s) (makeCredential e mk data s)"
  unfolding makeCredential_def make_for_def
  by (intro post_rules keep_register) (auto dest: working_verify(1))

text \<open>An assertion advances the counter when, and only when, it gets to the signature.\<close>

definition advanced :: "ctap \<Rightarrow> ctap \<Rightarrow> bool" where
  "advanced s t \<longleftrightarrow> same s t \<or> same (savePersistedSignCount (loadPersistedSignCount s + 1) s) t"

definition asserted :: "ctap \<Rightarrow> ctap \<Rightarrow> bool" where
  "asserted s t \<longleftrightarrow> advanced s t \<and> answered s t"

lemma finished_asserted: "finished s t \<Longrightarrow> asserted s t"
  by (simp add: finished_def asserted_def advanced_def)

lemma post_failed: "working s t \<Longrightarrow> post (asserted s) (fail_with err t)"
  by (rule post_mono [of "finished s"]) (simp_all add: finished_asserted post_fail)

lemma after_sign:
  assumes "working s t" "finished (savePersistedSignCount (loadPersistedSignCount t + 1) t) u"
  shows "asserted s u"
proof -
  have "answered t u" using assms(2) by (simp add: finished_def answered_def savePersistedSignCount_def)
  then have "answered s u" using assms(1) quiet_answered by (auto simp: working_def)
  then show ?thesis
    using assms by (auto simp: asserted_def advanced_def working_def finished_def same_def savePersistedSignCount_def
        loadPersistedSignCount_def)
qed

lemma advance_sign:
  assumes "working s t"
  shows "post (asserted s) (sign_assertion e n a flags m cid c t)"
proof (rule post_mono)
  show "post (finished (savePersistedSignCount (loadPersistedSignCount t + 1) t)) (sign_assertion e n a flags m cid c t)"
    unfolding sign_assertion_def by (intro post_rules) simp_all
qed (use after_sign [OF assms] in blast)

lemma keep_resolve: "resolve e fresh rp cid s = Some (c, s') \<Longrightarrow> working s s'"
  by (auto simp: resolve_def unwrap_stateless_def Let_def bind_eq_Some_conv split: if_splits prod.splits option.splits)

lemma keep_allowed: "match_allowed e fresh rp ids m s = Some (l, s') \<Longrightarrow> working s s'"
proof (induction ids arbitrary: m s)
  case (Cons i ids)
  obtain u s1 where u: "unwrap_stateless e fresh i rp s = Some (u, s1)" using Cons.prems by (auto simp: bind_eq_Some_conv)
  then have "working s s1" by (auto simp: unwrap_stateless_def split: if_splits prod.splits)
  moreover have "working s1 s'" using Cons u by (auto simp: bind_eq_Some_conv split: option.splits)
  ultimately show ?case by (rule working_trans)
qed simp

lemma keep_matching: "matching e fresh r s = Some (l, s') \<Longrightarrow> working s s'"
  by (auto simp: matching_def dest: keep_allowed split: if_splits)

lemma working_remember: "working s t \<Longrightarrow> working s (remember_assertion l r t)"
  by (simp add: remember_assertion_def Let_def)

lemma advance_assert: "working s t \<Longrightarrow> post (asserted s) (assert_with e ob r matched c t)"
  unfolding assert_with_def
  by (intro post_rules advance_sign post_failed)
    (auto dest!: working_verify(2) elim!: working_trans [rotated] intro: working_remember)

lemma advance_getAssertion: "post (asserted s) (getAssertion e ob data s)"
  unfolding getAssertion_def assert_for_def
  by (intro post_rules advance_assert post_failed) (auto dest!: keep_matching keep_resolve intro: working_trans)

lemma advance_getNextAssertion: "post (asserted s) (getNextAssertion e ob s)"
  unfolding getNextAssertion_def
  by (intro post_rules advance_sign post_failed) (auto dest!: keep_resolve elim!: working_trans [rotated])

section \<open>Enrolment\<close>

text \<open>The counter is the same and there is one reply; the enrolment is dealt with in \<open>CtapBio\<close>.\<close>

definition observing :: "ctap \<Rightarrow> ctap \<Rightarrow> bool" where
  "observing s t \<longleftrightarrow> eeprom_word t = eeprom_word s \<and> quiet s t"

definition reported :: "ctap \<Rightarrow> ctap \<Rightarrow> bool" where
  "reported s t \<longleftrightarrow> eeprom_word t = eeprom_word s \<and> answered s t"

lemma report: "observing s t \<Longrightarrow> t' = t\<lparr>sent := sent t @ [(0x90, d)]\<rparr> \<Longrightarrow> reported s t'"
  by (auto simp: observing_def reported_def quiet_def answered_def)

lemma report_fail [post_rules]: "observing s t \<Longrightarrow> post (reported s) (fail_with err t)"
  using report by (auto simp: fail_with_def send_hid_def)

lemma report_respond [post_rules]: "observing s t \<Longrightarrow> post (reported s) (respond cs t)"
  using report by (auto simp: post_def respond_def send_hid_def bind_eq_Some_conv)

lemma observing_update [simp]:
  "observing s s" "observing s (t\<lparr>sys := u\<rparr>) = observing s t" "observing s (t\<lparr>bioEnrollActive := a\<rparr>) = observing s t"
  "observing s (t\<lparr>bioEnrollTemplateId := i\<rparr>) = observing s t" "observing s (t\<lparr>bioEnrollSamplesRequired := m\<rparr>) = observing s t"
  "observing s (t\<lparr>bioEnrollSamplesRemaining := m\<rparr>) = observing s t"
  by (simp_all add: observing_def quiet_def)

lemma observing_trans: "observing s t \<Longrightarrow> observing t u \<Longrightarrow> observing s u"
  using quiet_trans unfolding observing_def by fastforce

lemma observing_capture:
  assumes "captureBioSample m s = Some (c, s')"
  shows "observing s s'"
proof -
  obtain w s1 where w: "wait_finger (wait_start m) (wait_turns m) 0 (first_image m) s = Some (w, s1)"
    using assms by (auto simp: captureBioSample_def bind_eq_Some_conv)
  then have "observing s s1" using wait_finger_frame [OF w] by (auto simp: observing_def quiet_def)
  moreover have "observing s1 s'"
    using assms w by (auto simp: captureBioSample_def Let_def simp del: wait_finger.simps split: waited.splits if_splits)
  ultimately show ?thesis by (rule observing_trans)
qed

lemma report_sample: "observing s t \<Longrightarrow> post (reported s) (enroll_sample e m x t)"
  unfolding enroll_sample_def
  by (intro post_rules) (auto dest!: observing_capture elim!: observing_trans simp: save_name_def split: prod.split)

lemma report_list: "post (reported s) (list_fingers e w s)"
proof -
  have "observing s t" if "verify_recent_user e w s = Some (v, t)" for v t
    using working_verify(2) [OF that] by (simp add: working_def observing_def same_def)
  then show ?thesis unfolding list_fingers_def by (intro post_rules) auto
qed

lemma report_bio: "post (reported s) (bioEnrollment e m w data s)"
proof -
  have o: "observing s (snd (save_name e i n s))" for i n by (simp add: save_name_def split: prod.split)
  have "post (reported s) (rename_finger e r s)" for r
    unfolding rename_finger_def using o
    by (auto intro!: post_rules split: option.split list.split prod.split) (metis snd_conv)+
  moreover have "post (reported s) (remove_finger e r s)" for r
    unfolding remove_finger_def Let_def by (auto intro!: report_fail report_respond split: option.split list.split)
  moreover have "post (reported s) (enroll_begin e m s)" "post (reported s) (enroll_next e m r s)" for r
    unfolding enroll_begin_def enroll_next_def by (intro post_rules report_sample; simp)+
  moreover note report_list [of s e w]
  ultimately show ?thesis
    unfolding bioEnrollment_def bio_subcommand_def by (intro post_rules) simp_all
qed

section \<open>U2F\<close>

definition silent :: "ctap \<Rightarrow> ctap \<Rightarrow> bool" where
  "silent s t \<longleftrightarrow> same s t \<and> sent t = sent s"

definition u2f_ended :: "ctap \<Rightarrow> ctap \<Rightarrow> bool" where
  "u2f_ended s t \<longleftrightarrow> advanced s t \<and> (\<exists>d. sent t = sent s @ [(0x83, d)])"

lemma silent_simps [simp]: "silent s s" "silent s (store_files fs t\<lparr>nonces := n\<rparr>) = silent s t"
  by (simp_all add: silent_def same_def store_files_def)

lemma silent_verify: "fidoVerifyFingerprint e f s = (ok, t) \<Longrightarrow> silent s t"
  using working_verify(3) [of s e f] verify_keeps(7) [of e f s] by (simp add: silent_def working_def)

lemma u2f_end: "advanced s t \<Longrightarrow> sent t = sent s \<Longrightarrow> post (u2f_ended s) (u2f_reply d t)"
  by (auto simp: u2f_reply_def send_hid_def u2f_ended_def advanced_def same_def savePersistedSignCount_def)

lemma u2f_end_silent [post_rules]: "silent s t \<Longrightarrow> post (u2f_ended s) (u2f_reply d t)"
  by (rule u2f_end) (auto simp: silent_def advanced_def)

lemma u2f_keeps: "post (u2f_ended s) (processU2fCommand e o1 data s)"
proof -
  have "post (u2f_ended s) (u2f_register e o1 n body s)" for n body
  proof -
    have "silent s u" if "u2f_save e o1 a p t = Some (ok, u)" "silent s t" for a p ok t u
      using that by (auto simp: u2f_save_def bind_eq_Some_conv)
    then show ?thesis
      unfolding u2f_register_def u2f_attest_def by (intro post_rules) (auto dest: silent_verify)
  qed
  moreover have "post (u2f_ended s) (u2f_authenticate e o1 p1 n body s)" for p1 n body
  proof -
    have "post (u2f_ended s) (u2f_sign e ch a c t)" if "silent s t" for ch a c t
      unfolding u2f_sign_def using that
      by (intro post_bind post_let post_option post_if u2f_end)
        (auto simp: advanced_def silent_def same_def savePersistedSignCount_def loadPersistedSignCount_def)
    then show ?thesis
      unfolding u2f_authenticate_def by (intro post_rules) (auto dest: silent_verify)
  qed
  ultimately show ?thesis unfolding processU2fCommand_def by (intro post_rules) simp_all
qed

section \<open>Runs\<close>

datatype message = Cbor_Msg seen bytes | U2f_Msg u2f_seen bytes

fun handle_message :: "env \<Rightarrow> message \<Rightarrow> ctap \<Rightarrow> ctap option" where
  "handle_message e (Cbor_Msg v data) s = processCborCommand e v data s"
| "handle_message e (U2f_Msg o1 data) s = processU2fCommand e o1 data s"

inductive run :: "env \<Rightarrow> ctap \<Rightarrow> message list \<Rightarrow> ctap \<Rightarrow> bool" for e s where
  run_start: "run e s [] s"
| run_step: "run e s ms t \<Longrightarrow> handle_message e m t = Some u \<Longrightarrow> run e s (ms @ [m]) u"

lemma cbor_cases:
  assumes "processCborCommand e v (c # params) s = Some s'"
  shows "asserted s s' \<or> reported s s' \<and> (\<exists>w. bioEnrollment e (seen_sample v) w params s = Some s')"
proof -
  define mk where "mk = seen_making v"
  have f: "asserted s s'" if "post (finished s) x" "x = Some s'" for x
    using that finished_asserted by (auto simp: post_def)
  have sel: "asserted s (send_hid 0x90 [0] s)" by (simp add: finish_send finished_asserted)
  note F = f [OF post_fail] f [OF keep_info] f [OF keep_make] f [OF keep_pin] f [OF keep_reset] f [OF keep_blobs]
    f [OF keep_manage] f [OF keep_config]
  have A: "asserted s s'" if "post (asserted s) x" "x = Some s'" for x using that by (auto simp: post_def)
  have B: "reported s s' \<and> (\<exists>w. bioEnrollment e (seen_sample v) w params s = Some s')"
    if "bioEnrollment e (seen_sample v) w params s = Some s'" for w
    using that report_bio [of s e "seen_sample v" w params] by (auto simp: post_def)
  show ?thesis
    using assms unfolding processCborCommand_def list.case Let_def
    by (auto split: if_split_asm dest: F(2-) A [OF advance_getAssertion] A [OF advance_getNextAssertion] B
        intro: F(1) [OF working_refl] sel)
qed

lemma handle_step:
  assumes "handle_message e m s = Some s'"
  shows "eeprom_word s' \<in> {eeprom_word s, loadPersistedSignCount s + 1}" "enrol_ok s \<Longrightarrow> enrol_ok s'"
proof -
  have a: "eeprom_word s' \<in> {eeprom_word s, loadPersistedSignCount s + 1} \<and> (enrol_ok s \<longrightarrow> enrol_ok s')" if "advanced s s'"
    using that by (auto simp: advanced_def same_def enrol_ok_def savePersistedSignCount_def)
  have "eeprom_word s' \<in> {eeprom_word s, loadPersistedSignCount s + 1} \<and> (enrol_ok s \<longrightarrow> enrol_ok s')"
  proof (cases m)
    case (Cbor_Msg v data)
    then show ?thesis
    proof (cases data)
      case Nil
      then show ?thesis using assms Cbor_Msg by (simp add: processCborCommand_def)
    next
      case (Cons c params)
      then have "asserted s s' \<or> reported s s' \<and> (\<exists>w. bioEnrollment e (seen_sample v) w params s = Some s')"
        using assms Cbor_Msg cbor_cases by simp
      then show ?thesis using a bioEnrollment_step unfolding asserted_def reported_def by blast
    qed
  next
    case (U2f_Msg o1 data)
    then have "u2f_ended s s'" using assms u2f_keeps [of s e o1 data] by (simp add: post_def)
    then show ?thesis using a by (simp add: u2f_ended_def)
  qed
  then show "eeprom_word s' \<in> {eeprom_word s, loadPersistedSignCount s + 1}" "enrol_ok s \<Longrightarrow> enrol_ok s'" by blast+
qed

lemma answers:
  assumes "processCborCommand e v (c # params) s = Some s'"
  shows "answered s s'"
  using cbor_cases [OF assms] by (auto simp: asserted_def reported_def)

lemma counter_step:
  assumes "eeprom_word t' \<in> {eeprom_word t, loadPersistedSignCount t + 1}" "unat (loadPersistedSignCount t) < 2 ^ 32 - 2"
  shows "loadPersistedSignCount t' = loadPersistedSignCount t \<or>
    unat (loadPersistedSignCount t') = unat (loadPersistedSignCount t) + 1"
proof -
  have n: "unat (loadPersistedSignCount t + 1) = unat (loadPersistedSignCount t) + 1"
    using assms(2) by (subst unat_add_lem [THEN iffD1]) simp_all
  have "loadPersistedSignCount t + 1 \<noteq> 0xFFFFFFFF"
  proof
    assume "loadPersistedSignCount t + 1 = 0xFFFFFFFF"
    then have "unat (loadPersistedSignCount t) + 1 = unat (0xFFFFFFFF :: u32)" using n by metis
    then show False using assms(2) by simp
  qed
  then show ?thesis using assms(1) n by (auto simp: loadPersistedSignCount_def [of t'] loadPersistedSignCount_def [of t] split: if_splits)
qed

section \<open>Properties\<close>

text \<open>
  C10: runs of the device. Whatever CTAP2 and U2F messages arrive in whatever order, each message advances the
  signature counter by at most one and none sets it back, not even a reset, until the 32 bits are used up;
  and an active enrolment waits for exactly one more sample after every message.
\<close>

theorem counter_never_goes_back:
  assumes "run e s ms t" "unat (loadPersistedSignCount s) + length ms < 2 ^ 32 - 1"
  shows "unat (loadPersistedSignCount s) \<le> unat (loadPersistedSignCount t) \<and>
    unat (loadPersistedSignCount t) \<le> unat (loadPersistedSignCount s) + length ms \<and> (enrol_ok s \<longrightarrow> enrol_ok t)"
  using assms
proof (induction rule: run.induct)
  case (run_step ms t m u)
  then have IH: "unat (loadPersistedSignCount s) \<le> unat (loadPersistedSignCount t)"
    "unat (loadPersistedSignCount t) \<le> unat (loadPersistedSignCount s) + length ms" "enrol_ok s \<longrightarrow> enrol_ok t"
    by simp_all
  have "unat (loadPersistedSignCount t) < 2 ^ 32 - 2" using IH(2) run_step.prems by simp
  from counter_step [OF handle_step(1) [OF run_step.hyps(2)] this] show ?case
    using IH handle_step(2) [OF run_step.hyps(2)] by auto
qed simp

text \<open>
  C27: one answer. Every CTAP2 message that is not empty is answered, after any number of keep-alives, with exactly
  one reply of CTAPHID_CBOR, whatever its command and content; an empty one is ignored. A U2F message is
  answered with exactly one CTAPHID_MSG.
\<close>

theorem one_reply:
  assumes "handle_message e m s = Some s'"
  shows "case m of
      Cbor_Msg v data \<Rightarrow> if data = [] then s' = s
        else \<exists>n d. sent s' = sent s @ replicate n (0xBB, [2]) @ [(0x90, d)]
    | U2f_Msg o1 data \<Rightarrow> \<exists>d. sent s' = sent s @ [(0x83, d)]"
proof (cases m)
  case (Cbor_Msg v data)
  then show ?thesis
    using assms answers by (cases data) (auto simp: processCborCommand_def answered_def)
next
  case (U2f_Msg o1 data)
  then have "u2f_ended s s'" using assms u2f_keeps [of s e o1 data] by (simp add: post_def)
  then show ?thesis using U2f_Msg by (simp add: u2f_ended_def)
qed

text \<open>
  AuthenticatorGetInfo tells the truth and is understood: the reply is complete, the option keys come in
  the order of canonical CBOR (shorter keys first, then bytewise), \<open>uv\<close> and \<open>bioEnroll\<close> say whether a finger
  is enrolled and \<open>clientPin\<close> whether a PIN is set.
\<close>

definition canonical_before :: "string \<Rightarrow> string \<Rightarrow> bool" where
  "canonical_before a b \<longleftrightarrow> length a < length b \<or> length a = length b \<and> ord_class.lexordp (ascii a) (ascii b)"

theorem get_info:
  assumes "length (dynamicAaguid (initializeDynamicAaguid e s)) \<le> 255" "heap (plat e) 8192"
  shows "\<exists>s'. processCborCommand e v [0x04] s = Some s' \<and>
      sent s' = sent s @ [reply_of (info_items e (initializeDynamicAaguid e s))] \<and>
    sorted_wrt canonical_before (map fst (info_options e s)) \<and>
    map_of (info_options e s) ''uv'' = Some (getAllBioTemplateIds (json_lib e) (sys s) \<noteq> []) \<and>
    map_of (info_options e s) ''bioEnroll'' = Some (getAllBioTemplateIds (json_lib e) (sys s) \<noteq> []) \<and>
    map_of (info_options e s) ''clientPin'' = Some (isFidoPinSet (sys s))"
proof -
  define s1 where "s1 = initializeDynamicAaguid e s"
  have sent: "sent s1 = sent s" by (simp add: s1_def initializeDynamicAaguid_def Let_def)
  have "(- 7 :: u64) <s 0" "(- 8 :: u64) <s 0" "(- 257 :: u64) <s 0" "(- 48 :: u64) <s 0" "(- 49 :: u64) <s 0" "(- 50 :: u64) <s 0"
    by code_simp+
  then have "within 8181 (info_items e s1)"
    using assms(1) by (simp add: info_items_def info_options_def info_algorithm_def named_def within_def length_lits Let_def
        flip: s1_def)
  then have "processCborCommand e v [0x04] s = Some (s1\<lparr>sent := sent s1 @ [reply_of (info_items e s1)]\<rparr>)"
    using assms(2) within_respond by (simp add: processCborCommand_def getInfo_def Let_def flip: s1_def)
  moreover have "sorted_wrt canonical_before (map fst (info_options e s))"
    by (simp add: info_options_def canonical_before_def ascii_def Let_def)
  moreover have "map_of (info_options e s) ''uv'' = Some (getAllBioTemplateIds (json_lib e) (sys s) \<noteq> [])"
    "map_of (info_options e s) ''bioEnroll'' = Some (getAllBioTemplateIds (json_lib e) (sys s) \<noteq> [])"
    "map_of (info_options e s) ''clientPin'' = Some (isFidoPinSet (sys s))"
    by (simp_all add: info_options_def getBioTemplateCount_def Let_def)
  ultimately show ?thesis using sent by (simp flip: s1_def)
qed

text \<open>An example: information, a touch on a U2F registration and the information again.\<close>

definition seen_example :: seen where
  "seen_example = \<lparr>seen_making = mk_example, seen_token = [], seen_memory = (\<lambda>n. replicate n 0), seen_reading = touch,
     seen_sample = bio_sample\<rparr>"

lemma get_info_fits: "length (dynamicAaguid (initializeDynamicAaguid toy_env toy_ctap)) \<le> 255" "heap (plat toy_env) 8192"
  by (simp_all add: initializeDynamicAaguid_def toy_ctap_def toy_env_def toy_platform_def)

theorem get_info_witness:
  "\<exists>s'. processCborCommand toy_env seen_example [0x04] toy_ctap = Some s' \<and>
    sent s' = [reply_of (info_items toy_env (initializeDynamicAaguid toy_env toy_ctap))]"
proof -
  have "sent toy_ctap = []" by (simp add: toy_ctap_def)
  then show ?thesis using get_info [OF get_info_fits, of seen_example] by auto
qed

lemma example_run:
  "\<exists>t. run toy_env toy_ctap [Cbor_Msg seen_example [], U2f_Msg u2f_touch [0, 3, 0, 0]] t \<and>
    handle_message toy_env (U2f_Msg u2f_touch [0, 3, 0, 0]) toy_ctap = Some t"
proof -
  obtain t where t: "processU2fCommand toy_env u2f_touch [0, 3, 0, 0] toy_ctap = Some t"
    by (simp add: processU2fCommand_def Let_def u2f_reply_def)
  have "run toy_env toy_ctap [Cbor_Msg seen_example []] toy_ctap"
    using run_step [OF run_start, of toy_env "Cbor_Msg seen_example []" toy_ctap toy_ctap] by (simp add: processCborCommand_def)
  from run_step [OF this, of "U2f_Msg u2f_touch [0, 3, 0, 0]" t] t show ?thesis by auto
qed

theorem counter_never_goes_back_witness:
  "\<exists>t. run toy_env toy_ctap [Cbor_Msg seen_example [], U2f_Msg u2f_touch [0, 3, 0, 0]] t \<and>
    unat (loadPersistedSignCount toy_ctap) \<le> unat (loadPersistedSignCount t)"
proof -
  obtain t where t: "run toy_env toy_ctap [Cbor_Msg seen_example [], U2f_Msg u2f_touch [0, 3, 0, 0]] t" using example_run by blast
  have "unat (loadPersistedSignCount toy_ctap) + 2 < 2 ^ 32 - 1"
    by (simp add: loadPersistedSignCount_def toy_ctap_def)
  then show ?thesis using counter_never_goes_back [OF t] t by auto
qed

theorem one_reply_witness:
  "\<exists>t d. handle_message toy_env (U2f_Msg u2f_touch [0, 3, 0, 0]) toy_ctap = Some t \<and> sent t = [(0x83, d)]"
proof -
  obtain t where t: "handle_message toy_env (U2f_Msg u2f_touch [0, 3, 0, 0]) toy_ctap = Some t" using example_run by blast
  have "sent toy_ctap = []" by (simp add: toy_ctap_def)
  then show ?thesis using one_reply [OF t] t by auto
qed

end
