(* ===== verification/CtapHid.thy ===== *)
theory CtapHid
  imports Prelude "HOL-Library.Monad_Syntax"
begin

text \<open>
  The CTAPHID transport (\<open>include/FIDO2Manager.h\<close>, \<open>src/FIDO2Manager.cpp\<close>): the fragmentation of
  a response into 64-byte HID reports, the reassembly of a request from reports, the hand-over of a
  complete request from the USB callback to the main loop, and the dispatch of a request.

  \<^item> The members of \<open>FIDO2HIDDevice\<close> and the two file-scope variables of the channel table are the
    record \<open>dev\<close>; a heap pointer is \<open>None\<close> for NULL or \<open>Some\<close> the bytes of its block.
  \<^item> The environment of a call is the record \<open>env\<close>: the clock, \<open>malloc\<close> (\<open>None\<close> when it fails),
    the fate of the reports handed to the USB stack (\<open>sent i\<close>: report number \<open>i\<close> of a response is
    accepted before its deadline of 500 ms) and \<open>esp_random\<close>.
  \<^item> A step returns the reports it sends and the new state, and \<open>None\<close> when a \<open>memcpy\<close> leaves its
    source or its destination (a copy of no bytes touches nothing).
\<close>

record env =
  millis :: u32
  alloc :: "nat \<Rightarrow> bytes option"
  sent :: "nat \<Rightarrow> bool"
  esp_random :: u32

record dev =
  activeChannelID :: u32
  ctapBuffer :: "bytes option"
  ctapBufferCapacity :: nat
  ctapExpectedLen :: nat
  ctapReceivedLen :: nat
  ctapExpectedSeq :: u8
  ctapCurrentCmd :: u8
  ctapCurrentChannel :: u32
  lastPacketTime :: u32
  hasPendingCommand :: bool
  pendingChannel :: u32
  pendingCmd :: u8
  pendingData :: "bytes option"
  pendingLen :: nat
  pendingDataCapacity :: nat
  allocatedChannels :: "u32 list"
  nextChannelSlot :: nat

abbreviation CTAPHID_PING :: u8 where "CTAPHID_PING \<equiv> 0x81"
abbreviation CTAPHID_MSG :: u8 where "CTAPHID_MSG \<equiv> 0x83"
abbreviation CTAPHID_INIT :: u8 where "CTAPHID_INIT \<equiv> 0x86"
abbreviation CTAPHID_WINK :: u8 where "CTAPHID_WINK \<equiv> 0x88"
abbreviation CTAPHID_CBOR :: u8 where "CTAPHID_CBOR \<equiv> 0x90"
abbreviation CTAPHID_CANCEL :: u8 where "CTAPHID_CANCEL \<equiv> 0x91"
abbreviation CTAPHID_ERROR :: u8 where "CTAPHID_ERROR \<equiv> 0xBF"

definition new_dev :: dev where
  "new_dev = \<lparr>activeChannelID = 0, ctapBuffer = None, ctapBufferCapacity = 0,
     ctapExpectedLen = 0, ctapReceivedLen = 0, ctapExpectedSeq = 0, ctapCurrentCmd = 0,
     ctapCurrentChannel = 0, lastPacketTime = 0, hasPendingCommand = False, pendingChannel = 0,
     pendingCmd = 0, pendingData = None, pendingLen = 0, pendingDataCapacity = 0,
     allocatedChannels = [0, 0, 0, 0], nextChannelSlot = 0\<rparr>"

section \<open>Sending\<close>

definition channel_bytes :: "u32 \<Rightarrow> bytes" where
  "channel_bytes ch = [ucast (drop_bit 24 ch AND 0xFF), ucast (drop_bit 16 ch AND 0xFF),
     ucast (drop_bit 8 ch AND 0xFF), ucast (ch AND 0xFF)]"

text \<open>A report is 64 bytes, zero behind what is written into it.\<close>

definition report :: "bytes \<Rightarrow> bytes" where
  "report bs = bs @ replicate (64 - length bs) 0"

definition first_report :: "u32 \<Rightarrow> u8 \<Rightarrow> bytes \<Rightarrow> bytes" where
  "first_report ch cmd data = report (channel_bytes ch @
     [cmd, of_nat (length data div 256), of_nat (length data)] @ take 57 data)"

definition next_report :: "u32 \<Rightarrow> u8 \<Rightarrow> bytes \<Rightarrow> bytes" where
  "next_report ch seq rest = report (channel_bytes ch @ [seq AND 0x7F] @ take 59 rest)"

text \<open>The loop \<open>while (offset < len)\<close>; \<open>i\<close> counts the reports of the response.\<close>

function send_rest :: "(nat \<Rightarrow> bool) \<Rightarrow> u32 \<Rightarrow> bytes \<Rightarrow> nat \<Rightarrow> u8 \<Rightarrow> nat \<Rightarrow> bytes list" where
  "send_rest ok ch data offset seq i =
     (if offset < length data then
        if ok i then
          next_report ch seq (drop offset data) #
            send_rest ok ch data (offset + min 59 (length data - offset)) (seq + 1) (i + 1)
        else []
      else [])"
  by pat_completeness auto

termination by (relation "measure (\<lambda>(ok, ch, data, offset, seq, i). length data - offset)") auto

declare send_rest.simps [simp del]

definition sendCtapResponse :: "(nat \<Rightarrow> bool) \<Rightarrow> u32 \<Rightarrow> u8 \<Rightarrow> bytes \<Rightarrow> bytes list" where
  "sendCtapResponse ok ch cmd data =
     (if ok 0 then first_report ch cmd data # send_rest ok ch data (min 57 (length data)) 0 1
      else [])"

section \<open>Receiving\<close>

text \<open>\<open>memcpy(dst + offset, src, n)\<close>\<close>

definition copy_to :: "bytes option \<Rightarrow> nat \<Rightarrow> bytes \<Rightarrow> bytes option option" where
  "copy_to dst offset src =
     (if src = [] then Some dst
      else case dst of
        None \<Rightarrow> None
      | Some d \<Rightarrow> if offset + length src \<le> length d
          then Some (Some (take offset d @ src @ drop (offset + length src) d)) else None)"

text \<open>The \<open>n\<close> bytes at \<open>&buffer[i]\<close>.\<close>

definition slice :: "bytes \<Rightarrow> nat \<Rightarrow> nat \<Rightarrow> bytes option" where
  "slice buf i n = (if i + n \<le> length buf then Some (take n (drop i buf)) else None)"

definition read_channel :: "bytes \<Rightarrow> u32" where
  "read_channel buf = push_bit 24 (ucast (buf ! 0)) OR push_bit 16 (ucast (buf ! 1)) OR
     push_bit 8 (ucast (buf ! 2)) OR ucast (buf ! 3)"

definition be16 :: "u8 \<Rightarrow> u8 \<Rightarrow> nat" where
  "be16 hi lo = unat hi * 256 + unat lo"

definition error_reply :: "env \<Rightarrow> u32 \<Rightarrow> u8 \<Rightarrow> bytes list" where
  "error_reply e ch code = sendCtapResponse (sent e) ch CTAPHID_ERROR [code]"

text \<open>The two assignments that drop the transaction in progress.\<close>

definition drop_transaction :: "dev \<Rightarrow> dev" where
  "drop_transaction s = s\<lparr>ctapExpectedLen := 0, ctapReceivedLen := 0\<rparr>"

text \<open>
  The branches of \<open>_onOutput\<close> return whether the code falls through to the completion test, the
  reports sent, and the state.
\<close>

definition on_init_packet ::
  "env \<Rightarrow> u32 \<Rightarrow> bytes \<Rightarrow> dev \<Rightarrow> (bool \<times> bytes list \<times> dev) option" where
  "on_init_packet e ch buf s =
     (let cmd = buf ! 4 in
      if cmd = CTAPHID_CANCEL then
        Some (False, [], s\<lparr>pendingChannel := ch, pendingCmd := CTAPHID_CANCEL, pendingLen := 0,
          hasPendingCommand := True\<rparr>)
      else if hasPendingCommand s \<and> ch = pendingChannel s then Some (False, [], s)
      else if hasPendingCommand s then Some (False, error_reply e ch 5, s)
      else
        let s = s\<lparr>ctapCurrentCmd := cmd, ctapExpectedLen := be16 (buf ! 5) (buf ! 6),
          ctapCurrentChannel := ch\<rparr> in
        if 7609 < ctapExpectedLen s then
          Some (False, error_reply e ch 1, drop_transaction s)
        else
          let grow = ctapBufferCapacity s < ctapExpectedLen s;
              s = (if grow then s\<lparr>ctapBuffer := alloc e (ctapExpectedLen s)\<rparr> else s) in
          if grow \<and> ctapBuffer s = None then Some (False, error_reply e ch 1, s)
          else
            let s = (if grow then s\<lparr>ctapBufferCapacity := ctapExpectedLen s\<rparr> else s);
                s = s\<lparr>ctapReceivedLen := min 57 (ctapExpectedLen s)\<rparr> in
            if length buf < 7 + ctapReceivedLen s then Some (False, [], drop_transaction s)
            else do {
              src \<leftarrow> slice buf 7 (ctapReceivedLen s);
              b \<leftarrow> copy_to (ctapBuffer s) 0 src;
              Some (True, [], s\<lparr>ctapBuffer := b, ctapExpectedSeq := 0,
                lastPacketTime := millis e\<rparr>) })"

definition on_cont_packet ::
  "env \<Rightarrow> u32 \<Rightarrow> bytes \<Rightarrow> dev \<Rightarrow> (bool \<times> bytes list \<times> dev) option" where
  "on_cont_packet e ch buf s =
     (if ctapExpectedLen s = 0 \<or> ch \<noteq> ctapCurrentChannel s then Some (False, [], s)
      else if buf ! 4 \<noteq> ctapExpectedSeq s then
        Some (False, error_reply e ch 4, drop_transaction s)
      else
        let s = s\<lparr>ctapExpectedSeq := ctapExpectedSeq s + 1\<rparr>;
            chunk = min 59 (ctapExpectedLen s - ctapReceivedLen s) in
        if ctapBufferCapacity s < ctapReceivedLen s
          \<or> ctapBufferCapacity s - ctapReceivedLen s < chunk
        then Some (False, error_reply e ch 1, drop_transaction s)
        else if length buf < 5 + chunk then
          Some (False, error_reply e ch 1, drop_transaction s)
        else do {
          src \<leftarrow> slice buf 5 chunk;
          b \<leftarrow> copy_to (ctapBuffer s) (ctapReceivedLen s) src;
          Some (True, [], s\<lparr>ctapBuffer := b, ctapReceivedLen := ctapReceivedLen s + chunk,
            lastPacketTime := millis e\<rparr>) })"

text \<open>The completion test: a complete message is handed over to the main loop.\<close>

definition hand_over :: "env \<Rightarrow> u32 \<Rightarrow> dev \<Rightarrow> dev option" where
  "hand_over e ch s =
     (if 0 < ctapExpectedLen s \<and> ctapExpectedLen s \<le> ctapReceivedLen s then do {
        let s = (if pendingDataCapacity s < ctapExpectedLen s
           then s\<lparr>pendingData := alloc e (ctapExpectedLen s),
                  pendingDataCapacity := ctapExpectedLen s\<rparr> else s);
        s \<leftarrow> (case pendingData s of
           None \<Rightarrow> Some s
         | Some _ \<Rightarrow> do {
             b \<leftarrow> ctapBuffer s;
             src \<leftarrow> slice b 0 (ctapExpectedLen s);
             d \<leftarrow> copy_to (pendingData s) 0 src;
             Some (s\<lparr>pendingChannel := ch, pendingCmd := ctapCurrentCmd s, pendingData := d,
               pendingLen := ctapExpectedLen s, hasPendingCommand := True\<rparr>) });
        Some (drop_transaction s) }
      else Some s)"

definition onOutput :: "env \<Rightarrow> bytes \<Rightarrow> dev \<Rightarrow> (bytes list \<times> dev) option" where
  "onOutput e buf s =
     (if length buf < 7 then Some ([], s)
      else do {
        let s = (if 0 < ctapExpectedLen s \<and> 500 < millis e - lastPacketTime s
           then s\<lparr>ctapExpectedLen := 0, ctapReceivedLen := 0, ctapExpectedSeq := 0\<rparr> else s);
        let ch = read_channel buf;
        (go, out, s) \<leftarrow> (if buf ! 4 AND 0x80 \<noteq> 0 then on_init_packet e ch buf s
           else on_cont_packet e ch buf s);
        if go then do { s \<leftarrow> hand_over e ch s; Some (out, s) } else Some (out, s) })"

section \<open>Dispatch\<close>

definition isChannelAllocated :: "dev \<Rightarrow> u32 \<Rightarrow> bool" where
  "isChannelAllocated s ch \<longleftrightarrow> ch \<noteq> 0 \<and> ch \<in> set (allocatedChannels s)"

definition MAX_TRACKED_CHANNELS :: nat where
  "MAX_TRACKED_CHANNELS = 4"

definition rememberChannel :: "u32 \<Rightarrow> dev \<Rightarrow> dev" where
  "rememberChannel ch s =
     (if ch \<in> set (allocatedChannels s) then s
      else s\<lparr>allocatedChannels := (allocatedChannels s)[nextChannelSlot s := ch],
             nextChannelSlot := (nextChannelSlot s + 1) mod MAX_TRACKED_CHANNELS\<rparr>)"

text \<open>
  \<open>processU2fCommand\<close> and \<open>processCborCommand\<close> are parameters here; a handler gets the channel and
  the message and returns the responses (command and data) it sends on the channel.
\<close>

type_synonym handler = "u32 \<Rightarrow> bytes \<Rightarrow> (u8 \<times> bytes) list"

definition processCtapCommand ::
  "handler \<Rightarrow> handler \<Rightarrow> env \<Rightarrow> u32 \<Rightarrow> u8 \<Rightarrow> bytes \<Rightarrow> dev \<Rightarrow> bytes list \<times> dev" where
  "processCtapCommand u2f cbor e ch cmd data s =
     (let send = (\<lambda>c d. sendCtapResponse (sent e) ch c d);
          run = (\<lambda>h. concat (map (\<lambda>(c, d). send c d) (h ch data))) in
      if cmd = CTAPHID_INIT then
        if length data < 8 then (error_reply e ch 1, s)
        else
          let newCid = (if ch = 0xFFFFFFFF \<or> \<not> isChannelAllocated s ch
                then (if esp_random e = 0 then 1 else esp_random e) else ch);
              s = rememberChannel newCid (s\<lparr>activeChannelID := newCid\<rparr>) in
          (send CTAPHID_INIT (take 8 data @ channel_bytes newCid @ [2, 1, 1, 0, 4]), s)
      else if cmd = CTAPHID_PING then (send CTAPHID_PING data, s)
      else if cmd = CTAPHID_WINK \<and> isChannelAllocated s ch then (send CTAPHID_WINK [], s)
      else if cmd = CTAPHID_CANCEL \<and> isChannelAllocated s ch then ([], s)
      else if cmd = CTAPHID_MSG \<and> isChannelAllocated s ch then (run u2f, s)
      else if cmd = CTAPHID_CBOR \<and> isChannelAllocated s ch then (run cbor, s)
      else (error_reply e ch 1, s))"

definition poll :: "handler \<Rightarrow> handler \<Rightarrow> env \<Rightarrow> dev \<Rightarrow> (bytes list \<times> dev) option" where
  "poll u2f cbor e s =
     (if \<not> hasPendingCommand s then Some ([], s)
      else
        let ch = pendingChannel s; cmd = pendingCmd s; dlen = pendingLen s in
        if dlen = 0 then
          Some (processCtapCommand u2f cbor e ch cmd [] (s\<lparr>hasPendingCommand := False\<rparr>))
        else case alloc e dlen of
          None \<Rightarrow> Some ([], s\<lparr>hasPendingCommand := False\<rparr>)
        | Some block \<Rightarrow> do {
            p \<leftarrow> pendingData s;
            src \<leftarrow> slice p 0 dlen;
            d \<leftarrow> copy_to (Some block) 0 src;
            data \<leftarrow> d;
            Some (processCtapCommand u2f cbor e ch cmd (take dlen data)
              (s\<lparr>hasPendingCommand := False\<rparr>)) })"

section \<open>Memory safety\<close>

text \<open>\<open>malloc\<close> succeeds and returns a block of the requested size.\<close>

definition alloc_ok :: "env \<Rightarrow> bool" where
  "alloc_ok e \<longleftrightarrow> (\<forall>n. \<exists>b. alloc e n = Some b \<and> length b = n)"

text \<open>A block and the variable that records its size.\<close>

fun block :: "bytes option \<Rightarrow> nat \<Rightarrow> bool" where
  "block None n \<longleftrightarrow> n = 0"
| "block (Some d) n \<longleftrightarrow> length d = n"

definition dev_inv :: "dev \<Rightarrow> bool" where
  "dev_inv s \<longleftrightarrow> block (ctapBuffer s) (ctapBufferCapacity s) \<and>
     block (pendingData s) (pendingDataCapacity s) \<and>
     ctapReceivedLen s \<le> ctapExpectedLen s \<and> ctapExpectedLen s \<le> ctapBufferCapacity s \<and>
     ctapBufferCapacity s \<le> 7609 \<and> pendingLen s \<le> pendingDataCapacity s \<and>
     pendingDataCapacity s \<le> 7609 \<and>
     (hasPendingCommand s \<and> 0 < pendingLen s \<longrightarrow> ctapExpectedLen s = 0) \<and>
     length (allocatedChannels s) = MAX_TRACKED_CHANNELS \<and> nextChannelSlot s < MAX_TRACKED_CHANNELS"

lemma dev_inv_new: "dev_inv new_dev"
  by (simp add: dev_inv_def new_dev_def MAX_TRACKED_CHANNELS_def)

lemma copy_to_block:
  "block dst n \<Longrightarrow> off + length src \<le> n \<Longrightarrow>
    \<exists>d. copy_to dst off src = Some d \<and> block d n \<and> (src \<noteq> [] \<longrightarrow> d \<noteq> None)"
  by (cases dst) (auto simp: copy_to_def)

lemma inv_drop: "dev_inv s \<Longrightarrow> dev_inv (drop_transaction s)"
  by (simp add: dev_inv_def drop_transaction_def)

lemma alloc_okE:
  assumes "alloc_ok e" obtains b where "alloc e n = Some b" "length b = n"
  using assms by (auto simp: alloc_ok_def)

text \<open>What a branch of \<open>_onOutput\<close> keeps, and what it knows when it falls through.\<close>

definition branch_ok :: "(bool \<times> bytes list \<times> dev) option \<Rightarrow> bool" where
  "branch_ok r \<longleftrightarrow> (\<exists>go out s. r = Some (go, out, s) \<and> dev_inv s \<and>
     (go \<longrightarrow> (0 < ctapExpectedLen s \<longrightarrow> ctapBuffer s \<noteq> None)))"

lemma on_init_packet_ok:
  assumes e: "alloc_ok e" and s: "dev_inv s"
  shows "branch_ok (on_init_packet e ch buf s)"
proof -
  define n where "n = be16 (buf ! 5) (buf ! 6)"
  obtain b where b: "alloc e n = Some b" "length b = n" using e by (rule alloc_okE)
  define s1 where "s1 = s\<lparr>ctapCurrentCmd := buf ! 4, ctapExpectedLen := n, ctapCurrentChannel := ch\<rparr>"
  define s2 where "s2 = (if ctapBufferCapacity s < n
     then s1\<lparr>ctapBuffer := Some b, ctapBufferCapacity := n\<rparr> else s1)"
  define s3 where "s3 = s2\<lparr>ctapReceivedLen := min 57 n\<rparr>"
  have eq: "on_init_packet e ch buf s =
     (if buf ! 4 = CTAPHID_CANCEL then
        Some (False, [], s\<lparr>pendingChannel := ch, pendingCmd := CTAPHID_CANCEL, pendingLen := 0,
          hasPendingCommand := True\<rparr>)
      else if hasPendingCommand s \<and> ch = pendingChannel s then Some (False, [], s)
      else if hasPendingCommand s then Some (False, error_reply e ch 5, s)
      else if 7609 < n then Some (False, error_reply e ch 1, drop_transaction s1)
      else if length buf < 7 + min 57 n then Some (False, [], drop_transaction s3)
      else do {
        src \<leftarrow> slice buf 7 (min 57 n);
        d \<leftarrow> copy_to (ctapBuffer s3) 0 src;
        Some (True, [], s3\<lparr>ctapBuffer := d, ctapExpectedSeq := 0, lastPacketTime := millis e\<rparr>) })"
    using b by (simp add: on_init_packet_def Let_def s1_def s2_def s3_def n_def [symmetric])
  show ?thesis
  proof (cases "hasPendingCommand s \<or> buf ! 4 = CTAPHID_CANCEL \<or> 7609 < n")
    case True
    then show ?thesis
      using s inv_drop [of s1] unfolding eq
      by (auto simp: branch_ok_def dev_inv_def s1_def drop_transaction_def)
  next
    case False
    then have 3: "dev_inv s3" "ctapExpectedLen s3 = n" "ctapReceivedLen s3 = min 57 n"
      using s b by (auto simp: dev_inv_def s3_def s2_def s1_def)
    show ?thesis
    proof (cases "length buf < 7 + min 57 n")
      case True
      with False 3 show ?thesis unfolding eq by (auto simp: branch_ok_def inv_drop)
    next
      case F2: False
      then have src: "slice buf 7 (min 57 n) = Some (take (min 57 n) (drop 7 buf))"
        by (simp add: slice_def)
      obtain d where d: "copy_to (ctapBuffer s3) 0 (take (min 57 n) (drop 7 buf)) = Some d"
        "block d (ctapBufferCapacity s3)" "take (min 57 n) (drop 7 buf) \<noteq> [] \<longrightarrow> d \<noteq> None"
        using copy_to_block [of "ctapBuffer s3" "ctapBufferCapacity s3" 0 "take (min 57 n) (drop 7 buf)"] 3
        by (force simp: dev_inv_def)
      have "0 < n \<Longrightarrow> d \<noteq> None" using d(3) F2 by auto
      with False F2 3 d(1,2) show ?thesis
        unfolding eq src by (auto simp: branch_ok_def dev_inv_def)
    qed
  qed
qed

lemma on_cont_packet_ok:
  assumes s: "dev_inv s"
  shows "branch_ok (on_cont_packet e ch buf s)"
proof -
  let ?c = "min 59 (ctapExpectedLen s - ctapReceivedLen s)"
  let ?src = "take ?c (drop 5 buf)"
  obtain d where d: "copy_to (ctapBuffer s) (ctapReceivedLen s) ?src = Some d"
    "block d (ctapBufferCapacity s)"
    using copy_to_block [of "ctapBuffer s" "ctapBufferCapacity s" "ctapReceivedLen s" ?src] s
    by (force simp: dev_inv_def)
  have "ctapBuffer s \<noteq> None \<Longrightarrow> d \<noteq> None"
    using d(1) by (cases d) (auto simp: copy_to_def split: if_splits option.splits)
  then have d3: "0 < ctapExpectedLen s \<Longrightarrow> d \<noteq> None"
    using s by (cases "ctapBuffer s") (auto simp: dev_inv_def)
  have i: "dev_inv (s\<lparr>ctapExpectedSeq := q\<rparr>)" for q using s by (simp add: dev_inv_def)
  show ?thesis
    using s inv_drop [OF s] inv_drop [OF i] d d3
    unfolding branch_ok_def on_cont_packet_def
    by (auto simp: Let_def slice_def dev_inv_def drop_transaction_def)
qed

lemma hand_over_ok:
  assumes "alloc_ok e" "dev_inv s" "0 < ctapExpectedLen s \<longrightarrow> ctapBuffer s \<noteq> None"
  shows "\<exists>s'. hand_over e ch s = Some s' \<and> dev_inv s'"
proof (cases "0 < ctapExpectedLen s \<and> ctapExpectedLen s \<le> ctapReceivedLen s")
  case False
  with assms show ?thesis by (auto simp: hand_over_def)
next
  case True
  obtain b where b: "alloc e (ctapExpectedLen s) = Some b" "length b = ctapExpectedLen s"
    using assms(1) by (rule alloc_okE)
  obtain c where c: "ctapBuffer s = Some c" using True assms(3) by auto
  have l: "ctapExpectedLen s \<le> length c" using assms(2) c by (simp add: dev_inv_def)
  show ?thesis
    using True assms(2) b c l
    by (cases "pendingData s")
      (auto simp: hand_over_def dev_inv_def Let_def slice_def copy_to_def drop_transaction_def)
qed

lemma onOutput_ok:
  assumes e: "alloc_ok e" and s: "dev_inv s"
  shows "\<exists>out s'. onOutput e buf s = Some (out, s') \<and> dev_inv s'"
proof -
  define s1 where "s1 = (if 0 < ctapExpectedLen s \<and> 500 < millis e - lastPacketTime s
     then s\<lparr>ctapExpectedLen := 0, ctapReceivedLen := 0, ctapExpectedSeq := 0\<rparr> else s)"
  have s1: "dev_inv s1" using s by (simp add: s1_def dev_inv_def)
  define r where "r = (if buf ! 4 AND 0x80 \<noteq> 0 then on_init_packet e (read_channel buf) buf s1
     else on_cont_packet e (read_channel buf) buf s1)"
  have "branch_ok r"
    using on_init_packet_ok [OF e s1] on_cont_packet_ok [OF s1] by (simp add: r_def)
  then obtain go out s2 where r: "r = Some (go, out, s2)" "dev_inv s2"
    "go \<longrightarrow> (0 < ctapExpectedLen s2 \<longrightarrow> ctapBuffer s2 \<noteq> None)"
    by (auto simp: branch_ok_def)
  have "onOutput e buf s = (if length buf < 7 then Some ([], s)
      else if go then do { s \<leftarrow> hand_over e (read_channel buf) s2; Some (out, s) }
      else Some (out, s2))"
    unfolding onOutput_def Let_def s1_def [symmetric] r_def [symmetric] r(1) by simp
  moreover have "\<exists>s'. go \<longrightarrow> hand_over e (read_channel buf) s2 = Some s' \<and> dev_inv s'"
    using hand_over_ok [OF e r(2)] r(3) by auto
  ultimately show ?thesis using r(2) s by (cases go) auto
qed

lemma processCtapCommand_inv:
  "dev_inv s \<Longrightarrow> dev_inv (snd (processCtapCommand u2f cbor e ch cmd data s))"
  by (auto simp: processCtapCommand_def Let_def rememberChannel_def dev_inv_def
      MAX_TRACKED_CHANNELS_def)

text \<open>What a call of \<open>poll\<close> dispatches: the first \<open>pendingLen\<close> bytes of the pending message.\<close>

lemma poll_dispatch:
  assumes e: "alloc_ok e" and s: "dev_inv s" and p: "hasPendingCommand s"
  shows "\<exists>d. poll u2f cbor e s = Some (processCtapCommand u2f cbor e (pendingChannel s)
      (pendingCmd s) d (s\<lparr>hasPendingCommand := False\<rparr>)) \<and>
    d = (case pendingData s of None \<Rightarrow> [] | Some p \<Rightarrow> take (pendingLen s) p) \<and>
    length d = pendingLen s"
proof -
  obtain b where b: "alloc e (pendingLen s) = Some b" "length b = pendingLen s"
    using e by (rule alloc_okE)
  show ?thesis
    using s p b
    by (cases "pendingData s"; cases "pendingLen s = 0")
      (auto simp: poll_def Let_def slice_def copy_to_def dev_inv_def)
qed

lemma processCtapCommand_pending:
  "hasPendingCommand (snd (processCtapCommand u2f cbor e ch cmd data t)) = hasPendingCommand t"
  by (auto simp: processCtapCommand_def Let_def rememberChannel_def)

lemma poll_ok:
  assumes e: "alloc_ok e" and s: "dev_inv s"
  shows "\<exists>out s'. poll u2f cbor e s = Some (out, s') \<and> dev_inv s' \<and> \<not> hasPendingCommand s'"
proof (cases "hasPendingCommand s")
  case True
  obtain d where d: "poll u2f cbor e s = Some (processCtapCommand u2f cbor e (pendingChannel s)
      (pendingCmd s) d (s\<lparr>hasPendingCommand := False\<rparr>))"
    using poll_dispatch [OF e s True] by blast
  have "dev_inv (s\<lparr>hasPendingCommand := False\<rparr>)" using s by (simp add: dev_inv_def)
  then have "dev_inv (snd (processCtapCommand u2f cbor e (pendingChannel s) (pendingCmd s) d
      (s\<lparr>hasPendingCommand := False\<rparr>)))"
    by (rule processCtapCommand_inv)
  moreover have "\<not> hasPendingCommand (snd (processCtapCommand u2f cbor e (pendingChannel s)
      (pendingCmd s) d (s\<lparr>hasPendingCommand := False\<rparr>)))"
    by (simp add: processCtapCommand_pending)
  ultimately show ?thesis
    unfolding d by (cases "processCtapCommand u2f cbor e (pendingChannel s) (pendingCmd s) d
        (s\<lparr>hasPendingCommand := False\<rparr>)") simp
next
  case False
  with s show ?thesis by (simp add: poll_def)
qed

section \<open>Steps\<close>

text \<open>The device between two events: a report from the host, or a turn of the main loop.\<close>

inductive ctap_step :: "handler \<Rightarrow> handler \<Rightarrow> dev \<Rightarrow> dev \<Rightarrow> bool" for u2f cbor where
  usb_report: "alloc_ok e \<Longrightarrow> onOutput e buf s = Some (out, s') \<Longrightarrow> ctap_step u2f cbor s s'"
| main_loop: "alloc_ok e \<Longrightarrow> poll u2f cbor e s = Some (out, s') \<Longrightarrow> ctap_step u2f cbor s s'"

inductive reachable :: "handler \<Rightarrow> handler \<Rightarrow> dev \<Rightarrow> bool" for u2f cbor where
  start: "reachable u2f cbor new_dev"
| step: "reachable u2f cbor s \<Longrightarrow> ctap_step u2f cbor s s' \<Longrightarrow> reachable u2f cbor s'"

lemma ctap_step_inv: "ctap_step u2f cbor s s' \<Longrightarrow> dev_inv s \<Longrightarrow> dev_inv s'"
proof (induction rule: ctap_step.induct)
  case (usb_report e buf s out s')
  then show ?case using onOutput_ok [of e s buf] by auto
next
  case (main_loop e s out s')
  then show ?case using poll_ok [of e s u2f cbor] by auto
qed

lemma reachable_inv: "reachable u2f cbor s \<Longrightarrow> dev_inv s"
  by (induction rule: reachable.induct) (auto intro: dev_inv_new ctap_step_inv)

section \<open>A pending message is not overwritten\<close>

definition same_pending :: "dev \<Rightarrow> dev \<Rightarrow> bool" where
  "same_pending s s' \<longleftrightarrow> hasPendingCommand s' = hasPendingCommand s \<and>
     pendingChannel s' = pendingChannel s \<and> pendingCmd s' = pendingCmd s \<and>
     pendingData s' = pendingData s \<and> pendingLen s' = pendingLen s"

lemma on_init_pending:
  assumes "hasPendingCommand s" "on_init_packet e ch buf s = Some (go, out, s')"
  shows "\<not> go \<and> (same_pending s s' \<or>
    buf ! 4 = CTAPHID_CANCEL \<and> hasPendingCommand s' \<and> pendingCmd s' = CTAPHID_CANCEL \<and>
    pendingLen s' = 0)"
  using assms by (auto simp: on_init_packet_def same_pending_def Let_def split: if_splits)

lemma onOutput_pending:
  assumes "dev_inv s" "hasPendingCommand s" "0 < pendingLen s" "onOutput e buf s = Some (out, s')"
  shows "same_pending s s' \<or> pendingCmd s' = CTAPHID_CANCEL \<and> pendingLen s' = 0"
proof -
  have z: "ctapExpectedLen s = 0" using assms by (simp add: dev_inv_def)
  show ?thesis
  proof (cases "length buf < 7 \<or> buf ! 4 AND 0x80 = 0")
    case True
    then have "onOutput e buf s = Some ([], s)"
      using z by (auto simp: onOutput_def on_cont_packet_def)
    with assms(4) show ?thesis by (simp add: same_pending_def)
  next
    case False
    then have "do { (go, out, s) \<leftarrow> on_init_packet e (read_channel buf) buf s;
        if go then do { s \<leftarrow> hand_over e (read_channel buf) s; Some (out, s) } else Some (out, s) }
      = Some (out, s')"
      using z assms(4) by (simp add: onOutput_def Let_def)
    then show ?thesis
      using on_init_pending [OF assms(2), of e "read_channel buf" buf]
      by (cases "on_init_packet e (read_channel buf) buf s") (auto split: if_splits)
  qed
qed

section \<open>Reading back what a report carries\<close>

lemma bytes_of_channel:
  "push_bit 24 (ucast (ucast (drop_bit 24 ch AND 255) :: u8)) OR
   push_bit 16 (ucast (ucast (drop_bit 16 ch AND 255) :: u8)) OR
   push_bit 8 (ucast (ucast (drop_bit 8 ch AND 255) :: u8)) OR
   ucast (ucast (ch AND 255) :: u8) = (ch :: u32)" (is "?L = ch")
proof (rule bit_word_eqI)
  have k: "(255 :: u32) = mask 8" by (simp add: mask_eq_exp_minus_1)
  fix n assume "n < LENGTH(32)"
  then consider "n < 8" | "8 \<le> n" "n < 16" | "16 \<le> n" "n < 24" | "24 \<le> n" "n < 32"
    by fastforce
  then show "bit ?L n = bit ch n"
    unfolding k by cases (auto simp: bit_simps)
qed

lemma read_channel_bytes: "read_channel (channel_bytes ch @ rest) = ch"
  using bytes_of_channel [of ch] by (simp add: read_channel_def channel_bytes_def)

lemma length_channel_bytes [simp]: "length (channel_bytes ch) = 4"
  by (simp add: channel_bytes_def)

lemma be16_bytes: "n < 65536 \<Longrightarrow> be16 (of_nat (n div 256)) (of_nat n) = n"
  by (simp add: be16_def unat_of_nat take_bit_eq_mod)

lemma length_report: "length bs \<le> 64 \<Longrightarrow> length (report bs) = 64"
  by (simp add: report_def)

lemma report_shape:
  assumes "length d \<le> 59"
  shows "read_channel (report (channel_bytes ch @ [b] @ d)) = ch"
    "report (channel_bytes ch @ [b] @ d) ! 4 = b"
    "n \<le> length d \<Longrightarrow> take n (drop 5 (report (channel_bytes ch @ [b] @ d))) = take n d"
    "length (report (channel_bytes ch @ [b] @ d)) = 64"
  using assms by (simp_all add: report_def read_channel_bytes nth_append)

lemma first_report_shape:
  fixes r ch cmd assumes "length data < 65536" defines "r \<equiv> first_report ch cmd data"
  shows "read_channel r = ch" "r ! 4 = cmd" "be16 (r ! 5) (r ! 6) = length data" "length r = 64"
    "take (min 57 (length data)) (drop 7 r) = take 57 data"
proof -
  have e: "r = report (channel_bytes ch @ [cmd] @
      ([of_nat (length data div 256), of_nat (length data)] @ take 57 data))"
    by (simp add: r_def first_report_def)
  note sh = report_shape [where ch = ch and b = cmd and
      d = "[of_nat (length data div 256), of_nat (length data)] @ take 57 data"]
  show "read_channel r = ch" "r ! 4 = cmd" "length r = 64"
    unfolding e by (rule sh; simp)+
  show "be16 (r ! 5) (r ! 6) = length data"
    using be16_bytes [OF assms(1)] unfolding e by (simp add: report_def nth_append)
  show "take (min 57 (length data)) (drop 7 r) = take 57 data"
    by (simp add: e report_def min_def)
qed

lemma low_bits7: "(x :: u8) < 128 \<Longrightarrow> x AND 0x7F = x" "(x :: u8) < 128 \<Longrightarrow> x AND 0x80 = 0"
proof -
  assume x: "x < 128"
  show "x AND 0x7F = x" using less_mask_eq [of x 7] x by (simp add: mask_eq_exp_minus_1)
  show "x AND 0x80 = 0"
  proof (rule bit_word_eqI)
    fix n
    have k: "(0x80 :: u8) = push_bit 7 1" by (simp add: push_bit_eq_mult)
    have "bit x n \<Longrightarrow> n < 7" using x by (intro bit_imp_small [of x 7]) simp_all
    then show "bit (x AND 0x80) n = bit (0 :: u8) n"
      unfolding k by (auto simp: bit_simps simp del: push_bit_of_1)
  qed
qed


section \<open>Reassembly\<close>

text \<open>The host sends reports one after the other; each arrives in an environment of its own.\<close>

fun feed :: "(env \<times> bytes) list \<Rightarrow> dev \<Rightarrow> (bytes list \<times> dev) option" where
  "feed [] s = Some ([], s)"
| "feed ((e, r) # rs) s = do {
     (out, s) \<leftarrow> onOutput e r s;
     (outs, s) \<leftarrow> feed rs s;
     Some (out @ outs, s) }"

text \<open>No report comes later than 500 ms after the one before it.\<close>

fun on_time :: "u32 \<Rightarrow> env list \<Rightarrow> bool" where
  "on_time now [] \<longleftrightarrow> True"
| "on_time now (e # es) \<longleftrightarrow> alloc_ok e \<and> millis e - now \<le> 500 \<and> on_time (millis e) es"

definition receiving :: "u32 \<Rightarrow> u8 \<Rightarrow> bytes \<Rightarrow> nat \<Rightarrow> u8 \<Rightarrow> u32 \<Rightarrow> dev \<Rightarrow> bool" where
  "receiving ch cmd data off seq now s \<longleftrightarrow> dev_inv s \<and> \<not> hasPendingCommand s \<and>
     ctapCurrentCmd s = cmd \<and> ctapCurrentChannel s = ch \<and> ctapExpectedLen s = length data \<and>
     ctapReceivedLen s = off \<and> off < length data \<and> ctapExpectedSeq s = seq \<and>
     lastPacketTime s = now \<and> (\<exists>b. ctapBuffer s = Some b \<and> take off b = take off data)"

definition delivered :: "u32 \<Rightarrow> u8 \<Rightarrow> bytes \<Rightarrow> dev \<Rightarrow> bool" where
  "delivered ch cmd data s \<longleftrightarrow> dev_inv s \<and> hasPendingCommand s \<and> pendingChannel s = ch \<and>
     pendingCmd s = cmd \<and> pendingLen s = length data \<and>
     (\<exists>p. pendingData s = Some p \<and> take (length data) p = data)"

lemma hand_over_delivered:
  assumes "alloc_ok e" "dev_inv s" "ctapExpectedLen s = length data" "0 < length data"
    and "ctapReceivedLen s = length data" "ctapBuffer s = Some b" "take (length data) b = data"
    and "ctapCurrentCmd s = cmd"
  shows "\<exists>s'. hand_over e ch s = Some s' \<and> delivered ch cmd data s'"
proof -
  obtain a where a: "alloc e (length data) = Some a" "length a = length data"
    using assms(1) by (rule alloc_okE)
  obtain s' where s': "hand_over e ch s = Some s'" "dev_inv s'"
    using hand_over_ok [OF assms(1,2)] assms(6) by auto
  have l: "length data \<le> length b" using assms by (simp add: dev_inv_def)
  have "delivered ch cmd data s'"
    using s' assms a l
    by (cases "pendingData s")
      (auto simp: hand_over_def Let_def slice_def copy_to_def drop_transaction_def delivered_def
        dev_inv_def split: if_splits)
  with s' show ?thesis by blast
qed

text \<open>After a packet that took the count to \<open>off\<close>: the message is handed over or awaits the rest.\<close>

definition progressed :: "u32 \<Rightarrow> u8 \<Rightarrow> bytes \<Rightarrow> nat \<Rightarrow> u8 \<Rightarrow> u32 \<Rightarrow> dev \<Rightarrow> bool" where
  "progressed ch cmd data off seq now s \<longleftrightarrow>
     (if off < length data then receiving ch cmd data off seq now s else delivered ch cmd data s)"

lemma fall_through:
  assumes e: "alloc_ok e" and s: "dev_inv s" "\<not> hasPendingCommand s" "ctapCurrentCmd s = cmd"
      "ctapCurrentChannel s = ch" "ctapExpectedLen s = length data" "ctapReceivedLen s = off"
      "ctapExpectedSeq s = seq" "lastPacketTime s = now" "ctapBuffer s = Some b"
      "take off b = take off data" and d: "0 < length data"
  shows "\<exists>s'. hand_over e ch s = Some s' \<and> progressed ch cmd data off seq now s'"
proof (cases "off < length data")
  case True
  with s show ?thesis
    by (auto simp: hand_over_def progressed_def receiving_def)
next
  case False
  then have "off = length data" using s by (simp add: dev_inv_def)
  with s d show ?thesis
    using hand_over_delivered [OF e s(1), of data b cmd ch] by (simp add: progressed_def)
qed

lemma copy_to_extends:
  assumes "take off b = take off data" "off + n \<le> length b" "off + n \<le> length data"
  shows "\<exists>b'. copy_to (Some b) off (take n (drop off data)) = Some (Some b') \<and>
    length b' = length b \<and> take (off + n) b' = take (off + n) data"
  using assms by (auto simp: copy_to_def take_add min_def)

lemma receive_first:
  assumes e: "alloc_ok e" and s: "dev_inv s" "\<not> hasPendingCommand s"
    and d: "0 < length data" "length data \<le> 7609"
    and c: "cmd AND 0x80 \<noteq> 0" "cmd \<noteq> CTAPHID_CANCEL"
  shows "\<exists>s'. onOutput e (first_report ch cmd data) s = Some ([], s') \<and>
    progressed ch cmd data (min 57 (length data)) 0 (millis e) s'"
proof -
  define r where "r = first_report ch cmd data"
  let ?m = "min 57 (length data)"
  have r: "read_channel r = ch" "r ! 4 = cmd" "be16 (r ! 5) (r ! 6) = length data" "length r = 64"
    "take ?m (drop 7 r) = take 57 data"
    using first_report_shape [of data ch cmd] d by (simp_all add: r_def)
  define s0 where "s0 = (if 0 < ctapExpectedLen s \<and> 500 < millis e - lastPacketTime s
     then s\<lparr>ctapExpectedLen := 0, ctapReceivedLen := 0, ctapExpectedSeq := 0\<rparr> else s)"
  have s0: "dev_inv s0" "\<not> hasPendingCommand s0" using s by (simp_all add: s0_def dev_inv_def)
  obtain b where b: "alloc e (length data) = Some b" "length b = length data"
    using e by (rule alloc_okE)
  define s1 where "s1 = (if ctapBufferCapacity s0 < length data
     then s0\<lparr>ctapBuffer := Some b, ctapBufferCapacity := length data\<rparr> else s0)
     \<lparr>ctapCurrentCmd := cmd, ctapExpectedLen := length data, ctapCurrentChannel := ch,
      ctapReceivedLen := ?m\<rparr>"
  have s1: "dev_inv s1" "\<not> hasPendingCommand s1" using s0 b d by (auto simp: s1_def dev_inv_def)
  obtain b1 where b1: "ctapBuffer s1 = Some b1" "length data \<le> length b1"
    using s1 d by (cases "ctapBuffer s1") (auto simp: dev_inv_def s1_def)
  obtain b2 where b2: "copy_to (Some b1) 0 (take 57 data) = Some (Some b2)"
    "length b2 = length b1" "take ?m b2 = take ?m data"
  proof -
    have t: "take 57 data = take ?m (drop 0 data)" by (simp add: min_def)
    show thesis using copy_to_extends [of 0 b1 data ?m] b1 that unfolding t by auto
  qed
  define s2 where "s2 = s1\<lparr>ctapBuffer := Some b2, ctapExpectedSeq := 0, lastPacketTime := millis e\<rparr>"
  have "on_init_packet e ch r s0 = Some (True, [], s2)"
  proof -
    have "slice r 7 ?m = Some (take 57 data)" using r by (simp add: slice_def)
    then show ?thesis
      using s0 b c d r b1 b2 by (auto simp: on_init_packet_def Let_def s2_def s1_def)
  qed
  then have o: "onOutput e r s = do { s \<leftarrow> hand_over e ch s2; Some ([], s) }"
    using r c unfolding onOutput_def Let_def s0_def [symmetric] by simp
  have "dev_inv s2" using s1 b1 b2 by (simp add: s2_def dev_inv_def)
  then have "\<exists>s'. hand_over e ch s2 = Some s' \<and> progressed ch cmd data ?m 0 (millis e) s'"
    using s1 b2 by (intro fall_through [OF e, of _ _ _ _ _ _ _ b2]) (use d in \<open>auto simp: s2_def s1_def\<close>)
  with o show ?thesis by (auto simp: r_def)
qed

lemma receive_next:
  assumes e: "alloc_ok e" "millis e - now \<le> 500" and s: "receiving ch cmd data off seq now s"
    and q: "seq < 128"
  defines "n \<equiv> min 59 (length data - off)"
  shows "\<exists>s'. onOutput e (next_report ch seq (drop off data)) s = Some ([], s') \<and>
    progressed ch cmd data (off + n) (seq + 1) (millis e) s'"
proof -
  define r where "r = next_report ch seq (drop off data)"
  have r: "read_channel r = ch" "r ! 4 = seq" "length r = 64" "take n (drop 5 r) = take n (drop off data)"
    using report_shape [where d = "take 59 (drop off data)" and ch = ch and b = "seq AND 0x7F"] low_bits7(1) [OF q]
    by (simp_all add: r_def next_report_def n_def min_def)
  obtain b where b: "ctapBuffer s = Some b" "take off b = take off data"
    using s by (auto simp: receiving_def)
  have l: "length b = ctapBufferCapacity s" "length data \<le> length b" "off < length data"
    using s b by (simp_all add: receiving_def dev_inv_def)
  obtain b' where b': "copy_to (Some b) off (take n (drop off data)) = Some (Some b')"
    "length b' = length b" "take (off + n) b' = take (off + n) data"
  proof -
    have "off + n \<le> length data" using l by (simp add: n_def)
    then show thesis using copy_to_extends [OF b(2), of n] l that by force
  qed
  define s2 where "s2 = s\<lparr>ctapExpectedSeq := seq + 1, ctapBuffer := Some b',
     ctapReceivedLen := off + n, lastPacketTime := millis e\<rparr>"
  have "on_cont_packet e ch r s = Some (True, [], s2)"
  proof -
    have "slice r 5 n = Some (take n (drop off data))" using r by (simp add: slice_def n_def)
    moreover have "min 59 (ctapExpectedLen s - ctapReceivedLen s) = n"
      using s by (simp add: receiving_def n_def)
    moreover have "\<not> ctapBufferCapacity s < off" "\<not> ctapBufferCapacity s - off < n" "n \<le> 59"
      using l unfolding n_def by linarith+
    moreover have "\<not> ctapBufferCapacity s - off < min 59 (length data - off)" "data \<noteq> []"
      using l by (linarith, auto)
    ultimately show ?thesis
      using s r(2,3) b b' l by (simp add: on_cont_packet_def Let_def s2_def receiving_def)
  qed
  then have o: "onOutput e r s = do { s \<leftarrow> hand_over e ch s2; Some ([], s) }"
    using r s e(2) low_bits7(2) [OF q] unfolding onOutput_def Let_def
    by (auto simp: receiving_def not_less)
  have "dev_inv s2" "\<not> hasPendingCommand s2"
    using s b b' l by (auto simp: s2_def dev_inv_def receiving_def n_def)
  then have "\<exists>s'. hand_over e ch s2 = Some s' \<and> progressed ch cmd data (off + n) (seq + 1) (millis e) s'"
    using s b' l by (intro fall_through [OF e(1), of _ _ _ _ _ _ _ b']) (auto simp: s2_def receiving_def)
  with o show ?thesis by (auto simp: r_def)
qed


lemma receive_rest:
  assumes "receiving ch cmd data off seq now s" "on_time now es"
    and "length es = length (send_rest (\<lambda>_. True) ch data off seq i)"
    and "length data - off \<le> 59 * (128 - unat seq)"
  shows "\<exists>s'. feed (zip es (send_rest (\<lambda>_. True) ch data off seq i)) s = Some ([], s') \<and>
    delivered ch cmd data s'"
  using assms
proof (induction "length data - off" arbitrary: off seq now s es i rule: less_induct)
  case less
  have off: "off < length data" using less.prems(1) by (simp add: receiving_def)
  define n where "n = min 59 (length data - off)"
  let ?rest = "send_rest (\<lambda>_. True) ch data (off + n) (seq + 1) (i + 1)"
  have step: "send_rest (\<lambda>_. True) ch data off seq i = next_report ch seq (drop off data) # ?rest"
    using off by (subst send_rest.simps) (simp add: n_def)
  obtain e es' where es: "es = e # es'" "length es' = length ?rest"
    using less.prems(3) unfolding step by (cases es) auto
  have u: "unat seq < 128" using less.prems(4) off by (cases "unat seq < 128") auto
  then have q: "seq < 128" by (simp add: word_less_nat_alt)
  have e: "alloc_ok e" "millis e - now \<le> 500" "on_time (millis e) es'"
    using less.prems(2) by (simp_all add: es)
  obtain s1 where s1: "onOutput e (next_report ch seq (drop off data)) s = Some ([], s1)"
    "progressed ch cmd data (off + n) (seq + 1) (millis e) s1"
    using receive_next [OF e(1,2) less.prems(1) q] by (auto simp: n_def)
  show ?case
  proof (cases "off + n < length data")
    case True
    then have n: "n = 59" by (simp add: n_def min_def split: if_splits)
    have "unat (seq + 1) = unat seq + 1" using u by (simp add: unat_word_ariths)
    then have "length data - (off + n) \<le> 59 * (128 - unat (seq + 1))"
      using less.prems(4) u n by simp
    moreover have "length data - (off + n) < length data - off" using True n by linarith
    ultimately obtain s2 where "feed (zip es' ?rest) s1 = Some ([], s2)" "delivered ch cmd data s2"
      using less.hyps [of "off + n" "seq + 1" "millis e" s1 es' "i + 1"] s1(2) True off e(3) es(2) n
      by (auto simp: progressed_def)
    then show ?thesis by (simp add: step es s1(1))
  next
    case False
    then have "?rest = []" by (subst send_rest.simps) simp
    with False es s1 show ?thesis by (simp add: step progressed_def)
  qed
qed

lemma reassemble:
  assumes "dev_inv s" "\<not> hasPendingCommand s" "0 < length data" "length data \<le> 7609"
    and "cmd AND 0x80 \<noteq> 0" "cmd \<noteq> CTAPHID_CANCEL"
    and "alloc_ok e" "on_time (millis e) es"
    and "length (e # es) = length (sendCtapResponse (\<lambda>_. True) ch cmd data)"
  shows "\<exists>s'. feed (zip (e # es) (sendCtapResponse (\<lambda>_. True) ch cmd data)) s = Some ([], s') \<and>
    delivered ch cmd data s'"
proof -
  let ?m = "min 57 (length data)"
  obtain s1 where s1: "onOutput e (first_report ch cmd data) s = Some ([], s1)"
    "progressed ch cmd data ?m 0 (millis e) s1"
    using receive_first [OF assms(7,1-6)] by auto
  show ?thesis
  proof (cases "?m < length data")
    case True
    have "length data - ?m \<le> 59 * 128" using assms(4) True by linarith
    then have "length data - ?m \<le> 59 * (128 - unat (0 :: u8))" by simp
    then show ?thesis
      using receive_rest [of ch cmd data ?m 0 "millis e" s1 es 1] True s1 assms(8,9)
      by (auto simp: sendCtapResponse_def progressed_def)
  next
    case False
    then have "send_rest (\<lambda>_. True) ch data ?m 0 1 = []" by (subst send_rest.simps) simp
    with False s1 assms(9) show ?thesis
      by (auto simp: sendCtapResponse_def progressed_def)
  qed
qed

lemma delivered_poll:
  assumes "delivered ch cmd data s" "alloc_ok e"
  shows "poll u2f cbor e s =
    Some (processCtapCommand u2f cbor e ch cmd data (s\<lparr>hasPendingCommand := False\<rparr>))"
  using poll_dispatch [of e s u2f cbor] assms by (auto simp: delivered_def)

text \<open>The reports of a response, when the USB stack takes all of them.\<close>

lemma send_rest_reports: "r \<in> set (send_rest ok ch data off seq i) \<Longrightarrow> length r = 64"
proof (induction ok ch data off seq i rule: send_rest.induct)
  case (1 ok ch data off seq i)
  have "length (next_report ch seq rest) = 64" for rest
    using report_shape(4) [of "take 59 rest" ch "seq AND 0x7F"] by (simp add: next_report_def)
  with 1 show ?case by (subst (asm) send_rest.simps) (auto split: if_splits)
qed

lemma sendCtapResponse_reports:
  "length data < 65536 \<Longrightarrow> \<forall>r \<in> set (sendCtapResponse ok ch cmd data). length r = 64"
  using first_report_shape(4) [of data ch cmd] send_rest_reports by (auto simp: sendCtapResponse_def)

section \<open>Channels\<close>

lemma rememberChannel_allocated:
  "dev_inv s \<Longrightarrow> ch \<noteq> 0 \<Longrightarrow> isChannelAllocated (rememberChannel ch s) ch"
  by (auto simp: rememberChannel_def isChannelAllocated_def dev_inv_def set_update_memI)

section \<open>Where the code does not do what it means to\<close>

text \<open>
  A message of length zero (\<open>CTAPHID_WINK\<close>, an empty \<open>CTAPHID_PING\<close>) is never handed over: the
  completion test asks for \<open>ctapExpectedLen > 0\<close>, so the branches of \<open>processCtapCommand\<close> for it
  are dead.
\<close>

lemma empty_message_dropped:
  assumes "\<not> hasPendingCommand s" "cmd AND 0x80 \<noteq> 0" "cmd \<noteq> CTAPHID_CANCEL"
  shows "\<exists>s'. onOutput e (first_report ch cmd []) s = Some ([], s') \<and> \<not> hasPendingCommand s'"
proof -
  define r where "r = first_report ch cmd []"
  have r: "r ! 4 = cmd" "be16 (r ! 5) (r ! 6) = 0" "length r = 64"
    using first_report_shape [of "[]" ch cmd] by (simp_all add: r_def)
  define s0 where "s0 = (if 0 < ctapExpectedLen s \<and> 500 < millis e - lastPacketTime s
     then s\<lparr>ctapExpectedLen := 0, ctapReceivedLen := 0, ctapExpectedSeq := 0\<rparr> else s)"
  have "\<not> hasPendingCommand s0" using assms(1) by (simp add: s0_def)
  then have "\<exists>s1. on_init_packet e (read_channel r) r s0 = Some (True, [], s1) \<and>
      \<not> hasPendingCommand s1 \<and> ctapExpectedLen s1 = 0"
    using assms r by (simp add: on_init_packet_def Let_def slice_def copy_to_def)
  then show ?thesis
    using assms r unfolding r_def [symmetric] onOutput_def Let_def s0_def [symmetric]
    by (auto simp: hand_over_def)
qed

text \<open>
  When the allocation of a larger buffer fails, \<open>ctapBuffer\<close> is NULL while \<open>ctapBufferCapacity\<close>
  still holds the size of the freed block and \<open>ctapExpectedLen\<close> the length of the refused
  message: the next continuation packet passes every test and is copied to address NULL.
\<close>

definition small_heap :: env where
  "small_heap = \<lparr>millis = 0, alloc = (\<lambda>n. if n \<le> 60 then Some (replicate n 0) else None),
     sent = (\<lambda>_. True), esp_random = 7\<rparr>"

lemma failed_malloc_faults:
  "(case feed (map (Pair small_heap) (sendCtapResponse (\<lambda>_. True) 5 CTAPHID_PING (replicate 60 1))) new_dev of
     None \<Rightarrow> False
   | Some (_, s) \<Rightarrow>
     (case onOutput small_heap (first_report 5 CTAPHID_PING (replicate 100 2)) (s\<lparr>hasPendingCommand := False\<rparr>) of
        None \<Rightarrow> False
      | Some (_, s) \<Rightarrow> onOutput small_heap (next_report 5 1 (replicate 43 2)) s = None))"
  by code_simp

section \<open>Properties\<close>

text \<open>
  C13: as long as \<open>malloc\<close> succeeds, no report of the host and no turn of the main loop, in any order
  and with any timing, makes the transport copy outside a buffer.
\<close>

theorem transport_memory_safe:
  assumes "reachable u2f cbor s" "alloc_ok e"
  shows "onOutput e buf s \<noteq> None \<and> poll u2f cbor e s \<noteq> None"
  using onOutput_ok [OF assms(2) reachable_inv [OF assms(1)], of buf]
    poll_ok [OF assms(2) reachable_inv [OF assms(1)], of u2f cbor] by auto

theorem transport_memory_safe_witness:
  "onOutput (small_heap\<lparr>alloc := (\<lambda>n. Some (replicate n 0))\<rparr>) [0, 0, 0, 5, 0x81, 0, 60] new_dev \<noteq> None"
  using transport_memory_safe [OF reachable.start [of "\<lambda>_ _. []" "\<lambda>_ _. []"],
      of "small_heap\<lparr>alloc := (\<lambda>n. Some (replicate n 0))\<rparr>"]
  by (simp add: alloc_ok_def)

text \<open>
  C14: fragmentation and reassembly are inverse: a message of 1 to 7609 bytes, cut into reports the
  way \<open>sendCtapResponse\<close> cuts it and fed to an idle device with at most 500 ms between reports,
  raises no error reply, and the next turn of the main loop dispatches exactly the command and the
  bytes of the message.
\<close>

theorem message_roundtrip:
  assumes "dev_inv s" "\<not> hasPendingCommand s" "0 < length data" "length data \<le> 7609"
    and "cmd AND 0x80 \<noteq> 0" "cmd \<noteq> CTAPHID_CANCEL"
    and "alloc_ok e" "on_time (millis e) es"
    and "length (e # es) = length (sendCtapResponse (\<lambda>_. True) ch cmd data)" "alloc_ok e'"
  shows "\<exists>s'. feed (zip (e # es) (sendCtapResponse (\<lambda>_. True) ch cmd data)) s = Some ([], s') \<and>
    poll u2f cbor e' s' =
      Some (processCtapCommand u2f cbor e' ch cmd data (s'\<lparr>hasPendingCommand := False\<rparr>))"
  using reassemble [OF assms(1-9)] delivered_poll [OF _ assms(10)] by blast

theorem message_roundtrip_witness:
  "\<exists>e s'. feed (zip [e, e] (sendCtapResponse (\<lambda>_. True) 5 CTAPHID_PING (replicate 60 1))) new_dev =
      Some ([], s') \<and>
    poll (\<lambda>_ _. []) (\<lambda>_ _. []) e s' =
      Some (processCtapCommand (\<lambda>_ _. []) (\<lambda>_ _. []) e 5 CTAPHID_PING (replicate 60 1)
        (s'\<lparr>hasPendingCommand := False\<rparr>))"
proof -
  define e where "e = small_heap\<lparr>alloc := (\<lambda>n. Some (replicate n 0))\<rparr>"
  have e: "alloc_ok e" "on_time (millis e) [e]" by (simp_all add: e_def alloc_ok_def)
  have "length (sendCtapResponse (\<lambda>_. True) 5 CTAPHID_PING (replicate 60 1)) = 2"
    by (simp add: sendCtapResponse_def send_rest.simps)
  then show ?thesis
    using message_roundtrip [of new_dev "replicate 60 1" CTAPHID_PING e "[e]" 5 e
        "\<lambda>_ _. []" "\<lambda>_ _. []"] e
    by (auto simp: dev_inv_new new_dev_def [THEN arg_cong, of hasPendingCommand])
qed

text \<open>
  A message that waits for the main loop is never overwritten: whatever report arrives, the
  pending command and its data stay, unless the report is a \<open>CTAPHID_CANCEL\<close>.
\<close>

theorem pending_message_kept:
  assumes "reachable u2f cbor s" "hasPendingCommand s" "0 < pendingLen s"
    and "onOutput e buf s = Some (out, s')"
  shows "same_pending s s' \<or> pendingCmd s' = CTAPHID_CANCEL \<and> pendingLen s' = 0"
  using onOutput_pending [OF reachable_inv [OF assms(1)] assms(2-4)] .

text \<open>
  errors of a continuation packet: while a message is being received, a packet of another
  channel changes nothing and is not answered, and a packet out of sequence is answered with
  \<open>ERR_INVALID_SEQ\<close> (4) and drops the message.
\<close>

theorem continuation_errors:
  assumes "receiving ch cmd data off seq now s" "millis e - now \<le> 500" "7 \<le> length buf"
    and "buf ! 4 AND 0x80 = 0" "read_channel buf \<noteq> ch \<or> buf ! 4 \<noteq> seq"
  shows "onOutput e buf s =
    (if read_channel buf \<noteq> ch then Some ([], s)
     else Some (error_reply e ch 4, drop_transaction s))"
  using assms by (auto simp: onOutput_def on_cont_packet_def receiving_def not_less not_le)

text \<open>
  The authenticator's handlers are out of reach of a host that has not opened a channel: on a
  channel that is not allocated, what the dispatcher does is independent of them.
\<close>

theorem unallocated_channel_isolated:
  assumes "\<not> isChannelAllocated s ch"
  shows "processCtapCommand u2f cbor e ch cmd data s = processCtapCommand u2f' cbor' e ch cmd data s"
  using assms unfolding processCtapCommand_def Let_def by simp

text \<open>
  \<open>CTAPHID_INIT\<close>: a request with a nonce of 8 bytes is answered, on the channel it came from, with
  the nonce, the new channel and the fixed capabilities; the new channel is allocated, and it is
  the channel of the request when that was allocated already.
\<close>

theorem init_allocates:
  assumes "reachable u2f cbor s" "8 \<le> length data"
  shows "\<exists>cid s'. processCtapCommand u2f cbor e ch CTAPHID_INIT data s =
      (sendCtapResponse (sent e) ch CTAPHID_INIT
        (take 8 data @ channel_bytes cid @ [2, 1, 1, 0, 4]), s') \<and>
    isChannelAllocated s' cid \<and> activeChannelID s' = cid \<and>
    (ch \<noteq> 0xFFFFFFFF \<and> isChannelAllocated s ch \<longrightarrow> cid = ch)"
proof -
  define cid where "cid = (if ch = 0xFFFFFFFF \<or> \<not> isChannelAllocated s ch
    then (if esp_random e = 0 then 1 else esp_random e) else ch)"
  have "cid \<noteq> 0" by (auto simp: cid_def isChannelAllocated_def)
  moreover have "dev_inv (s\<lparr>activeChannelID := cid\<rparr>)"
    using reachable_inv [OF assms(1)] by (simp add: dev_inv_def)
  ultimately have "isChannelAllocated (rememberChannel cid (s\<lparr>activeChannelID := cid\<rparr>)) cid"
    by (intro rememberChannel_allocated)
  moreover have "activeChannelID (rememberChannel cid (s\<lparr>activeChannelID := cid\<rparr>)) = cid"
    by (simp add: rememberChannel_def)
  ultimately show ?thesis
    using assms(2)
    by (intro exI [of _ cid] exI [of _ "rememberChannel cid (s\<lparr>activeChannelID := cid\<rparr>)"])
      (auto simp: processCtapCommand_def Let_def cid_def)
qed


theorem pending_message_kept_witness:
  "\<exists>s s' out. onOutput (small_heap\<lparr>alloc := (\<lambda>n. Some (replicate n 0))\<rparr>) [0, 0, 0, 9, 0x81, 0, 3, 1, 1, 1] s
      = Some (out, s') \<and> hasPendingCommand s \<and> same_pending s s'"
proof -
  define e where "e = small_heap\<lparr>alloc := (\<lambda>n. Some (replicate n 0))\<rparr>"
  have e: "alloc_ok e" by (simp add: e_def alloc_ok_def)
  define s where "s = snd (the (onOutput e [0, 0, 0, 5, 0x81, 0, 2, 8, 9] new_dev))"
  have o: "onOutput e [0, 0, 0, 5, 0x81, 0, 2, 8, 9] new_dev = Some ([], s)"
    and h: "hasPendingCommand s" "0 < pendingLen s" unfolding s_def e_def by code_simp+
  define s' where "s' = snd (the (onOutput e [0, 0, 0, 9, 0x81, 0, 3, 1, 1, 1] s))"
  define out where "out = fst (the (onOutput e [0, 0, 0, 9, 0x81, 0, 3, 1, 1, 1] s))"
  have o2: "onOutput e [0, 0, 0, 9, 0x81, 0, 3, 1, 1, 1] s = Some (out, s')"
    and l: "pendingLen s' \<noteq> 0"
    unfolding out_def s'_def s_def e_def by code_simp+
  have "reachable (\<lambda>_ _. []) (\<lambda>_ _. []) s"
    using reachable.step [OF reachable.start ctap_step.usb_report [OF e o]] .
  from pending_message_kept [OF this h o2] l h o2 show ?thesis unfolding e_def by blast
qed

theorem continuation_errors_witness:
  "\<exists>s. onOutput small_heap (next_report 6 0 []) s = Some ([], s) \<and> 0 < ctapExpectedLen s"
proof -
  define e where "e = small_heap\<lparr>alloc := (\<lambda>n. Some (replicate n 0))\<rparr>"
  have e: "alloc_ok e" by (simp add: e_def alloc_ok_def)
  obtain s where "progressed 5 0x81 (replicate 60 1) 57 0 (millis e) s"
    using receive_first [OF e dev_inv_new, of "replicate 60 1" "0x81" 5]
    by (auto simp: new_dev_def min_def)
  then have s: "receiving 5 0x81 (replicate 60 1) 57 0 0 s"
    by (simp add: progressed_def e_def small_heap_def)
  have r: "read_channel (next_report 6 0 []) = 6" "next_report 6 0 [] ! 4 = 0"
    "length (next_report 6 0 []) = 64"
    using report_shape [where d = "[]" and ch = 6 and b = 0] by (simp_all add: next_report_def)
  have "onOutput small_heap (next_report 6 0 []) s = Some ([], s)"
    using continuation_errors [OF s, of small_heap "next_report 6 0 []"] r
    by (simp add: small_heap_def)
  with s show ?thesis by (auto simp: receiving_def)
qed

theorem unallocated_channel_isolated_witness:
  "processCtapCommand (\<lambda>_ _. [(0x83, [1])]) (\<lambda>_ _. []) small_heap 5 CTAPHID_MSG [] new_dev =
   processCtapCommand (\<lambda>_ _. []) (\<lambda>_ _. []) small_heap 5 CTAPHID_MSG [] new_dev"
  by (rule unallocated_channel_isolated) (simp add: isChannelAllocated_def new_dev_def)

theorem init_allocates_witness:
  "\<exists>cid s'. processCtapCommand (\<lambda>_ _. []) (\<lambda>_ _. []) small_heap 0xFFFFFFFF CTAPHID_INIT
      [1, 2, 3, 4, 5, 6, 7, 8] new_dev = (sendCtapResponse (\<lambda>_. True) 0xFFFFFFFF CTAPHID_INIT
      ([1, 2, 3, 4, 5, 6, 7, 8] @ channel_bytes cid @ [2, 1, 1, 0, 4]), s') \<and> isChannelAllocated s' cid"
  using init_allocates [OF reachable.start [of "\<lambda>_ _. []" "\<lambda>_ _. []"],
      of "[1, 2, 3, 4, 5, 6, 7, 8]" small_heap "0xFFFFFFFF"]
  by (auto simp: small_heap_def)

end
