(* ===== verification/Device.thy ===== *)
theory Device
  imports CtapDispatch CtapHid
begin

text \<open>
  The transport (\<open>CtapHid\<close>) and the commands (\<open>CtapDispatch\<close>) together: a CTAP2 message cut into HID
  reports, assembled, dispatched and answered.
\<close>

section \<open>The handlers of the transport\<close>

text \<open>What a message adds to \<open>sent\<close> is what the handler sends on the channel.\<close>

definition handler_of :: "Ctap.env \<Rightarrow> (bytes \<Rightarrow> message) \<Rightarrow> ctap \<Rightarrow> handler" where
  "handler_of e msg c = (\<lambda>ch data. case handle_message e (msg data) c of
     None \<Rightarrow> [] | Some c' \<Rightarrow> drop (length (ctap.sent c)) (ctap.sent c'))"

lemma init_channels: "on_init_packet h ch buf d = Some (go, out, d') \<Longrightarrow> allocatedChannels d' = allocatedChannels d"
  unfolding on_init_packet_def Let_def
  by (auto simp: drop_transaction_def bind_eq_Some_conv split: if_split_asm)

lemma cont_channels: "on_cont_packet h ch buf d = Some (go, out, d') \<Longrightarrow> allocatedChannels d' = allocatedChannels d"
  unfolding on_cont_packet_def Let_def
  by (auto simp: drop_transaction_def bind_eq_Some_conv split: if_split_asm)

lemma hand_over_channels: "hand_over h ch d = Some d' \<Longrightarrow> allocatedChannels d' = allocatedChannels d"
  unfolding hand_over_def Let_def
  by (auto simp: drop_transaction_def bind_eq_Some_conv split: if_split_asm option.split_asm)

lemma onOutput_channels:
  assumes "onOutput h buf d = Some (out, d')"
  shows "allocatedChannels d' = allocatedChannels d"
proof (cases "length buf < 7")
  case False
  define d0 where "d0 = (if 0 < ctapExpectedLen d \<and> 500 < millis h - lastPacketTime d
    then d\<lparr>ctapExpectedLen := 0, ctapReceivedLen := 0, ctapExpectedSeq := 0\<rparr> else d)"
  define ch where "ch = read_channel buf"
  obtain go o1 d1 where p: "(if buf ! 4 AND 0x80 \<noteq> 0 then on_init_packet h ch buf d0 else on_cont_packet h ch buf d0) =
      Some (go, o1, d1)"
    "(if go then do { s \<leftarrow> hand_over h ch d1; Some (o1, s) } else Some (o1, d1)) = Some (out, d')"
    using assms False unfolding onOutput_def Let_def d0_def [symmetric] ch_def [symmetric]
    by (auto simp: bind_eq_Some_conv)
  have "allocatedChannels d1 = allocatedChannels d0"
    using p(1) init_channels cont_channels by (metis (no_types, lifting))
  moreover have "allocatedChannels d' = allocatedChannels d1"
    using p(2) hand_over_channels by (auto simp: bind_eq_Some_conv split: if_splits)
  ultimately show ?thesis by (simp add: d0_def)
qed (use assms in \<open>simp add: onOutput_def\<close>)

lemma feed_channels: "feed rs d = Some (out, d') \<Longrightarrow> allocatedChannels d' = allocatedChannels d"
proof (induction rs arbitrary: d out)
  case (Cons r rs)
  then show ?case using onOutput_channels by (cases r) (fastforce simp: bind_eq_Some_conv)
qed simp

section \<open>Properties\<close>

text \<open>
  C5: the path of a command. A CTAP2 message of at most 7609 bytes that a host cuts into reports on its channel is
  assembled without an error, processed once with exactly those bytes in the next turn of the main loop, and
  answered on the same channel with the reports of the keep-alives and then of the one reply of the command.
\<close>

theorem command_exchange:
  assumes "dev_inv d" "\<not> dev.hasPendingCommand d" "isChannelAllocated d ch" "0 < length data" "length data \<le> 7609"
    and "alloc_ok h" "on_time (millis h) hs" "alloc_ok h'"
    and "length (h # hs) = length (sendCtapResponse (\<lambda>_. True) ch CTAPHID_CBOR data)"
    and "processCborCommand e v data c = Some c'"
  shows "\<exists>d' n r. feed (zip (h # hs) (sendCtapResponse (\<lambda>_. True) ch CTAPHID_CBOR data)) d = Some ([], d') \<and>
    ctap.sent c' = ctap.sent c @ replicate n (0xBB, [2]) @ [(CTAPHID_CBOR, r)] \<and>
    poll (handler_of e (U2f_Msg o1) c) (handler_of e (Cbor_Msg v) c) h' d' =
      Some (concat (replicate n (sendCtapResponse (CtapHid.sent h') ch 0xBB [2])) @
        sendCtapResponse (CtapHid.sent h') ch CTAPHID_CBOR r, d'\<lparr>dev.hasPendingCommand := False\<rparr>)"
proof -
  obtain d' where d': "feed (zip (h # hs) (sendCtapResponse (\<lambda>_. True) ch CTAPHID_CBOR data)) d = Some ([], d')"
    "delivered ch CTAPHID_CBOR data d'"
    using reassemble [OF assms(1,2,4,5) _ _ assms(6,7,9)] by auto
  obtain x params where data: "data = x # params" using assms(4) by (cases data) auto
  obtain n r where sent: "ctap.sent c' = ctap.sent c @ replicate n (0xBB, [2]) @ [(CTAPHID_CBOR, r)]"
    using answers assms(10) unfolding data answered_def by blast
  have "isChannelAllocated (d'\<lparr>dev.hasPendingCommand := False\<rparr>) ch"
    using feed_channels [OF d'(1)] assms(3) by (simp add: isChannelAllocated_def)
  then have "poll (handler_of e (U2f_Msg o1) c) (handler_of e (Cbor_Msg v) c) h' d' =
      Some (concat (map (\<lambda>(k, b). sendCtapResponse (CtapHid.sent h') ch k b) (handler_of e (Cbor_Msg v) c ch data)),
        d'\<lparr>dev.hasPendingCommand := False\<rparr>)"
    using delivered_poll [OF d'(2) assms(8)] by (simp add: processCtapCommand_def Let_def)
  moreover have "handler_of e (Cbor_Msg v) c ch data = replicate n (0xBB, [2]) @ [(CTAPHID_CBOR, r)]"
    using assms(10) sent by (simp add: handler_of_def)
  ultimately show ?thesis using d'(1) sent by (intro exI [of _ d'] exI [of _ n] exI [of _ r]) (simp add: map_replicate_const)
qed

definition opened :: dev where
  "opened = new_dev\<lparr>allocatedChannels := [5, 0, 0, 0], nextChannelSlot := 1\<rparr>"

theorem command_exchange_witness:
  "\<exists>d' r. feed [(small_heap\<lparr>alloc := (\<lambda>n. Some (replicate n 0))\<rparr>, first_report 5 CTAPHID_CBOR [0x0B])] opened = Some ([], d') \<and>
    poll (handler_of toy_env (U2f_Msg u2f_touch) toy_ctap) (handler_of toy_env (Cbor_Msg seen_example) toy_ctap)
      (small_heap\<lparr>alloc := (\<lambda>n. Some (replicate n 0))\<rparr>) d' =
      Some ([first_report 5 CTAPHID_CBOR r], d'\<lparr>dev.hasPendingCommand := False\<rparr>)"
proof -
  define h where "h = small_heap\<lparr>alloc := (\<lambda>n. Some (replicate n 0))\<rparr>"
  have h: "alloc_ok h" "on_time (millis h) []" by (simp_all add: h_def alloc_ok_def)
  have d: "dev_inv opened" "\<not> dev.hasPendingCommand opened" "isChannelAllocated opened 5"
    using dev_inv_new by (simp_all add: opened_def dev_inv_def new_dev_def MAX_TRACKED_CHANNELS_def isChannelAllocated_def)
  have one: "sendCtapResponse (\<lambda>_. True) 5 CTAPHID_CBOR [0x0B] = [first_report 5 CTAPHID_CBOR [0x0B]]"
    by (simp add: sendCtapResponse_def send_rest.simps)
  have p: "processCborCommand toy_env seen_example [0x0B] toy_ctap = Some (send_hid 0x90 [0] toy_ctap)"
    using get_info_fits(2) by (simp add: processCborCommand_def Let_def)
  obtain d' n r where x: "feed (zip [h] [first_report 5 CTAPHID_CBOR [0x0B]]) opened = Some ([], d')"
    "ctap.sent (send_hid 0x90 [0] toy_ctap) = ctap.sent toy_ctap @ replicate n (0xBB, [2]) @ [(CTAPHID_CBOR, r)]"
    "poll (handler_of toy_env (U2f_Msg u2f_touch) toy_ctap) (handler_of toy_env (Cbor_Msg seen_example) toy_ctap) h d' =
      Some (concat (replicate n (sendCtapResponse (CtapHid.sent h) 5 0xBB [2])) @ sendCtapResponse (CtapHid.sent h) 5 CTAPHID_CBOR r,
        d'\<lparr>dev.hasPendingCommand := False\<rparr>)"
    using command_exchange [OF d _ _ h h(1) _ p, of u2f_touch] unfolding one by auto
  have "n = 0" "r = [0]" using x(2) by (cases n; simp add: send_hid_def toy_ctap_def)+
  moreover have "sendCtapResponse (CtapHid.sent h) 5 CTAPHID_CBOR [0] = [first_report 5 CTAPHID_CBOR [0]]"
    by (simp add: sendCtapResponse_def send_rest.simps h_def small_heap_def)
  ultimately show ?thesis using x(1,3) by (auto simp flip: h_def)
qed

end
