(* ===== verification/Backup.thy ===== *)
theory Backup
  imports Vault
begin

text \<open>
  The encrypted backup of the vault, \<open>src/BackupManager.cpp\<close>: the blob (header, PBKDF2 key, AES-GCM), its
  export in chunks of hexadecimal digits and the import session that collects the chunks, checks them
  and restores the vault.

  The random salt and nonce are arguments of the export. \<open>ser_archive\<close> and \<open>parse_archive\<close> are the
  serializer and parser of ArduinoJson for the archive. An error is the string of the source.
\<close>

definition BACKUP_PBKDF2_ITERATIONS :: nat where "BACKUP_PBKDF2_ITERATIONS = 200000"
definition BACKUP_SALT_LEN :: nat where "BACKUP_SALT_LEN = 16"
definition BACKUP_NONCE_LEN :: nat where "BACKUP_NONCE_LEN = 12"
definition BACKUP_TAG_LEN :: nat where "BACKUP_TAG_LEN = 16"
definition BACKUP_MAGIC :: bytes where "BACKUP_MAGIC = [0x56, 0x42, 0x4B, 0x31]"
definition BACKUP_VERSION :: u8 where "BACKUP_VERSION = 1"
definition BACKUP_HEADER_LEN :: nat where
  "BACKUP_HEADER_LEN = 4 + 1 + BACKUP_SALT_LEN + 4 + BACKUP_NONCE_LEN + BACKUP_TAG_LEN + 4"
definition BACKUP_EXPORT_CHUNK_SIZE :: nat where "BACKUP_EXPORT_CHUNK_SIZE = 256"
definition MAX_BACKUP_HEX_LEN :: nat where "MAX_BACKUP_HEX_LEN = 512 * 1024"

lemmas backup_constants = BACKUP_PBKDF2_ITERATIONS_def BACKUP_SALT_LEN_def BACKUP_NONCE_LEN_def
  BACKUP_TAG_LEN_def BACKUP_MAGIC_def BACKUP_VERSION_def BACKUP_HEADER_LEN_def

section \<open>The blob\<close>

definition deriveBackupKey :: "platform \<Rightarrow> bytes \<Rightarrow> bytes \<Rightarrow> nat \<Rightarrow> bytes option" where
  "deriveBackupKey p passphrase salt iterations = accel_pbkdf2_sha256 (backend p) passphrase salt iterations 32"

definition putU32 :: "u32 \<Rightarrow> bytes" where
  "putU32 v = [ucast (drop_bit 24 v AND 0xFF), ucast (drop_bit 16 v AND 0xFF),
     ucast (drop_bit 8 v AND 0xFF), ucast (v AND 0xFF)]"

definition getU32 :: "bytes \<Rightarrow> nat \<Rightarrow> u32" where
  "getU32 src off = push_bit 24 (ucast (src ! off)) OR push_bit 16 (ucast (src ! (off + 1))) OR
     push_bit 8 (ucast (src ! (off + 2))) OR ucast (src ! (off + 3))"

definition backupEncryptBlob :: "platform \<Rightarrow> bytes \<Rightarrow> bytes \<Rightarrow> bytes \<Rightarrow> bytes \<Rightarrow> string + bytes" where
  "backupEncryptBlob p salt nonce plaintext passphrase =
     (case deriveBackupKey p passphrase salt BACKUP_PBKDF2_ITERATIONS of
        None \<Rightarrow> Inl ''KDF_FAILED''
      | Some key \<Rightarrow>
          let ptLen = length plaintext in
          if \<not> heap p (if ptLen > 0 then ptLen else 1) then Inl ''OOM''
          else case accel_aes256_gcm_encrypt (backend p) key nonce [] plaintext of
              None \<Rightarrow> Inl ''GCM_ENCRYPT_FAILED''
            | Some (cipher, tag) \<Rightarrow>
                if \<not> heap p (BACKUP_HEADER_LEN + ptLen) then Inl ''OOM''
                else Inr (toHex (BACKUP_MAGIC @ [BACKUP_VERSION] @ salt @
                  putU32 (of_nat BACKUP_PBKDF2_ITERATIONS) @ nonce @ tag @ putU32 (of_nat ptLen) @ cipher)))"

text \<open>The offsets of the header fields are 0, 4, 5, 21, 25, 37, 53 and 57; \<open>size_t\<close> is 32 bits wide.\<close>

definition backupDecryptBlob :: "platform \<Rightarrow> bytes \<Rightarrow> bytes \<Rightarrow> string + bytes" where
  "backupDecryptBlob p hexIn passphrase =
     (let totalLen = length hexIn div 2 in
      if length hexIn mod 2 \<noteq> 0 \<or> totalLen < BACKUP_HEADER_LEN then Inl ''MALFORMED_BLOB''
      else if \<not> heap p totalLen then Inl ''OOM''
      else
        let blob = fromHex hexIn totalLen in
        if take 4 blob \<noteq> BACKUP_MAGIC then Inl ''BAD_MAGIC''
        else if blob ! 4 \<noteq> BACKUP_VERSION then Inl ''UNSUPPORTED_VERSION''
        else
          let salt = take BACKUP_SALT_LEN (drop 5 blob);
              iterations = getU32 blob 21;
              nonce = take BACKUP_NONCE_LEN (drop 25 blob);
              tag = take BACKUP_TAG_LEN (drop 37 blob);
              ctLen = getU32 blob 53 in
          if iterations = 0 \<or> iterations > 2000000 then Inl ''BAD_ITERATIONS''
          else if 57 + ctLen \<noteq> of_nat totalLen then Inl ''LENGTH_MISMATCH''
          else case deriveBackupKey p passphrase salt (unat iterations) of
              None \<Rightarrow> Inl ''KDF_FAILED''
            | Some key \<Rightarrow>
                if \<not> heap p (if ctLen > 0 then unat ctLen else 1) then Inl ''OOM''
                else case accel_aes256_gcm_decrypt (backend p) key nonce []
                    (take (unat ctLen) (drop 57 blob)) tag of
                    None \<Rightarrow> Inl ''DECRYPT_FAILED_OR_WRONG_PASSPHRASE''
                  | Some plain \<Rightarrow> Inr plain)"

section \<open>Export\<close>

datatype export_event =
    Export_Start nat nat bytes
  | Export_Chunk nat bytes
  | Export_Done nat

definition backupExport ::
  "platform \<Rightarrow> json \<Rightarrow> (archive \<Rightarrow> bytes) \<Rightarrow> bytes \<Rightarrow> bytes \<Rightarrow> bytes \<Rightarrow> system \<Rightarrow> string + export_event list" where
  "backupExport p j ser_archive salt nonce passphrase s =
     (if length passphrase < 8 then Inl ''PASSPHRASE_TOO_SHORT''
      else case exportVaultPlaintext p j s of
          None \<Rightarrow> Inl ''KEY_LOCKED''
        | Some doc \<Rightarrow>
      (case backupEncryptBlob p salt nonce (ser_archive doc) passphrase of
          Inl e \<Rightarrow> Inl e
        | Inr hexBlob \<Rightarrow>
            let totalLen = length hexBlob;
                totalChunks = (totalLen + BACKUP_EXPORT_CHUNK_SIZE - 1) div BACKUP_EXPORT_CHUNK_SIZE;
                totalChunks = (if totalChunks = 0 then 1 else totalChunks) in
            Inr (Export_Start totalLen totalChunks (hashSHA256 p hexBlob) #
              map (\<lambda>i. let start = i * BACKUP_EXPORT_CHUNK_SIZE;
                         len = min BACKUP_EXPORT_CHUNK_SIZE (totalLen - start) in
                     Export_Chunk i (substring hexBlob start (start + len))) [0..<totalChunks] @
              [Export_Done totalChunks])))"

section \<open>Import\<close>

record import_state =
  importAccumHex :: bytes
  importTotalLen :: nat
  importExpectedSha256 :: bytes
  importInProgress :: bool

definition backupImportAbort :: "import_state \<Rightarrow> import_state" where
  "backupImportAbort m = m\<lparr>importAccumHex := [], importTotalLen := 0, importExpectedSha256 := [],
     importInProgress := False\<rparr>"

definition backupImportBegin :: "nat \<Rightarrow> bytes \<Rightarrow> import_state \<Rightarrow> (string + unit) \<times> import_state" where
  "backupImportBegin totalHexLen expectedSha256Hex m =
     (let m = backupImportAbort m in
      if totalHexLen = 0 \<or> totalHexLen > MAX_BACKUP_HEX_LEN then (Inl ''BAD_LENGTH'', m)
      else if length expectedSha256Hex \<noteq> 64 then (Inl ''BAD_CHECKSUM_FORMAT'', m)
      else (Inr (), m\<lparr>importTotalLen := totalHexLen, importExpectedSha256 := expectedSha256Hex,
        importInProgress := True\<rparr>))"

definition backupImportChunk :: "bytes \<Rightarrow> import_state \<Rightarrow> (string + unit) \<times> import_state" where
  "backupImportChunk hexData m =
     (if \<not> importInProgress m then (Inl ''NOT_STARTED'', m)
      else if length (importAccumHex m) + length hexData > importTotalLen m then
        (Inl ''OVERFLOW'', backupImportAbort m)
      else (Inr (), m\<lparr>importAccumHex := importAccumHex m @ hexData\<rparr>))"

text \<open>\<open>Inr (imported, skipped)\<close> is the \<open>IMPORT_DONE\<close> event; the outer option is the \<open>abort()\<close> of the nonce generator.\<close>

definition backupImportCommit ::
  "platform \<Rightarrow> json \<Rightarrow> (bytes \<Rightarrow> archive option) \<Rightarrow> bytes \<Rightarrow> bool \<Rightarrow> u32 list \<Rightarrow> u32 list \<Rightarrow>
    import_state \<times> system \<times> nonce_state \<Rightarrow>
    ((string + nat \<times> nat) \<times> import_state \<times> system \<times> nonce_state) option" where
  "backupImportCommit p j parse_archive passphrase overwrite pads pads' = (\<lambda>(m, st).
     if \<not> importInProgress m then Some (Inl ''NOT_STARTED'', m, st)
     else if length (importAccumHex m) \<noteq> importTotalLen m then Some (Inl ''INCOMPLETE'', m, st)
     else if hashSHA256 p (importAccumHex m) \<noteq> importExpectedSha256 m then
       Some (Inl ''CHECKSUM_MISMATCH'', backupImportAbort m, st)
     else case backupDecryptBlob p (importAccumHex m) passphrase of
         Inl e \<Rightarrow> Some (Inl e, backupImportAbort m, st)
       | Inr plaintext \<Rightarrow>
           (case parse_archive plaintext of
              None \<Rightarrow> Some (Inl ''BAD_ARCHIVE_JSON'', backupImportAbort m, st)
            | Some doc \<Rightarrow> do {
                (counts, st) \<leftarrow> importVaultPlaintext p j doc overwrite pads pads' st;
                Some (case counts of
                    None \<Rightarrow> (Inl ''IMPORT_FAILED'', backupImportAbort m, st)
                  | Some counts \<Rightarrow> (Inr counts, backupImportAbort m, st)) }))"

section \<open>The blob opens again\<close>

lemma putU32_eq: "putU32 v = u32_bytes v"
  by (simp add: putU32_def u32_bytes_def)

lemma length_putU32 [simp]: "length (putU32 v) = 4"
  by (simp add: putU32_eq)

lemma getU32_put: "length a = k \<Longrightarrow> getU32 (a @ putU32 v @ f) k = v"
proof -
  assume "length a = k"
  then have "getU32 (a @ putU32 v @ f) k = fst (the (read_u32 (rev (u32_bytes v) @ f)))"
    by (simp add: getU32_def putU32_def read_u32_def u32_bytes_def nth_append)
  then show ?thesis by (simp add: read_u32_bytes)
qed

text \<open>Two devices run the same cryptographic library.\<close>

definition same_library :: "platform \<Rightarrow> platform \<Rightarrow> bool" where
  "same_library p p' \<longleftrightarrow> mbed_sha256 (backend p) = mbed_sha256 (backend p') \<and>
     mbed_pbkdf2_sha256 (backend p) = mbed_pbkdf2_sha256 (backend p') \<and>
     mbed_gcm_decrypt (backend p) = mbed_gcm_decrypt (backend p')"

lemma blob_opens:
  assumes "sound p" "sound p'" "same_library p p'" "length salt = 16" "length nonce = 12"
    and "backupEncryptBlob p salt nonce plaintext passphrase = Inr hex" "length plaintext < 2 ^ 31"
  shows "backupDecryptBlob p' hex passphrase = Inr plaintext" "length hex = 2 * (57 + length plaintext)"
proof -
  have p: "consistent (backend p)" "consistent (backend p')" "gcm_ok (backend p)" "\<And>n. heap p' n"
    using assms(1,2) by (auto simp: sound_def roomy_def)
  obtain key cipher tag where k: "mbed_pbkdf2_sha256 (backend p) passphrase salt BACKUP_PBKDF2_ITERATIONS 32 = Some key"
    "mbed_gcm_encrypt (backend p) key nonce [] plaintext = Some (cipher, tag)"
    "hex = toHex (BACKUP_MAGIC @ [BACKUP_VERSION] @ salt @ putU32 (of_nat BACKUP_PBKDF2_ITERATIONS) @ nonce @ tag @
      putU32 (of_nat (length plaintext)) @ cipher)"
    using assms(6) by (auto simp: backupEncryptBlob_def deriveBackupKey_def accel_pbkdf2_eq accel_gcm_encrypt_eq p
        Let_def split: option.splits if_splits)
  have g: "length cipher = length plaintext" "length tag = 16" "mbed_gcm_decrypt (backend p) key nonce [] cipher tag = Some plaintext"
    using p(3) k(2) unfolding gcm_ok_def by blast+
  define blob where "blob = BACKUP_MAGIC @ [BACKUP_VERSION] @ salt @ putU32 (of_nat BACKUP_PBKDF2_ITERATIONS) @ nonce @ tag @
      putU32 (of_nat (length plaintext)) @ cipher"
  have len: "length blob = 57 + length plaintext"
    by (simp add: blob_def backup_constants g assms(4,5))
  then show "length hex = 2 * (57 + length plaintext)"
    by (simp add: k(3) blob_def)
  have it: "getU32 blob 21 = 200000"
    using getU32_put [of "BACKUP_MAGIC @ [BACKUP_VERSION] @ salt" 21 "of_nat BACKUP_PBKDF2_ITERATIONS"
        "nonce @ tag @ putU32 (of_nat (length plaintext)) @ cipher"] assms(4)
    by (simp add: blob_def backup_constants)
  have ct: "getU32 blob 53 = of_nat (length plaintext)"
    using getU32_put [of "BACKUP_MAGIC @ [BACKUP_VERSION] @ salt @ putU32 (of_nat BACKUP_PBKDF2_ITERATIONS) @ nonce @ tag" 53
        "of_nat (length plaintext)" cipher] assms(4,5) g(2)
    by (simp add: blob_def backup_constants)
  have pl: "unat (of_nat (length plaintext) :: u32) = length plaintext"
    using assms(7) by (simp add: unsigned_of_nat take_bit_nat_eq_self)
  have parts: "take 4 blob = BACKUP_MAGIC" "blob ! 4 = BACKUP_VERSION" "take 16 (drop 5 blob) = salt"
    "take 12 (drop 25 blob) = nonce" "take 16 (drop 37 blob) = tag" "drop 57 blob = cipher"
    using assms(4,5) g(2) by (simp_all add: blob_def backup_constants putU32_def)
  have lib: "mbed_pbkdf2_sha256 (backend p') passphrase salt 200000 32 = Some key"
    "mbed_gcm_decrypt (backend p') key nonce [] cipher tag = Some plaintext"
    using k(1) g(3) assms(3) by (simp_all add: same_library_def BACKUP_PBKDF2_ITERATIONS_def)
  have h: "fromHex hex (57 + length plaintext) = blob"
    using fromHex_toHex [OF len] by (simp add: k(3) blob_def)
  show "backupDecryptBlob p' hex passphrase = Inr plaintext"
    unfolding backupDecryptBlob_def Let_def \<open>length hex = 2 * (57 + length plaintext)\<close>
    using parts it ct pl lib p g(1) by (simp add: h BACKUP_HEADER_LEN_def BACKUP_SALT_LEN_def BACKUP_NONCE_LEN_def
        BACKUP_TAG_LEN_def deriveBackupKey_def accel_pbkdf2_eq accel_gcm_decrypt_eq)
qed


section \<open>Chunks\<close>

text \<open>The host hands the events of an export to a device, and stops at the first error.\<close>

fun receive :: "export_event list \<Rightarrow> import_state \<Rightarrow> string + import_state" where
  "receive [] m = Inr m"
| "receive (Export_Start len n h # es) m =
     (case backupImportBegin len h m of (Inl e, _) \<Rightarrow> Inl e | (Inr _, m) \<Rightarrow> receive es m)"
| "receive (Export_Chunk i d # es) m =
     (case backupImportChunk d m of (Inl e, _) \<Rightarrow> Inl e | (Inr _, m) \<Rightarrow> receive es m)"
| "receive (Export_Done n # es) m = receive es m"

lemma receive_chunks:
  assumes "importInProgress m" "length (importAccumHex m) + length (concat (map f is)) \<le> importTotalLen m"
  shows "receive (map (\<lambda>i. Export_Chunk i (f i)) is @ es) m =
    receive es (m\<lparr>importAccumHex := importAccumHex m @ concat (map f is)\<rparr>)"
  using assms
proof (induction "is" arbitrary: m)
  case (Cons i "is")
  let ?m = "m\<lparr>importAccumHex := importAccumHex m @ f i\<rparr>"
  have "backupImportChunk (f i) m = (Inr (), ?m)"
    using Cons.prems by (simp add: backupImportChunk_def)
  with Cons.IH [of ?m] Cons.prems show ?case by simp
qed simp

lemma chunks_whole:
  "concat (map (\<lambda>i. substring xs (i * c) (i * c + min c (length xs - i * c))) [0..<n]) = take (n * c) xs"
proof (induction n)
  case (Suc n)
  have "take (min c (length xs - n * c)) (drop (n * c) xs) = take c (drop (n * c) xs)"
    by (simp add: min_def)
  with Suc take_add [of "n * c" c xs] show ?case by (simp add: substring_def add.commute)
qed simp

lemma chunk_count: "length xs \<le> (length xs + 256 - 1) div 256 * 256"
  by (simp add: minus_mod_eq_div_mult [symmetric])

lemma received_export:
  assumes "backupExport p j ser salt nonce passphrase s = Inr evs" "\<forall>d. length (mbed_sha256 (backend p) d) = 32"
    and "sound p"
  obtains a hex where "exportVaultPlaintext p j s = Some a"
    "backupEncryptBlob p salt nonce (ser a) passphrase = Inr hex"
    "0 < length hex \<and> length hex \<le> MAX_BACKUP_HEX_LEN \<longrightarrow> receive evs m =
      Inr \<lparr>importAccumHex = hex, importTotalLen = length hex, importExpectedSha256 = hashSHA256 p hex, importInProgress = True\<rparr>"
proof -
  obtain a hex where x: "exportVaultPlaintext p j s = Some a" "backupEncryptBlob p salt nonce (ser a) passphrase = Inr hex"
    using assms(1) by (auto simp: backupExport_def split: if_splits option.splits sum.splits)
  define n where "n = (length hex + BACKUP_EXPORT_CHUNK_SIZE - 1) div BACKUP_EXPORT_CHUNK_SIZE"
  define f where "f i = substring hex (i * 256) (i * 256 + min 256 (length hex - i * 256))" for i
  define k where "k = (if n = 0 then 1 else n)"
  have e: "evs = Export_Start (length hex) k (hashSHA256 p hex) # map (\<lambda>i. Export_Chunk i (f i)) [0..<k] @ [Export_Done k]"
    using assms(1) by (auto simp: backupExport_def x n_def k_def f_def [abs_def] BACKUP_EXPORT_CHUNK_SIZE_def Let_def split: if_splits)
  have "length hex \<le> k * 256"
    using chunk_count [of hex] by (simp add: k_def n_def BACKUP_EXPORT_CHUNK_SIZE_def)
  then have c: "concat (map f [0..<k]) = hex"
    using chunks_whole [of hex 256 k] by (simp add: f_def [abs_def])
  have h: "length (hashSHA256 p hex) = 64"
    using assms(2,3) by (simp add: hashSHA256_def accel_sha256_eq sound_def)
  show thesis
  proof (rule that [OF x], rule impI)
    assume "0 < length hex \<and> length hex \<le> MAX_BACKUP_HEX_LEN"
    then have b: "backupImportBegin (length hex) (hashSHA256 p hex) m = (Inr (), \<lparr>importAccumHex = [], importTotalLen = length hex,
        importExpectedSha256 = hashSHA256 p hex, importInProgress = True\<rparr>)"
      using h by (simp add: backupImportBegin_def backupImportAbort_def Let_def)
    then show "receive evs m = Inr \<lparr>importAccumHex = hex, importTotalLen = length hex, importExpectedSha256 = hashSHA256 p hex,
        importInProgress = True\<rparr>"
      unfolding e by (simp add: receive_chunks c)
  qed
qed

section \<open>A vault moves to a new device\<close>

text \<open>
  C37: a backup made by one device and fed chunk by chunk to another device with an empty vault restores
  it: given the same passphrase, the import skips nothing, and every password and every TOTP secret reads
  the same on both devices. The archive has to keep to the limits of the vault (\<open>archive_ok\<close>) and
  its blob to the 512 KB of the import.
\<close>

theorem backup_restores:
  assumes "sound p" "sound p'" "same_library p p'" "gcm_total (backend p')" "json_ok j" "json_ok j'"
    and "\<forall>a. parse (ser a) = Some a" "\<forall>d. length (mbed_sha256 (backend p) d) = 32"
    and "length salt = 16" "length nonce = 12" "backupExport p j ser salt nonce passphrase s = Inr evs"
    and "\<forall>a. exportVaultPlaintext p j s = Some a \<longrightarrow> archive_ok a \<and> 57 + length (ser a) \<le> 256 * 1024 \<and>
      length (a_passwords a) \<le> length pads \<and> length (a_totp a) \<le> length pads'"
    and "isStorageKeyLoaded t" "nonce_subsystem_initialized n" "files t ''/passwords.json'' = None" "files t ''/totp.json'' = None"
  shows "\<exists>m k t' n'. receive evs m0 = Inr m \<and>
    backupImportCommit p' j' parse passphrase overwrite pads pads' (m, t, n) = Some (Inr (k, 0), backupImportAbort m, t', n') \<and>
    (\<forall>w l. getPasswordFromStorage p' j' w l t' = getPasswordFromStorage p j w l s) \<and>
    (\<forall>name. getTotpSecret p' j' name t' = getTotpSecret p j name s)"
proof -
  obtain a hex where a: "exportVaultPlaintext p j s = Some a" "backupEncryptBlob p salt nonce (ser a) passphrase = Inr hex"
    "0 < length hex \<and> length hex \<le> MAX_BACKUP_HEX_LEN \<longrightarrow> receive evs m0 =
      Inr \<lparr>importAccumHex = hex, importTotalLen = length hex, importExpectedSha256 = hashSHA256 p hex, importInProgress = True\<rparr>"
    using received_export [OF assms(11,8,1), where m = m0] .
  have ok: "archive_ok a" "57 + length (ser a) \<le> 256 * 1024" "length (a_passwords a) \<le> length pads" "length (a_totp a) \<le> length pads'"
    using assms(12) a(1) by blast+
  have "length (ser a) < 2 ^ 31" using ok(2) by simp
  note b = blob_opens [OF assms(1-3,9,10) a(2) this]
  define m where "m = \<lparr>importAccumHex = hex, importTotalLen = length hex, importExpectedSha256 = hashSHA256 p hex, importInProgress = True\<rparr>"
  have r: "receive evs m0 = Inr m"
    unfolding m_def by (rule a(3) [THEN mp]) (use b(2) ok(2) in \<open>simp_all add: MAX_BACKUP_HEX_LEN_def\<close>)
  have h: "hashSHA256 p' hex = hashSHA256 p hex"
    using assms(1-3) by (simp add: hashSHA256_def accel_sha256_eq sound_def same_library_def)
  obtain t' n' where i: "importVaultPlaintext p' j' a overwrite pads pads' (t, n) =
      Some (Some (length (a_passwords a) + length (a_totp a), 0), t', n')"
    "vault p' j' t' = map_of (pairing (a_passwords a))" "totps p' j' t' = map_of (a_totp a)" "isStorageKeyLoaded t'"
    using import_archive [OF assms(2,4,6) ok(1,3,4) assms(13-16)] .
  have c: "backupImportCommit p' j' parse passphrase overwrite pads pads' (m, t, n) =
      Some (Inr (length (a_passwords a) + length (a_totp a), 0), backupImportAbort m, t', n')"
    using h b(1) i(1) assms(7) by (simp add: backupImportCommit_def m_def)
  note e = export_maps [OF assms(5) a(1)]
  have "getPasswordFromStorage p' j' w l t' = getPasswordFromStorage p j w l s" for w l
    using e(1) [of "(w, l)"] by (simp add: get_vault e(5) i(2,4) split: option.split)
  moreover have "getTotpSecret p' j' name t' = getTotpSecret p j name s" for name
    using e(2) [of name] by (simp add: get_totp e(5) i(3,4) split: option.split)
  ultimately show ?thesis using r c by blast
qed

section \<open>The import session\<close>

text \<open>What the session buffer may hold at any time, whatever the host sends.\<close>

definition session_ok :: "import_state \<Rightarrow> bool" where
  "session_ok m \<longleftrightarrow> length (importAccumHex m) \<le> importTotalLen m \<and> importTotalLen m \<le> MAX_BACKUP_HEX_LEN \<and>
     (if importInProgress m then 0 < importTotalLen m \<and> length (importExpectedSha256 m) = 64
      else importAccumHex m = [] \<and> importTotalLen m = 0 \<and> importExpectedSha256 m = [])"

lemma abort_ok: "session_ok (backupImportAbort m)"
  by (simp add: session_ok_def backupImportAbort_def)

text \<open>
  the import session stays well-formed whatever commands come in whatever order: the buffer never
  outgrows the announced length, which never exceeds 512 KB, and an idle session holds nothing. A commit
  that reports an error leaves the vault and the nonce counter untouched and, unless data is still missing,
  clears the session; a commit that succeeds clears it too.
\<close>

theorem import_session_safe:
  assumes "session_ok m"
  shows "session_ok (backupImportAbort m) \<and> session_ok (snd (backupImportBegin len h m)) \<and>
    session_ok (snd (backupImportChunk d m)) \<and>
    (case backupImportCommit p j parse passphrase overwrite pads pads' (m, s, n) of
       None \<Rightarrow> True
     | Some (Inr counts, m', s', n') \<Rightarrow> m' = backupImportAbort m
     | Some (Inl e, m', s', n') \<Rightarrow> s' = s \<and> n' = n \<and>
         m' = (if e \<in> {''NOT_STARTED'', ''INCOMPLETE''} then m else backupImportAbort m))"
proof (intro conjI)
  show "session_ok (backupImportAbort m)" by (rule abort_ok)
  show "session_ok (snd (backupImportBegin len h m))"
    using abort_ok by (auto simp: backupImportBegin_def Let_def session_ok_def backupImportAbort_def)
  show "session_ok (snd (backupImportChunk d m))"
    using assms abort_ok by (auto simp: backupImportChunk_def session_ok_def)
  have d: "backupDecryptBlob p hex pw = Inl e \<Longrightarrow> e \<notin> {''NOT_STARTED'', ''INCOMPLETE''}" for hex pw e
    by (auto simp: backupDecryptBlob_def Let_def split: if_splits option.splits)
  have i: "importVaultPlaintext p j a overwrite pads pads' st = Some (None, st') \<Longrightarrow> st' = st" for a st st'
    by (auto simp: importVaultPlaintext_def Let_def bind_eq_Some_conv split: if_splits option.splits)
  show "case backupImportCommit p j parse passphrase overwrite pads pads' (m, s, n) of
       None \<Rightarrow> True
     | Some (Inr counts, m', s', n') \<Rightarrow> m' = backupImportAbort m
     | Some (Inl e, m', s', n') \<Rightarrow> s' = s \<and> n' = n \<and>
         m' = (if e \<in> {''NOT_STARTED'', ''INCOMPLETE''} then m else backupImportAbort m)"
    using d i by (auto simp: backupImportCommit_def split: option.splits sum.splits bind_splits)
qed


section \<open>Concrete devices\<close>

definition enc_pair :: "bytes \<times> bytes \<Rightarrow> bytes" where
  "enc_pair = (\<lambda>(l, x). enc_string l @ enc_string x)"

definition dec_pair :: "bytes \<Rightarrow> ((bytes \<times> bytes) \<times> bytes) option" where
  "dec_pair f = do { (l, f) \<leftarrow> dec_string f; (x, f) \<leftarrow> dec_string f; Some ((l, x), f) }"

definition enc_alg :: "int option \<Rightarrow> bytes" where
  "enc_alg a = (case a of None \<Rightarrow> [0] | Some i \<Rightarrow> (if i < 0 then 2 else 1) # replicate (nat \<bar>i\<bar>) 7)"

definition dec_alg :: "bytes \<Rightarrow> int option" where
  "dec_alg f = (if hd f = 0 then None else if hd f = 1 then Some (int (length (tl f))) else Some (- int (length (tl f))))"

definition enc_archive :: "archive \<Rightarrow> bytes" where
  "enc_archive a = enc_members enc_pair (a_passwords a) @ enc_members enc_string (a_totp a) @ enc_alg (a_crypto_alg a)"

definition dec_archive :: "bytes \<Rightarrow> archive option" where
  "dec_archive f = do {
     (ps, f) \<leftarrow> dec_members dec_pair (length f) f;
     (ts, f) \<leftarrow> dec_obj f;
     Some \<lparr>a_passwords = ps, a_totp = ts, a_crypto_alg = dec_alg f\<rparr> }"

lemma dec_enc_archive: "dec_archive (enc_archive a) = Some a"
proof -
  have "\<forall>v f. dec_pair (enc_pair v @ f) = Some (v, f)" by (simp add: enc_pair_def dec_pair_def dec_enc_string split_beta)
  moreover have "length (a_passwords a) < length (enc_archive a)"
    using enc_members_length [of "a_passwords a" enc_pair] by (simp add: enc_archive_def)
  ultimately have "dec_members dec_pair (length (enc_archive a)) (enc_archive a) =
      Some (a_passwords a, enc_members enc_string (a_totp a) @ enc_alg (a_crypto_alg a))"
    using dec_enc_members [of dec_pair enc_pair "a_passwords a" "length (enc_archive a)"] by (simp add: enc_archive_def)
  moreover have "dec_alg (enc_alg x) = x" for x
    by (cases x) (auto simp: dec_alg_def enc_alg_def)
  ultimately show ?thesis by (simp add: dec_archive_def dec_enc_obj)
qed

definition pair_platform :: platform where
  "pair_platform = toy_platform\<lparr>backend := toy_gcm\<lparr>fpga_has_sym := False, fpga_sha256 := (\<lambda>d. None),
     fpga_hmac_sha256 := (\<lambda>k d. None), fpga_pbkdf2_sha256 := (\<lambda>p s i n. None),
     mbed_sha256 := (\<lambda>d. replicate 32 1), mbed_hmac_sha256 := (\<lambda>k d. []),
     mbed_pbkdf2_sha256 := (\<lambda>p s i n. Some (replicate n 7))\<rparr>\<rparr>"

lemma pair_ok: "sound pair_platform" "same_library pair_platform pair_platform" "gcm_total (backend pair_platform)"
  "\<forall>d. length (mbed_sha256 (backend pair_platform) d) = 32"
  using toy_gcm_ok
  by (auto simp: sound_def roomy_def same_library_def gcm_total_def pair_platform_def toy_platform_def consistent_def
      gcm_ok_def toy_gcm_def toy_backends_def)

theorem import_session_safe_witness:
  "session_ok (snd (backupImportChunk (replicate 5 65) (snd (backupImportBegin 4 (replicate 64 48)
     \<lparr>importAccumHex = [], importTotalLen = 0, importExpectedSha256 = [], importInProgress = False\<rparr>))))"
proof -
  let ?m = "\<lparr>importAccumHex = [], importTotalLen = 0, importExpectedSha256 = [], importInProgress = False\<rparr>"
  have "session_ok ?m" by (simp add: session_ok_def)
  then have "session_ok (snd (backupImportBegin 4 (replicate 64 48) ?m))"
    using import_session_safe by blast
  then show ?thesis using import_session_safe by blast
qed


definition full_system :: system where
  "full_system = open_system\<lparr>files := [''/passwords.json'' \<mapsto> enc_members (enc_members enc_string)
     [(ascii ''a.org'', [(ascii ''ann'', toHex (replicate 12 1) @ [58] @ toHex (ascii ''pw'') @ [58] @ toHex (replicate 16 9))])]]\<rparr>"

lemma full_export:
  "exportVaultPlaintext pair_platform toy_json full_system =
    Some \<lparr>a_passwords = [(ascii ''a.org'', ascii ''ann'', ascii ''pw'')], a_totp = [], a_crypto_alg = Some (- 7)\<rparr>"
  by code_simp

lemma full_get: "getPasswordFromStorage pair_platform toy_json (ascii ''a.org'') (ascii ''ann'') full_system = ascii ''pw''"
  by code_simp

lemma full_backup:
  "\<exists>evs. backupExport pair_platform toy_json enc_archive (replicate 16 3) (replicate 12 4) (ascii ''passphrase'') full_system = Inr evs"
proof -
  have l: "length (ascii ''passphrase'') = 10" by (simp add: ascii_def)
  have k: "deriveBackupKey pair_platform x y i = Some (replicate 32 7)" for x y i
    using pair_ok(1) by (simp add: deriveBackupKey_def accel_pbkdf2_eq sound_def) (simp add: pair_platform_def)
  have "mbed_gcm_encrypt (backend pair_platform) = (\<lambda>k v a d. Some (d, replicate 16 9))" "\<And>n. heap pair_platform n"
    by (simp_all add: pair_platform_def toy_gcm_def toy_platform_def)
  then have "\<exists>h. backupEncryptBlob pair_platform salt nonce x pw = Inr h" for salt nonce x pw
    using pair_ok(1) by (simp add: backupEncryptBlob_def k accel_gcm_encrypt_eq sound_def Let_def)
  then obtain h where h: "backupEncryptBlob pair_platform (replicate 16 3) (replicate 12 4)
      (enc_archive \<lparr>a_passwords = [(ascii ''a.org'', ascii ''ann'', ascii ''pw'')], a_totp = [], a_crypto_alg = Some (- 7)\<rparr>)
      (ascii ''passphrase'') = Inr h" by blast
  show ?thesis
    unfolding backupExport_def full_export l option.case h sum.case Let_def by simp
qed

theorem backup_restores_witness:
  "\<exists>evs m k t' n'. backupExport pair_platform toy_json enc_archive (replicate 16 3) (replicate 12 4) (ascii ''passphrase'')
      full_system = Inr evs \<and> receive evs (\<lparr>importAccumHex = [], importTotalLen = 0, importExpectedSha256 = [], importInProgress = False\<rparr>) = Inr m \<and>
    backupImportCommit pair_platform toy_json dec_archive (ascii ''passphrase'') False [7] [] (m, open_system, booted) =
      Some (Inr (k, 0), backupImportAbort m, t', n') \<and>
    getPasswordFromStorage pair_platform toy_json (ascii ''a.org'') (ascii ''ann'') t' = ascii ''pw''"
proof -
  obtain evs where e: "backupExport pair_platform toy_json enc_archive (replicate 16 3) (replicate 12 4) (ascii ''passphrase'')
      full_system = Inr evs"
    using full_backup by blast
  have a: "\<forall>a. exportVaultPlaintext pair_platform toy_json full_system = Some a \<longrightarrow> archive_ok a \<and>
      57 + length (enc_archive a) \<le> 256 * 1024 \<and> length (a_passwords a) \<le> length [7 :: u32] \<and> length (a_totp a) \<le> length ([] :: u32 list)"
    by (simp add: full_export archive_ok_def item_ok_def storable_def ascii_def enc_archive_def enc_pair_def enc_alg_def)
  show ?thesis
    using backup_restores [OF pair_ok(1,1,2,3) toy_json_ok toy_json_ok _ pair_ok(4) _ _ e a toy_vault(1,2),
        of dec_archive "\<lparr>importAccumHex = [], importTotalLen = 0, importExpectedSha256 = [], importInProgress = False\<rparr>" False] dec_enc_archive toy_vault(3) full_get e
    by auto
qed

end
