(* ===== verification/SerialCli.thy ===== *)
theory SerialCli
  imports Backup Ctap
begin

text \<open>
  The serial command line: \<open>cliTask\<close> of \<open>src/main.cpp\<close>, \<open>CommsManager.cpp\<close>, the handshake and the
  \<open>SecureTerminal\<close> of \<open>CryptoManager.cpp\<close>, and \<open>updateFingerprintAsync\<close> of \<open>FingerprintManager.cpp\<close>.

  A line is handled in one step. What the task observes beside the line is the record \<open>line_seen\<close>;
  what it reports is listed in \<open>told\<close>, the notices of the storage functions being in \<open>outputs\<close> of the
  system. How a report becomes lines on the wire is the section on the terminal; the nonces drawn
  there are not counted in \<open>cnonces\<close>.
\<close>

section \<open>Requests\<close>

text \<open>
  A parsed request: ArduinoJson is a parameter. A member that is missing or null has no value;
  \<open>text r k\<close> is \<open>r[k] | ""\<close>, and so on. Integers are read as \<open>int\<close>.
\<close>

datatype jvalue = Str bytes | Number int | Flag bool | Nested

type_synonym json_request = "string \<Rightarrow> jvalue option"

definition text_of :: "jvalue option \<Rightarrow> bytes" where
  "text_of v = (case v of Some (Str t) \<Rightarrow> cstr t | _ \<Rightarrow> [])"

definition text_field :: "json_request \<Rightarrow> string \<Rightarrow> bytes" where
  "text_field r k = text_of (r k)"

definition either_text :: "json_request \<Rightarrow> string \<Rightarrow> string \<Rightarrow> bytes" where
  "either_text r k k' = text_of (if r k \<noteq> None then r k else r k')"

definition number_field :: "json_request \<Rightarrow> string \<Rightarrow> int \<Rightarrow> int" where
  "number_field r k d = (case r k of Some (Number n) \<Rightarrow> if - (2 ^ 31) \<le> n \<and> n < 2 ^ 31 then n else d | _ \<Rightarrow> d)"

definition flag_field :: "json_request \<Rightarrow> string \<Rightarrow> bool" where
  "flag_field r k = (case r k of Some (Flag b) \<Rightarrow> b | _ \<Rightarrow> False)"

section \<open>State\<close>

text \<open>What is reported: \<open>CommsManager::sendEvent\<close> with its data, and \<open>sendError\<close>.\<close>

datatype content =
    Pin_Set bool | Help_Menu | Generated bytes | Released bytes | Password_List "(bytes \<times> bytes \<times> bool) list"
  | Totp_Codes json_obj | Websites "bytes list \<times> nat \<times> nat" | Statistics | Algorithm i32 | Diagnostics nat nat
  | Exported "export_event list" | Imported "nat \<times> nat" | Handshake_Line bytes

datatype cli_report = Event string string | Error string string string | Data string string content

datatype approval = Transmit | Update

text \<open>
  \<open>currentCommandState\<close> is \<open>STATE_READY\<close> when \<open>state_ready\<close> of the system says so, and otherwise waits for
  the finger for what \<open>awaited\<close> says.
\<close>

record cli =
  csys :: system
  cnonces :: nonce_state
  awaited :: approval
  pendingWebsite :: bytes
  pendingLogin :: bytes
  pendingPasswordToTransmit :: bytes
  pendingPasswordToSave :: bytes
  encryptionActive :: bool
  aesKey :: bytes
  score :: u16
  crypto_alg :: i32
  import_session :: import_state
  told :: "cli_report list"

text \<open>Libraries and sensor; \<open>point_ok\<close> says which bytes are a point of the curve.\<close>

record cli_env =
  base :: env
  parse_request :: "bytes \<Rightarrow> json_request option"
  hmac_sha1 :: "bytes \<Rightarrow> bytes \<Rightarrow> bytes"
  ser_archive :: "archive \<Rightarrow> bytes"
  parse_archive :: "bytes \<Rightarrow> archive option"
  point_ok :: "bytes \<Rightarrow> bool"

record line_seen =
  random_bytes :: "nat \<Rightarrow> bytes"
  a_pad :: u32
  import_pads :: "u32 list"
  import_pads_totp :: "u32 list"
  backup_salt :: bytes
  backup_nonce :: bytes
  fresh_pair :: "(bytes \<times> bytes) option"
  enrolled :: bool

abbreviation cplat :: "cli_env \<Rightarrow> platform" where "cplat e \<equiv> plat (base e)"
abbreviation cjson :: "cli_env \<Rightarrow> json" where "cjson e \<equiv> json_lib (base e)"

definition tell :: "cli_report \<Rightarrow> cli \<Rightarrow> cli" where
  "tell r c = c\<lparr>told := told c @ [r]\<rparr>"

definition with_sys :: "system \<Rightarrow> cli \<Rightarrow> cli" where
  "with_sys s c = c\<lparr>csys := s\<rparr>"

text \<open>\<open>currentCommandState = STATE_READY\<close>\<close>

definition set_ready :: "cli \<Rightarrow> cli" where
  "set_ready c = with_sys ((csys c)\<lparr>state_ready := True\<rparr>) c"

definition await :: "approval \<Rightarrow> cli \<Rightarrow> cli" where
  "await a c = (with_sys ((csys c)\<lparr>state_ready := False\<rparr>) c)\<lparr>awaited := a\<rparr>"

definition logged_out :: "cli \<Rightarrow> cli" where
  "logged_out c = with_sys ((csys c)\<lparr>authenticated := False\<rparr>) c"

section \<open>Handshake\<close>

text \<open>
  \<open>processHandshake\<close>: \<open>fresh_pair\<close> is the ephemeral key pair, and the shared secret is hashed to the session key.
\<close>

definition processHandshake :: "cli_env \<Rightarrow> line_seen \<Rightarrow> bytes \<Rightarrow> cli \<Rightarrow> cli" where
  "processHandshake e v clientPubHex c =
     (if length clientPubHex \<noteq> 130 then tell (Data ''SERIAL'' ''ERR'' (Handshake_Line (ascii ''ECDH_INVALID_KEY_LENGTH''))) c
      else case fresh_pair v of
        None \<Rightarrow> tell (Data ''SERIAL'' ''ERR'' (Handshake_Line (ascii ''ECDH_GEN_PUB_FAIL''))) c
      | Some (d, q) \<Rightarrow>
          let peer = fromHex clientPubHex 65 in
          if \<not> point_ok e peer then tell (Data ''SERIAL'' ''ERR'' (Handshake_Line (ascii ''ECDH_PEER_KEY_INVALID''))) c
          else case mbedtls_ecdh (base e) d peer of
            None \<Rightarrow> tell (Data ''SERIAL'' ''ERR'' (Handshake_Line (ascii ''ECDH_COMPUTE_SHARED_FAIL''))) c
          | Some z \<Rightarrow>
              tell (Data ''SERIAL'' ''DH_ACK'' (Handshake_Line (toHex q)))
                (c\<lparr>aesKey := mbed_sha256 (crypt (base e)) z, encryptionActive := True\<rparr>))"

section \<open>Commands of the session\<close>

definition boot_event :: "cli \<Rightarrow> cli_report" where
  "boot_event c = Data ''SYS'' ''BOOT'' (Pin_Set (isPinSet (csys c)))"

definition cmd_restart :: "cli \<Rightarrow> cli" where
  "cmd_restart c = (let c = set_ready (with_sys (clearStorageKey (csys (logged_out c))) c) in tell (boot_event c) c)"

definition cmd_disconnect :: "cli \<Rightarrow> cli" where
  "cmd_disconnect c =
     (let c = (logged_out c)\<lparr>encryptionActive := False\<rparr> in
      tell (Event ''SYS'' ''DISCONNECTED'') (set_ready (with_sys (clearStorageKey (csys c)) c)))"

definition cmd_create_pin :: "cli_env \<Rightarrow> json_request \<Rightarrow> cli \<Rightarrow> cli" where
  "cmd_create_pin e r c =
     (case createPin (cplat e) (text_field r ''pin'') (csys c) of (created, s) \<Rightarrow>
        tell (if created then Event ''AUTH'' ''PIN_CREATED'' else Error ''AUTH'' ''PIN_TOO_SHORT'' []) (with_sys s c))"

definition cmd_verify_pin :: "cli_env \<Rightarrow> json_request \<Rightarrow> cli \<Rightarrow> cli" where
  "cmd_verify_pin e r c =
     (let pinInput = text_field r ''pin'' in
      case verifyPin (cplat e) pinInput (csys c) of (ok, s) \<Rightarrow>
        if ok then tell (Event ''SECURITY'' ''PIN_OK'')
          (with_sys (deriveStorageKey (cplat e) pinInput (s\<lparr>authenticated := True\<rparr>)) c)
        else with_sys s c)"

section \<open>Commands of the vault\<close>

definition chosen_password :: "cli_env \<Rightarrow> line_seen \<Rightarrow> json_request \<Rightarrow> bytes" where
  "chosen_password e v r =
     (if flag_field r ''autogen'' then generateRandomPassword (heap (cplat e)) (random_bytes v) 16
      else either_text r ''pass'' ''password'')"

definition cmd_save_pass :: "cli_env \<Rightarrow> line_seen \<Rightarrow> json_request \<Rightarrow> cli \<Rightarrow> cli option" where
  "cmd_save_pass e v r c =
     (let website = either_text r ''site'' ''website''; login = text_field r ''login''; pass = chosen_password e v r in
      if website = [] \<or> login = [] then Some (tell (Error ''PASS'' ''MISSING_ARGS'' []) c)
      else do {
        (saved, s, n) \<leftarrow> savePassword (cplat e) (cjson e) (a_pad v) website login pass (csys c, cnonces c);
        let c = (with_sys s c)\<lparr>cnonces := n\<rparr>;
        Some (if \<not> saved then c
          else tell (if flag_field r ''autogen'' then Data ''PASS'' ''SAVED'' (Generated pass) else Event ''PASS'' ''SAVED'') c) })"

definition cmd_get_pass :: "cli_env \<Rightarrow> json_request \<Rightarrow> cli \<Rightarrow> cli" where
  "cmd_get_pass e r c =
     (let pw = getPasswordFromStorage (cplat e) (cjson e) (either_text r ''site'' ''website'') (text_field r ''login'') (csys c) in
      if 0 < length pw then
        tell (Event ''PASS'' ''AWAITING_HARDWARE_APPROVAL'') (await Transmit (c\<lparr>pendingPasswordToTransmit := pw\<rparr>))
      else tell (Error ''PASS'' ''NOT_FOUND'' []) c)"

definition cmd_delete_pass :: "cli_env \<Rightarrow> json_request \<Rightarrow> cli \<Rightarrow> cli" where
  "cmd_delete_pass e r c =
     (case deletePassword (cplat e) (cjson e) (either_text r ''site'' ''website'') (text_field r ''login'') (csys c) of (ok, s) \<Rightarrow>
        tell (if ok then Event ''PASS'' ''DELETED'' else Error ''PASS'' ''NOT_FOUND'' []) (with_sys s c))"

definition cmd_list_pass :: "cli_env \<Rightarrow> cli \<Rightarrow> cli" where
  "cmd_list_pass e c =
     (case listPasswords (cplat e) (cjson e) (csys c) of
        None \<Rightarrow> tell (Error ''PASS'' ''READ_FAILED'' ''Failed to parse password JSON payload.'') c
      | Some items \<Rightarrow> tell (Data ''PASS'' ''LIST'' (Password_List items)) c)"

definition cmd_update_pass :: "cli_env \<Rightarrow> line_seen \<Rightarrow> json_request \<Rightarrow> cli \<Rightarrow> cli" where
  "cmd_update_pass e v r c =
     (let website = either_text r ''site'' ''website''; login = text_field r ''login''; pass = chosen_password e v r in
      if website = [] \<or> login = [] then tell (Error ''PASS'' ''MISSING_ARGS'' []) c
      else if \<not> isPasswordExists (cjson e) website login (csys c) then tell (Error ''PASS'' ''NOT_FOUND'' []) c
      else tell (Event ''PASS'' ''AWAITING_HARDWARE_APPROVAL'')
        (await Update (c\<lparr>pendingWebsite := website, pendingLogin := login, pendingPasswordToSave := pass\<rparr>)))"

definition cmd_save_totp :: "cli_env \<Rightarrow> line_seen \<Rightarrow> json_request \<Rightarrow> cli \<Rightarrow> cli option" where
  "cmd_save_totp e v r c =
     (let name = text_field r ''name''; secret = text_field r ''secret'' in
      if name \<noteq> [] \<and> secret \<noteq> [] then do {
        (s, n) \<leftarrow> saveTotpSecret (cplat e) (cjson e) (a_pad v) name secret (csys c, cnonces c);
        Some ((with_sys s c)\<lparr>cnonces := n\<rparr>) }
      else Some (tell (Error ''TOTP'' ''MISSING_ARGS'' []) c))"

definition cmd_get_totp :: "cli_env \<Rightarrow> json_request \<Rightarrow> cli \<Rightarrow> cli option" where
  "cmd_get_totp e r c =
     map_option (\<lambda>codes. tell (Data ''TOTP'' ''CODES'' (Totp_Codes codes)) c)
       (handleTotpGetAll (cplat e) (cjson e) (hmac_sha1 e) (word_of_int (number_field r ''epoch'' 0)) (csys c))"

definition cmd_delete_totp :: "cli_env \<Rightarrow> json_request \<Rightarrow> cli \<Rightarrow> cli" where
  "cmd_delete_totp e r c =
     (case deleteTotpSecret (cplat e) (cjson e) (text_field r ''name'') (csys c) of (ok, s) \<Rightarrow>
        tell (if ok then Event ''TOTP'' ''DELETED'' else Error ''TOTP'' ''NOT_FOUND'' []) (with_sys s c))"

definition cmd_list_fido :: "cli_env \<Rightarrow> cli \<Rightarrow> cli option" where
  "cmd_list_fido e c =
     map_option (\<lambda>l. tell (Data ''FIDO2'' ''LIST'' (Websites l)) c) (listFidoWebsites (cplat e) (files (csys c)))"

definition cmd_delete_fido :: "cli_env \<Rightarrow> json_request \<Rightarrow> cli \<Rightarrow> cli option" where
  "cmd_delete_fido e r c = do {
     (ok, fs) \<leftarrow> deleteFidoWebsite (cplat e) (either_text r ''site'' ''rpId'') (files (csys c));
     Some (tell (if ok then Event ''FIDO2'' ''DELETED'' else Error ''FIDO2'' ''NOT_FOUND'' [])
       (with_sys ((csys c)\<lparr>files := fs\<rparr>) c)) }"

definition cmd_settings :: "cli_env \<Rightarrow> json_request \<Rightarrow> cli \<Rightarrow> cli" where
  "cmd_settings e r c =
     (let alg = word_of_int (number_field r ''algId'' (- 7)) in
      tell (Data ''SYS'' ''SETTINGS_UPDATED'' (Algorithm alg))
        ((with_sys (saveDefaultCryptoAlg (cplat e) alg (csys c)) c)\<lparr>crypto_alg := alg\<rparr>))"

text \<open>The new storage key is derived, and nothing that was sealed with the old one is sealed again.\<close>

definition cmd_update_pin :: "cli_env \<Rightarrow> json_request \<Rightarrow> cli \<Rightarrow> cli" where
  "cmd_update_pin e r c =
     (let currentPin = text_field r ''current_pin''; newPin = text_field r ''new_pin'' in
      if currentPin = [] \<or> newPin = [] then tell (Error ''AUTH'' ''MISSING_ARGS'' []) c
      else case verifyPin (cplat e) currentPin (csys c) of (ok, s) \<Rightarrow>
        if \<not> ok then with_sys s c
        else case createPin (cplat e) newPin s of (created, s) \<Rightarrow>
          if created then tell (Event ''AUTH'' ''PIN_UPDATED'') (with_sys (deriveStorageKey (cplat e) newPin s) c)
          else tell (Error ''AUTH'' ''PIN_TOO_SHORT'' []) (with_sys s c))"

definition cmd_factory_reset :: "cli \<Rightarrow> cli" where
  "cmd_factory_reset c =
     tell (Event ''SYS'' ''FACTORY_RESET_COMPLETE'')
       (set_ready (logged_out (with_sys (clearStorageKey (factoryResetSystem (csys c))) c)))"

section \<open>Commands of the backup\<close>

definition cmd_backup_export :: "cli_env \<Rightarrow> line_seen \<Rightarrow> json_request \<Rightarrow> cli \<Rightarrow> cli" where
  "cmd_backup_export e v r c =
     (case backupExport (cplat e) (cjson e) (ser_archive e) (backup_salt v) (backup_nonce v) (text_field r ''passphrase'') (csys c) of
        Inl err \<Rightarrow> tell (Error ''BACKUP'' ''EXPORT_FAILED'' err) c
      | Inr events \<Rightarrow> tell (Data ''BACKUP'' ''EXPORT'' (Exported events)) c)"

definition cmd_import_begin :: "json_request \<Rightarrow> cli \<Rightarrow> cli" where
  "cmd_import_begin r c =
     (case backupImportBegin (unat (word_of_int (number_field r ''total_len'' 0) :: u32)) (text_field r ''sha256'') (import_session c) of
        (Inl err, m) \<Rightarrow> tell (Error ''BACKUP'' ''IMPORT_BEGIN_FAILED'' err) (c\<lparr>import_session := m\<rparr>)
      | (Inr _, m) \<Rightarrow> tell (Event ''BACKUP'' ''IMPORT_READY'') (c\<lparr>import_session := m\<rparr>))"

definition cmd_import_chunk :: "json_request \<Rightarrow> cli \<Rightarrow> cli" where
  "cmd_import_chunk r c =
     (case backupImportChunk (text_field r ''data'') (import_session c) of
        (Inl err, m) \<Rightarrow> tell (Error ''BACKUP'' ''IMPORT_CHUNK_FAILED'' err) (c\<lparr>import_session := m\<rparr>)
      | (Inr _, m) \<Rightarrow> c\<lparr>import_session := m\<rparr>)"

definition cmd_import_commit :: "cli_env \<Rightarrow> line_seen \<Rightarrow> json_request \<Rightarrow> cli \<Rightarrow> cli option" where
  "cmd_import_commit e v r c = do {
     (res, m, s, n) \<leftarrow> backupImportCommit (cplat e) (cjson e) (parse_archive e) (text_field r ''passphrase'') (flag_field r ''overwrite'')
       (import_pads v) (import_pads_totp v) (import_session c, csys c, cnonces c);
     let c = (with_sys s c)\<lparr>import_session := m, cnonces := n\<rparr>;
     Some (case res of
         Inl err \<Rightarrow> tell (Error ''BACKUP'' ''IMPORT_FAILED'' err) c
       | Inr counts \<Rightarrow> tell (Data ''BACKUP'' ''IMPORT_DONE'' (Imported counts)) c) }"

section \<open>The task\<close>

definition named_cmd :: "json_request \<Rightarrow> string list \<Rightarrow> bool" where
  "named_cmd r names \<longleftrightarrow> (\<exists>n \<in> set names. text_field r ''cmd'' = ascii n)"

text \<open>
  \<open>enrollFingerprint\<close> empties the sensor and enrols one finger there; the names in flash stay. The
  diagnostics report four of four whatever their outcome.
\<close>

definition vault_command :: "cli_env \<Rightarrow> line_seen \<Rightarrow> json_request \<Rightarrow> cli \<Rightarrow> cli option" where
  "vault_command e v r c =
     (if named_cmd r [''help''] then Some (tell (Data ''SYS'' ''HELP_MENU'' Help_Menu) c)
      else if named_cmd r [''SAVE_PASS'', ''create''] then cmd_save_pass e v r c
      else if named_cmd r [''GET_PASS'', ''get''] then Some (cmd_get_pass e r c)
      else if named_cmd r [''DELETE_PASS'', ''delete''] then Some (cmd_delete_pass e r c)
      else if named_cmd r [''LIST_PASS'', ''list''] then Some (cmd_list_pass e c)
      else if named_cmd r [''SAVE_TOTP''] then cmd_save_totp e v r c
      else if named_cmd r [''GET_TOTP''] then cmd_get_totp e r c
      else if named_cmd r [''DELETE_TOTP''] then Some (cmd_delete_totp e r c)
      else if named_cmd r [''LIST_FIDO''] then cmd_list_fido e c
      else if named_cmd r [''DELETE_FIDO''] then cmd_delete_fido e r c
      else if named_cmd r [''STORAGE_INFO''] then Some (tell (Data ''STORAGE'' ''STATS'' Statistics) c)
      else if named_cmd r [''PURGE_STORAGE''] then Some (with_sys (clearAllStoredPasswords (csys c)) c)
      else if named_cmd r [''RUN_DIAGNOSTICS''] then Some (tell (Data ''SYS'' ''DIAGNOSTICS_COMPLETE'' (Diagnostics 4 4)) c)
      else if named_cmd r [''UPDATE_SETTINGS'', ''SET_CRYPTO_ALG''] then Some (cmd_settings e r c)
      else if named_cmd r [''UPDATE_PASS'', ''update''] then Some (cmd_update_pass e v r c)
      else if named_cmd r [''ENROLL_FINGER''] then
        Some (tell (if enrolled v then Event ''AUTH'' ''FINGERPRINT_ENROLLED'' else Error ''AUTH'' ''ENROLL_FAILED'' []) c)
      else if named_cmd r [''BACKUP_EXPORT''] then Some (cmd_backup_export e v r c)
      else if named_cmd r [''BACKUP_IMPORT_BEGIN''] then Some (cmd_import_begin r c)
      else if named_cmd r [''BACKUP_IMPORT_CHUNK''] then Some (cmd_import_chunk r c)
      else if named_cmd r [''BACKUP_IMPORT_COMMIT''] then cmd_import_commit e v r c
      else if named_cmd r [''BACKUP_IMPORT_ABORT''] then
        Some (tell (Event ''BACKUP'' ''IMPORT_ABORTED'') (c\<lparr>import_session := backupImportAbort (import_session c)\<rparr>))
      else if named_cmd r [''FACTORY_RESET''] then Some (cmd_factory_reset c)
      else if named_cmd r [''UPDATE_PIN'', ''update_pin''] then Some (cmd_update_pin e r c)
      else Some (tell (Error ''SYS'' ''UNKNOWN_CMD'' []) c))"

definition request_step :: "cli_env \<Rightarrow> line_seen \<Rightarrow> json_request \<Rightarrow> cli \<Rightarrow> cli option" where
  "request_step e v r c =
     (if named_cmd r [''RESTART_SYSTEM''] then Some (cmd_restart c)
      else if named_cmd r [''DISCONNECT''] then Some (cmd_disconnect c)
      else if \<not> isPinSet (csys c) then
        Some (if named_cmd r [''CREATE_PIN'', ''set_pin''] then cmd_create_pin e r c
          else tell (Error ''AUTH'' ''NEW_PIN_REQ'' []) c)
      else if \<not> authenticated (csys c) then
        Some (if named_cmd r [''VERIFY_PIN'', ''verify_pin''] then cmd_verify_pin e r c
          else tell (Error ''AUTH'' ''PIN_REQ'' []) c)
      else vault_command e v r c)"

text \<open>One line, without its line end and surrounding blanks.\<close>

definition serial_line :: "cli_env \<Rightarrow> line_seen \<Rightarrow> bytes \<Rightarrow> cli \<Rightarrow> cli option" where
  "serial_line e v rawInput c =
     (if take 8 rawInput = ascii ''DH_INIT:'' then Some (set_ready (logged_out (processHandshake e v (drop 8 rawInput) c)))
      else
        let encrypted = (take 4 rawInput = ascii ''ENC:'');
            input = (if encrypted then decryptMsg (crypt (base e)) (heap (cplat e)) (aesKey c) rawInput else rawInput) in
        if encrypted \<and> input = [] then Some c
        else if \<not> encrypted \<and> encryptionActive c then Some c
        else case parse_request e input of
            None \<Rightarrow> Some (tell (Error ''SYS'' ''INVALID_JSON'' []) c)
          | Some r \<Rightarrow> request_step e v r c)"

section \<open>The finger\<close>

definition approved_update :: "cli_env \<Rightarrow> line_seen \<Rightarrow> cli \<Rightarrow> cli option" where
  "approved_update e v c = do {
     let s = snd (deletePassword (cplat e) (cjson e) (pendingWebsite c) (pendingLogin c) (csys c));
     (saved, s, n) \<leftarrow> savePassword (cplat e) (cjson e) (a_pad v) (pendingWebsite c) (pendingLogin c) (pendingPasswordToSave c)
       (s, cnonces c);
     let c = tell (if saved then Event ''PASS'' ''UPDATED'' else Error ''PASS'' ''UPDATE_FAILED'' []) ((with_sys s c)\<lparr>cnonces := n\<rparr>);
     Some (set_ready (c\<lparr>pendingWebsite := [], pendingLogin := [], pendingPasswordToSave := []\<rparr>)) }"

definition finger_turn :: "cli_env \<Rightarrow> line_seen \<Rightarrow> reading \<Rightarrow> cli \<Rightarrow> cli option" where
  "finger_turn e v f c =
     (if state_ready (csys c) then Some c
      else if retry_image 3 (\<lambda>i. getImage f (Suc i)) (getImage f 0) \<noteq> FINGERPRINT_OK then Some c
      else if image2Tz f \<noteq> FINGERPRINT_OK then Some c
      else if fingerSearch f \<noteq> FINGERPRINT_OK then Some (tell (Error ''AUTH'' ''UNKNOWN_FINGER'' []) c)
      else if match_confidence f = score c \<and> match_confidence f > 0
        then Some (set_ready (tell (Error ''AUTH'' ''REPLAY_DETECTED'' []) c))
      else
        let c = c\<lparr>score := match_confidence f\<rparr> in
        if \<not> match_confidence f > 50 then Some (tell (Error ''AUTH'' ''LOW_CONFIDENCE'' []) c)
        else if awaited c = Update then approved_update e v c
        else
          let c = tell (Data ''PASS'' ''TRANSMITTED'' (Released (pendingPasswordToTransmit c))) c in
          Some (set_ready (c\<lparr>pendingPasswordToTransmit := []\<rparr>)))"

section \<open>The terminal\<close>

text \<open>
  The buffer of \<open>SecureTerminal\<close> and what reached the port: \<open>println\<close> of a sealed text, or \<open>print\<close> of a
  plain one. \<open>pads i\<close> is the random word of the flush after which \<open>i\<close> bytes are left; \<open>None\<close> is
  \<open>abort()\<close> in the nonce generator.
\<close>

datatype sent_text = Sealed bytes | Plain bytes

record terminal =
  tbuffer :: bytes
  tnonces :: nonce_state
  port :: "sent_text list"

record tunnel =
  active :: bool
  tkey :: bytes
  tplat :: platform

definition terminal_flush :: "tunnel \<Rightarrow> u32 \<Rightarrow> terminal \<Rightarrow> terminal option" where
  "terminal_flush u pad t =
     (if tbuffer t = [] then Some t
      else if active u then do {
        (out, n) \<leftarrow> encryptMsg (backend (tplat u)) (heap (tplat u)) pad True (tkey u) (tbuffer t) (tnonces t);
        Some (t\<lparr>tbuffer := [], tnonces := n, port := port t @ [Sealed out]\<rparr>) }
      else Some (t\<lparr>tbuffer := [], port := port t @ [Plain (tbuffer t)]\<rparr>))"

fun terminal_write :: "tunnel \<Rightarrow> (nat \<Rightarrow> u32) \<Rightarrow> bytes \<Rightarrow> terminal \<Rightarrow> terminal option" where
  "terminal_write u pads [] t = Some t"
| "terminal_write u pads (c # cs) t =
     (let t = t\<lparr>tbuffer := tbuffer t @ [c]\<rparr> in do {
        t \<leftarrow> (if 512 < length (tbuffer t) then terminal_flush u (pads (Suc (length cs))) t else Some t);
        terminal_write u pads cs t })"

text \<open>\<open>Terminal.println(output)\<close> and \<open>Terminal.flush()\<close>, the end of \<open>sendEvent\<close> and \<open>sendError\<close>.\<close>

definition send_line :: "tunnel \<Rightarrow> (nat \<Rightarrow> u32) \<Rightarrow> bytes \<Rightarrow> terminal \<Rightarrow> terminal option" where
  "send_line u pads output t = do {
     t \<leftarrow> terminal_write u pads (output @ [13, 10]) t;
     terminal_flush u (pads 0) t }"

text \<open>What the other side reads.\<close>

fun opened_text :: "tunnel \<Rightarrow> sent_text \<Rightarrow> bytes" where
  "opened_text u (Sealed l) = decryptMsg (backend (tplat u)) (heap (tplat u)) (tkey u) l"
| "opened_text u (Plain x) = x"

text \<open>Primitives that seal and open: no error, and enough memory.\<close>

definition tunnel_ok :: "tunnel \<Rightarrow> bool" where
  "tunnel_ok u \<longleftrightarrow> consistent (backend (tplat u)) \<and> gcm_ok (backend (tplat u)) \<and> gcm_total (backend (tplat u)) \<and>
     (\<forall>n. heap (tplat u) n)"

definition sent_as :: "bool \<Rightarrow> sent_text \<Rightarrow> bool" where
  "sent_as sealed w \<longleftrightarrow> (case w of Sealed x \<Rightarrow> sealed | Plain x \<Rightarrow> \<not> sealed)"

lemma flush_opens:
  assumes "tunnel_ok u" "nonce_subsystem_initialized (tnonces t)" "0 \<notin> set (tbuffer t)"
  shows "\<exists>t' out. terminal_flush u pad t = Some t' \<and> nonce_subsystem_initialized (tnonces t') \<and> tbuffer t' = [] \<and>
    port t' = port t @ out \<and> concat (map (opened_text u) out) = tbuffer t \<and> list_all (sent_as (active u)) out"
proof (cases "active u \<and> tbuffer t \<noteq> []")
  case False
  then show ?thesis
    using assms by (cases "tbuffer t = []") (auto simp: terminal_flush_def sent_as_def intro: exI [of _ "[Plain (tbuffer t)]"])
next
  case True
  obtain iv n where iv: "generate_aes_gcm_nonce pad (tnonces t) = Some (iv, n)" "nonce_subsystem_initialized n"
    using assms(2) by (auto simp: generate_aes_gcm_nonce_def Let_def)
  obtain c g where "mbed_gcm_encrypt (backend (tplat u)) (tkey u) iv [] (tbuffer t) = Some (c, g)"
    using assms(1) unfolding tunnel_ok_def gcm_total_def by (metis option.exhaust surj_pair)
  then obtain e where e: "encryptMsg (backend (tplat u)) (heap (tplat u)) pad True (tkey u) (tbuffer t) (tnonces t) = Some (e, n)"
    "e \<noteq> []"
    using iv(1) assms(1) by (auto simp: encryptMsg_def accel_gcm_encrypt_eq tunnel_ok_def)
  then have "decryptMsg (backend (tplat u)) (heap (tplat u)) (tkey u) e = tbuffer t"
    using tunnel_roundtrip assms unfolding tunnel_ok_def by blast
  then show ?thesis
    using True iv(2) e(1) by (auto simp: terminal_flush_def sent_as_def intro: exI [of _ "[Sealed e]"])
qed

lemma write_opens:
  assumes "tunnel_ok u"
  shows "\<lbrakk>nonce_subsystem_initialized (tnonces t); 0 \<notin> set (tbuffer t); 0 \<notin> set cs\<rbrakk> \<Longrightarrow>
    \<exists>t' out. terminal_write u pads cs t = Some t' \<and> nonce_subsystem_initialized (tnonces t') \<and> 0 \<notin> set (tbuffer t') \<and>
      port t' = port t @ out \<and> concat (map (opened_text u) out) @ tbuffer t' = tbuffer t @ cs \<and>
      list_all (sent_as (active u)) out"
proof (induction cs arbitrary: t)
  case (Cons c cs)
  let ?t = "t\<lparr>tbuffer := tbuffer t @ [c]\<rparr>"
  have "\<exists>t1 out1. (if 512 < length (tbuffer ?t) then terminal_flush u (pads (Suc (length cs))) ?t else Some ?t) = Some t1 \<and>
    nonce_subsystem_initialized (tnonces t1) \<and> 0 \<notin> set (tbuffer t1) \<and> port t1 = port t @ out1 \<and>
    concat (map (opened_text u) out1) @ tbuffer t1 = tbuffer t @ [c] \<and> list_all (sent_as (active u)) out1"
  proof (cases "512 < length (tbuffer ?t)")
    case True
    with flush_opens [OF assms, of ?t "pads (Suc (length cs))"] Cons.prems show ?thesis by auto
  next
    case False
    then show ?thesis using Cons.prems by auto
  qed
  then obtain t1 out1 where 1:
    "(if 512 < length (tbuffer ?t) then terminal_flush u (pads (Suc (length cs))) ?t else Some ?t) = Some t1"
    "nonce_subsystem_initialized (tnonces t1)" "0 \<notin> set (tbuffer t1)" "port t1 = port t @ out1"
    "concat (map (opened_text u) out1) @ tbuffer t1 = tbuffer t @ [c]" "list_all (sent_as (active u)) out1" by blast
  have "0 \<notin> set cs" using Cons.prems(3) by simp
  from Cons.IH [OF 1(2,3) this] obtain t2 out2 where 2: "terminal_write u pads cs t1 = Some t2" "nonce_subsystem_initialized (tnonces t2)"
    "0 \<notin> set (tbuffer t2)" "port t2 = port t1 @ out2" "concat (map (opened_text u) out2) @ tbuffer t2 = tbuffer t1 @ cs"
    "list_all (sent_as (active u)) out2" by blast
  have "concat (map (opened_text u) (out1 @ out2)) @ tbuffer t2 = tbuffer t @ c # cs"
    by (metis 1(5) 2(5) append.assoc append_Cons append_Nil concat_append map_append)
  moreover have "terminal_write u pads (c # cs) t = Some t2"
    using 1(1) 2(1) by (simp add: Let_def)
  moreover have "list_all (sent_as (active u)) (out1 @ out2)" "port t2 = port t @ (out1 @ out2)"
    using 1(4,6) 2(4,6) by simp_all
  ultimately show ?case using 2(2,3) by blast
qed auto

text \<open>
  C34: The serial terminal delivers: with working primitives a report is never lost or aborted, whatever its
  length; joined together, the lines open under the session key to exactly the text written with its line
  end, the buffer is empty afterwards, and once a session is established nothing leaves the port in the
  clear.
\<close>

theorem terminal_delivers:
  assumes "tunnel_ok u" "nonce_subsystem_initialized (tnonces t)" "tbuffer t = []" "0 \<notin> set output"
  shows "\<exists>t' out. send_line u pads output t = Some t' \<and> tbuffer t' = [] \<and> port t' = port t @ out \<and>
    concat (map (opened_text u) out) = output @ [13, 10] \<and> list_all (sent_as (active u)) out"
proof -
  have "0 \<notin> set (output @ [13, 10])" using assms(4) by simp
  from write_opens [OF assms(1,2) _ this] assms(3)
  obtain t1 out1 where 1: "terminal_write u pads (output @ [13, 10]) t = Some t1" "nonce_subsystem_initialized (tnonces t1)"
    "0 \<notin> set (tbuffer t1)" "port t1 = port t @ out1" "concat (map (opened_text u) out1) @ tbuffer t1 = output @ [13, 10]"
    "list_all (sent_as (active u)) out1" by fastforce
  from flush_opens [OF assms(1) 1(2,3)] obtain t2 out2 where 2: "terminal_flush u (pads 0) t1 = Some t2" "tbuffer t2 = []"
    "port t2 = port t1 @ out2" "concat (map (opened_text u) out2) = tbuffer t1" "list_all (sent_as (active u)) out2" by blast
  show ?thesis
    by (rule exI [of _ t2], rule exI [of _ "out1 @ out2"]) (use 1 2 in \<open>simp add: send_line_def\<close>)
qed

definition toy_tunnel :: tunnel where
  "toy_tunnel = \<lparr>active = True, tkey = [5], tplat = toy_platform\<rparr>"

theorem terminal_delivers_witness:
  "\<exists>t' out. send_line toy_tunnel (\<lambda>i. 7) (ascii ''ok'') \<lparr>tbuffer = [], tnonces = booted, port = []\<rparr> = Some t' \<and>
    port t' = out \<and> concat (map (opened_text toy_tunnel) out) = ascii ''ok'' @ [13, 10] \<and> list_all (sent_as True) out"
proof -
  have "tunnel_ok toy_tunnel"
    using toy_gcm_total toy_sound by (simp add: tunnel_ok_def toy_tunnel_def toy_platform_def sound_def roomy_def)
  moreover have "nonce_subsystem_initialized booted" by (simp add: booted_def)
  moreover have "0 \<notin> set (ascii ''ok'')" by (simp add: ascii_def)
  ultimately show ?thesis
    using terminal_delivers [of toy_tunnel "\<lparr>tbuffer = [], tnonces = booted, port = []\<rparr>" "ascii ''ok''" "\<lambda>i. 7"]
    by (auto simp: toy_tunnel_def)
qed

section \<open>What a line changes\<close>

text \<open>The login and the command state.\<close>

definition same_login :: "system \<Rightarrow> system \<Rightarrow> bool" where
  "same_login s s' \<longleftrightarrow> authenticated s' = authenticated s \<and> state_ready s' = state_ready s"

named_theorems login_kept

lemma same_login_refl [login_kept]: "same_login s s"
  by (simp add: same_login_def)

lemma same_login_trans: "\<lbrakk>same_login s t; same_login t u\<rbrakk> \<Longrightarrow> same_login s u"
  by (simp add: same_login_def)

lemma login_files [login_kept]:
  "same_login s (write_file p q c s)" "same_login s (remove_file q s)" "same_login s (send x s)"
  "same_login s (clearStorageKey s)" "same_login s (deriveStorageKey p pin s)" "same_login s (s\<lparr>files := fs\<rparr>)"
  by (simp_all add: same_login_def write_file_def remove_file_def send_def clearStorageKey_def deriveStorageKey_def)

lemma login_fold_remove [login_kept]: "same_login s (fold remove_file qs s)"
  by (induction qs arbitrary: s) (auto simp: login_kept intro: same_login_trans login_files)

lemma login_reset [login_kept]: "same_login s (factoryResetSystem s)"
  unfolding factoryResetSystem_def by (rule same_login_trans [OF login_fold_remove login_files(3)])

lemma login_purge [login_kept]: "same_login s (clearAllStoredPasswords s)"
  unfolding clearAllStoredPasswords_def Let_def
  by (rule same_login_trans [OF same_login_trans [OF login_fold_remove login_files(4)] login_files(3)])

lemma login_create [login_kept]: "same_login s (snd (createPin p pin s))"
  by (simp add: createPin_def login_kept)

lemma login_verify [login_kept]: "same_login s (snd (verifyPin p pin s))"
  by (simp add: verifyPin_def Let_def resetFailedPinAttempts_def incrementFailedPinAttempts_def split: option.split)
    (simp add: same_login_def write_file_def send_def remove_file_def
      login_reset [unfolded same_login_def, THEN conjunct1] login_reset [unfolded same_login_def, THEN conjunct2])

lemma login_delete [login_kept]: "same_login s (snd (deletePassword p j w l s))"
  by (auto simp: deletePassword_def Let_def login_kept split: option.split)

lemma login_delete_totp [login_kept]: "same_login s (snd (deleteTotpSecret p j n s))"
  by (auto simp: deleteTotpSecret_def login_kept)

lemma login_alg [login_kept]: "same_login s (saveDefaultCryptoAlg p alg s)"
  by (simp add: saveDefaultCryptoAlg_def login_kept)

lemma login_save: "savePassword p j pad w l x (s, n) = Some (ok, s', n') \<Longrightarrow> same_login s s'"
  by (auto simp: savePassword_def fail_def Let_def bind_eq_Some_conv login_kept split: if_splits prod.splits)

lemma login_save_totp: "saveTotpSecret p j pad w x (s, n) = Some (s', n') \<Longrightarrow> same_login s s'"
  by (auto simp: saveTotpSecret_def Let_def bind_eq_Some_conv login_kept split: if_splits prod.splits
      intro: same_login_trans login_files)

lemma login_import_passwords:
  "import_passwords p j ov items pads counts (s, n) = Some (counts', s', n') \<Longrightarrow> same_login s s'"
proof (induction items arbitrary: pads counts s n)
  case (Cons item items)
  obtain site login pass where item: "item = (site, login, pass)" by (cases item)
  obtain imported skipped where counts: "counts = (imported, skipped)" by (cases counts)
  show ?case
  proof (cases pads)
    case (Cons pad pads')
    define s0 where "s0 = (if isPasswordExists j site login s then snd (deletePassword p j site login s) else s)"
    have d: "same_login s s0" by (simp add: s0_def login_kept)
    from Cons.prems Cons consider
      "import_passwords p j ov items pads' (imported, skipped + 1) (s, n) = Some (counts', s', n')"
    | ok s1 n1 where "savePassword p j pad site login pass (s0, n) = Some (ok, s1, n1)"
        "import_passwords p j ov items pads' (if ok then (imported + 1, skipped) else (imported, skipped + 1)) (s1, n1) =
          Some (counts', s', n')"
      by (auto simp: item counts s0_def [symmetric] Let_def bind_eq_Some_conv split: if_splits)
    then show ?thesis
    proof cases
      case 2
      then show ?thesis using Cons.IH d login_save same_login_trans by metis
    qed (rule Cons.IH)
  qed (use Cons.prems in \<open>simp add: login_kept\<close>)
qed (simp add: login_kept)

lemma login_import_totp:
  "import_totp p j ov items pads counts (s, n) = Some (counts', s', n') \<Longrightarrow> same_login s s'"
proof (induction items arbitrary: pads counts s n)
  case (Cons item items)
  obtain name secret where item: "item = (name, secret)" by (cases item)
  obtain imported skipped where counts: "counts = (imported, skipped)" by (cases counts)
  show ?case
  proof (cases pads)
    case (Cons pad pads')
    from Cons.prems Cons consider
      "import_totp p j ov items pads' (imported, skipped + 1) (s, n) = Some (counts', s', n')"
    | s1 n1 where "saveTotpSecret p j pad name secret (s, n) = Some (s1, n1)"
        "import_totp p j ov items pads' (imported + 1, skipped) (s1, n1) = Some (counts', s', n')"
      by (auto simp: item counts bind_eq_Some_conv split: if_splits)
    then show ?thesis
    proof cases
      case 2
      then show ?thesis using Cons.IH login_save_totp same_login_trans by metis
    qed (rule Cons.IH)
  qed (use Cons.prems in \<open>simp add: login_kept\<close>)
qed (simp add: login_kept)

lemma login_import: "importVaultPlaintext p j a ov pads pads' (s, n) = Some (counts, s', n') \<Longrightarrow> same_login s s'"
  by (auto simp: importVaultPlaintext_def bind_eq_Some_conv login_kept split: if_splits option.splits
      intro: same_login_trans [OF login_import_passwords same_login_trans [OF login_import_totp login_alg]]
        same_login_trans [OF login_import_passwords login_import_totp])

lemma login_commit:
  assumes "backupImportCommit p j parse pp ov pads pads' (m, s, n) = Some (res, m', s', n')"
  shows "same_login s s'"
  using assms by (auto simp: backupImportCommit_def bind_eq_Some_conv login_kept split: if_splits sum.splits option.splits prod.splits
      intro: login_import)

fun is_release :: "cli_report \<Rightarrow> bool" where
  "is_release (Data m ev (Released x)) = True"
| "is_release r = False"

text \<open>A request that waits for the finger was made in a session, and a release has something to release.\<close>

definition waiting_ok :: "cli \<Rightarrow> bool" where
  "waiting_ok c \<longleftrightarrow> (\<not> state_ready (csys c) \<longrightarrow>
     authenticated (csys c) \<and> (awaited c = Transmit \<longrightarrow> pendingPasswordToTransmit c \<noteq> []))"

definition calm :: "cli \<Rightarrow> cli \<Rightarrow> bool" where
  "calm c c' \<longleftrightarrow> (waiting_ok c \<longrightarrow> waiting_ok c') \<and> (\<exists>rs. told c' = told c @ rs \<and> list_all (\<lambda>r. \<not> is_release r) rs)"

lemma calm_refl: "calm c c"
  by (auto simp: calm_def)

lemma calm_trans: "\<lbrakk>calm c d; calm d e\<rbrakk> \<Longrightarrow> calm c e"
  unfolding calm_def by (metis append.assoc list_all_append)

lemma calm_tell: "\<not> is_release r \<Longrightarrow> calm c (tell r c)"
  by (auto simp: calm_def waiting_ok_def tell_def)

lemma calm_sys: "same_login (csys c) s \<Longrightarrow> calm c (with_sys s c)"
  by (auto simp: calm_def waiting_ok_def with_sys_def same_login_def)

lemma calm_both: "\<lbrakk>same_login (csys c) s; \<not> is_release r\<rbrakk> \<Longrightarrow> calm c (tell r (with_sys s c))"
  by (rule calm_trans [OF calm_sys calm_tell])

lemma calm_nonces: "calm c c' \<Longrightarrow> calm c (c'\<lparr>cnonces := n\<rparr>)"
  by (auto simp: calm_def waiting_ok_def)

lemma calm_import: "calm c c' \<Longrightarrow> calm c (c'\<lparr>import_session := m\<rparr>)"
  by (auto simp: calm_def waiting_ok_def)

lemma calm_ready: "\<lbrakk>state_ready (csys c'); told c' = told c\<rbrakk> \<Longrightarrow> calm c c'"
  by (auto simp: calm_def waiting_ok_def)

lemmas calm_rules = calm_refl calm_tell calm_both calm_sys calm_nonces calm_import login_kept

lemma calm_create: "calm c (cmd_create_pin e r c)"
  using login_create [of "csys c" "cplat e" "text_field r ''pin''"]
  by (auto simp: cmd_create_pin_def split: prod.splits intro!: calm_rules)

lemma calm_save: "cmd_save_pass e v r c = Some c' \<Longrightarrow> calm c c'"
  by (auto simp: cmd_save_pass_def Let_def bind_eq_Some_conv dest!: login_save split: if_splits
      intro!: calm_rules calm_trans [OF calm_nonces [OF calm_sys] calm_tell])

lemma calm_get: "authenticated (csys c) \<Longrightarrow> calm c (cmd_get_pass e r c)"
  by (auto simp: cmd_get_pass_def Let_def await_def calm_def waiting_ok_def tell_def with_sys_def)

lemma calm_update: "authenticated (csys c) \<Longrightarrow> calm c (cmd_update_pass e v r c)"
  by (auto simp: cmd_update_pass_def Let_def await_def calm_def waiting_ok_def tell_def with_sys_def)

lemma calm_delete: "calm c (cmd_delete_pass e r c)"
  using login_delete [of "csys c" "cplat e" "cjson e"]
  by (auto simp: cmd_delete_pass_def split: prod.splits intro!: calm_rules) (metis snd_conv)+

lemma calm_list: "calm c (cmd_list_pass e c)"
  by (auto simp: cmd_list_pass_def split: option.split intro!: calm_rules)

lemma calm_save_totp: "cmd_save_totp e v r c = Some c' \<Longrightarrow> calm c c'"
  by (auto simp: cmd_save_totp_def Let_def bind_eq_Some_conv dest!: login_save_totp split: if_splits intro!: calm_rules)

lemma calm_get_totp: "cmd_get_totp e r c = Some c' \<Longrightarrow> calm c c'"
  by (auto simp: cmd_get_totp_def intro!: calm_rules)

lemma calm_delete_totp: "calm c (cmd_delete_totp e r c)"
  using login_delete_totp [of "csys c" "cplat e" "cjson e"]
  by (auto simp: cmd_delete_totp_def split: prod.splits intro!: calm_rules) (metis snd_conv)+

lemma calm_fido: "cmd_list_fido e c = Some c' \<Longrightarrow> calm c c'" "cmd_delete_fido e r c = Some c' \<Longrightarrow> calm c c'"
  by (auto simp: cmd_list_fido_def cmd_delete_fido_def bind_eq_Some_conv intro!: calm_rules split: if_splits)

lemma calm_settings: "calm c (cmd_settings e r c)"
  unfolding cmd_settings_def Let_def
  by (rule calm_trans [OF _ calm_tell]) (auto simp: calm_def waiting_ok_def with_sys_def saveDefaultCryptoAlg_def write_file_def)

lemma calm_verify: "calm c (cmd_verify_pin e r c)"
  using login_verify [of "csys c" "cplat e" "text_field r ''pin''"]
  by (auto simp: cmd_verify_pin_def Let_def calm_def waiting_ok_def tell_def with_sys_def same_login_def deriveStorageKey_def
      split: prod.splits)

lemma calm_update_pin: "calm c (cmd_update_pin e r c)"
proof -
  obtain ok s where v: "verifyPin (cplat e) (text_field r ''current_pin'') (csys c) = (ok, s)" by fastforce
  obtain ok' s' where n: "createPin (cplat e) (text_field r ''new_pin'') s = (ok', s')" by fastforce
  have s: "same_login (csys c) s"
    using login_verify [of "csys c" "cplat e" "text_field r ''current_pin''"] v by simp
  have "same_login s s'" using login_create [of s "cplat e" "text_field r ''new_pin''"] n by simp
  with s have s': "same_login (csys c) s'" by (rule same_login_trans)
  then have "same_login (csys c) (deriveStorageKey (cplat e) (text_field r ''new_pin'') s')"
    using login_files(5) same_login_trans by blast
  with s s' show ?thesis
    by (simp add: cmd_update_pin_def Let_def v n calm_rules)
qed

lemma calm_export: "calm c (cmd_backup_export e v r c)"
  by (auto simp: cmd_backup_export_def split: sum.split intro!: calm_rules)

lemma calm_begin: "calm c (cmd_import_begin r c)" "calm c (cmd_import_chunk r c)"
  by (auto simp: cmd_import_begin_def cmd_import_chunk_def calm_def waiting_ok_def tell_def split: sum.splits prod.splits)

lemma calm_commit: "cmd_import_commit e v r c = Some c' \<Longrightarrow> calm c c'"
proof -
  assume a: "cmd_import_commit e v r c = Some c'"
  then obtain res m s n where b: "backupImportCommit (cplat e) (cjson e) (parse_archive e) (text_field r ''passphrase'')
    (flag_field r ''overwrite'') (import_pads v) (import_pads_totp v) (import_session c, csys c, cnonces c) = Some (res, m, s, n)"
    by (cases "backupImportCommit (cplat e) (cjson e) (parse_archive e) (text_field r ''passphrase'')
      (flag_field r ''overwrite'') (import_pads v) (import_pads_totp v) (import_session c, csys c, cnonces c)")
      (auto simp: cmd_import_commit_def)
  have "calm c ((with_sys s c)\<lparr>import_session := m, cnonces := n\<rparr>)"
    using calm_nonces [OF calm_import [OF calm_sys [OF login_commit [OF b]]]] by simp
  with a show "calm c c'"
    by (cases res) (auto simp: cmd_import_commit_def b intro: calm_trans [OF _ calm_tell])
qed

lemma calm_reset: "calm c (cmd_factory_reset c)" "calm c (cmd_restart c)" "calm c (cmd_disconnect c)"
  by (auto simp: cmd_factory_reset_def cmd_restart_def cmd_disconnect_def boot_event_def Let_def set_ready_def
      tell_def with_sys_def logged_out_def calm_def waiting_ok_def)

lemma calm_handshake: "calm c (set_ready (logged_out (processHandshake e v k c)))"
  by (auto simp: processHandshake_def set_ready_def logged_out_def with_sys_def tell_def calm_def waiting_ok_def Let_def
      split: option.split)

lemma calm_command:
  assumes "vault_command e v r c = Some c'" "authenticated (csys c)"
  shows "calm c c'"
proof -
  note here = calm_save calm_get calm_update calm_delete calm_list calm_save_totp calm_get_totp calm_delete_totp calm_fido
    calm_settings calm_update_pin calm_export calm_begin calm_commit calm_reset
  have "same_login (csys c) (clearAllStoredPasswords (csys c))" by (rule login_purge)
  then have "calm c (with_sys (clearAllStoredPasswords (csys c)) c)" by (rule calm_sys)
  then show ?thesis
    using assms unfolding vault_command_def
    by (simp add: calm_tell calm_import [OF calm_refl] calm_trans [OF calm_import [OF calm_refl] calm_tell]
        split: if_split_asm) (auto simp: calm_tell calm_trans [OF calm_import [OF calm_refl] calm_tell] intro: here)
qed

lemma calm_request: "request_step e v r c = Some c' \<Longrightarrow> calm c c'"
  unfolding request_step_def
  by (simp split: if_split_asm) (auto intro: calm_reset calm_create calm_verify calm_tell calm_command)

lemma line_cases:
  assumes "serial_line e v raw c = Some c'"
  obtains (hello) "c' = set_ready (logged_out (processHandshake e v (drop 8 raw) c))"
  | (ignored) "c' = c"
  | (bad) "c' = tell (Error ''SYS'' ''INVALID_JSON'' []) c"
  | (asked) input r where "parse_request e input = Some r" "request_step e v r c = Some c'"
  using assms unfolding serial_line_def Let_def by (auto split: if_split_asm option.split_asm)

lemma calm_line: "serial_line e v raw c = Some c' \<Longrightarrow> calm c c'"
  by (erule line_cases) (auto intro: calm_handshake calm_refl calm_tell calm_request)

section \<open>Properties\<close>

datatype cli_turn = Line line_seen bytes | Finger line_seen reading

text \<open>A turn of the loop of \<open>cliTask\<close>.\<close>

fun turn_step :: "cli_env \<Rightarrow> cli_turn \<Rightarrow> cli \<Rightarrow> cli option" where
  "turn_step e (Line v raw) c = serial_line e v raw c"
| "turn_step e (Finger v f) c = finger_turn e v f c"

text \<open>States after a start of the device.\<close>

inductive serial_reach :: "cli_env \<Rightarrow> cli \<Rightarrow> bool" for e where
  start: "state_ready (csys c) \<Longrightarrow> serial_reach e c"
| turn: "\<lbrakk>serial_reach e c; turn_step e x c = Some c'\<rbrakk> \<Longrightarrow> serial_reach e c'"

text \<open>The finger is one that releases.\<close>

definition released_by :: "reading \<Rightarrow> cli \<Rightarrow> bool" where
  "released_by f c \<longleftrightarrow> retry_image 3 (\<lambda>i. getImage f (Suc i)) (getImage f 0) = FINGERPRINT_OK \<and>
     image2Tz f = FINGERPRINT_OK \<and> fingerSearch f = FINGERPRINT_OK \<and> match_confidence f > 50 \<and> match_confidence f \<noteq> score c"

lemma finger_released:
  assumes "released_by f c" "\<not> state_ready (csys c)"
  shows "finger_turn e v f c = (if awaited c = Update then approved_update e v (c\<lparr>score := match_confidence f\<rparr>)
    else Some (set_ready ((tell (Data ''PASS'' ''TRANSMITTED'' (Released (pendingPasswordToTransmit c)))
      (c\<lparr>score := match_confidence f\<rparr>))\<lparr>pendingPasswordToTransmit := []\<rparr>)))"
  using assms by (simp add: released_by_def finger_turn_def Let_def tell_def)

lemma calm_score: "calm c (c\<lparr>score := x\<rparr>)"
  by (auto simp: calm_def waiting_ok_def)

lemma calm_approved: "approved_update e v c = Some c' \<Longrightarrow> calm c c'"
  by (auto simp: approved_update_def Let_def bind_eq_Some_conv set_ready_def with_sys_def tell_def calm_def waiting_ok_def)

lemma finger_other:
  assumes "\<not> (released_by f c \<and> \<not> state_ready (csys c) \<and> awaited c = Transmit)" "finger_turn e v f c = Some c'"
  shows "calm c c'"
proof (cases "released_by f c \<and> \<not> state_ready (csys c)")
  case True
  then have "awaited c = Update" using assms(1) by (cases "awaited c") auto
  then show ?thesis
    using True assms(2) by (auto simp: finger_released intro: calm_trans [OF calm_score calm_approved])
next
  case False
  have replay: "calm c (set_ready (tell (Error ''AUTH'' ''REPLAY_DETECTED'' []) c))"
    by (auto simp: set_ready_def with_sys_def tell_def calm_def waiting_ok_def)
  have "0 < match_confidence f" if "50 < match_confidence f"
    using le_less_trans [OF word_zero_le that] .
  with False assms(2) have "c' = c \<or> c' = tell (Error ''AUTH'' ''UNKNOWN_FINGER'' []) c \<or>
    c' = set_ready (tell (Error ''AUTH'' ''REPLAY_DETECTED'' []) c) \<or>
    c' = tell (Error ''AUTH'' ''LOW_CONFIDENCE'' []) (c\<lparr>score := match_confidence f\<rparr>)"
    by (cases "state_ready (csys c)"; cases "retry_image 3 (\<lambda>i. getImage f (Suc i)) (getImage f 0) = FINGERPRINT_OK";
        cases "image2Tz f = FINGERPRINT_OK"; cases "fingerSearch f = FINGERPRINT_OK"; cases "match_confidence f = score c";
        cases "50 < match_confidence f")
      (simp_all add: finger_turn_def released_by_def split: if_split_asm)
  then show ?thesis
    by (elim disjE) (simp_all add: calm_refl calm_tell replay calm_trans [OF calm_score calm_tell])
qed

lemma reach_waiting: "serial_reach e c \<Longrightarrow> waiting_ok c"
proof (induction rule: serial_reach.induct)
  case (turn c x c')
  show ?case
  proof (cases x)
    case (Line v raw)
    then show ?thesis using turn calm_line by (auto simp: calm_def)
  next
    case (Finger v f)
    show ?thesis
    proof (cases "released_by f c \<and> \<not> state_ready (csys c) \<and> awaited c = Transmit")
      case True
      then show ?thesis using turn.hyps(2) Finger by (auto simp: finger_released waiting_ok_def set_ready_def with_sys_def)
    next
      case False
      then show ?thesis using finger_other [OF False] turn Finger by (auto simp: calm_def)
    qed
  qed
qed (simp add: waiting_ok_def)


section \<open>A locked session\<close>

text \<open>Reports that carry nothing from the vault.\<close>

fun harmless :: "cli_report \<Rightarrow> bool" where
  "harmless (Data m ev (Pin_Set b)) = True"
| "harmless (Data m ev (Handshake_Line l)) = True"
| "harmless (Data m ev d) = False"
| "harmless r = True"

definition vault_kept :: "cli \<Rightarrow> cli \<Rightarrow> bool" where
  "vault_kept c c' \<longleftrightarrow> (\<forall>q. q \<noteq> ''/failures.txt'' \<longrightarrow> files (csys c') q = files (csys c) q) \<or> wiped (csys c')"

lemma pin_check_keeps:
  "verifyPin p pin s = (ok, s') \<Longrightarrow>
    ((\<forall>q. q \<noteq> ''/failures.txt'' \<longrightarrow> files s' q = files s q) \<or> wiped s') \<and>
    (ok \<longrightarrow> files s ''/pin.txt'' = Some (hashPin p pin))"
  by (auto simp: verifyPin_def Let_def resetFailedPinAttempts_def incrementFailedPinAttempts_def write_file_def
      wiped_def files_factoryReset split: option.split_asm if_split_asm) (auto simp: send_def)

lemma pin_line:
  assumes "\<not> authenticated (csys c)" "c' = cmd_verify_pin e r c"
  shows "\<exists>rs. told c' = told c @ rs \<and> list_all harmless rs" "vault_kept c c'"
    "authenticated (csys c') \<Longrightarrow> files (csys c) ''/pin.txt'' = Some (hashPin (cplat e) (text_field r ''pin''))"
proof -
  obtain ok s where v: "verifyPin (cplat e) (text_field r ''pin'') (csys c) = (ok, s)" by fastforce
  then have "authenticated s = authenticated (csys c)"
    using login_verify [of "csys c" "cplat e" "text_field r ''pin''"] by (simp add: same_login_def)
  moreover have "wiped (deriveStorageKey p pin (s\<lparr>authenticated := True\<rparr>)) = wiped s" for p pin
    by (simp add: wiped_def deriveStorageKey_def)
  moreover note pin_check_keeps [OF v]
  ultimately show "\<exists>rs. told c' = told c @ rs \<and> list_all harmless rs" "vault_kept c c'"
    "authenticated (csys c') \<Longrightarrow> files (csys c) ''/pin.txt'' = Some (hashPin (cplat e) (text_field r ''pin''))"
    using assms by (auto simp: cmd_verify_pin_def v vault_kept_def tell_def with_sys_def deriveStorageKey_def)
qed

lemma logged_out_ready:
  "csys (set_ready (logged_out c)) = (csys c)\<lparr>authenticated := False, state_ready := True\<rparr>"
  "told (set_ready (logged_out c)) = told c"
  by (simp_all add: set_ready_def logged_out_def with_sys_def)

lemma handshake_quiet:
  "csys (processHandshake e v k c) = csys c" "\<exists>rs. told (processHandshake e v k c) = told c @ rs \<and> list_all harmless rs"
  by (auto simp: processHandshake_def tell_def Let_def split: option.split)

text \<open>
  C8: A locked device gives nothing away: while no session has given the PIN, a line of any kind, sealed or
  plain, is answered with reports that carry nothing from the vault, changes no file but the counter of
  failed attempts unless it is the guess after which everything is wiped, and opens a session only when it
  holds the PIN whose hash is stored.
\<close>

theorem locked_line:
  assumes "serial_line e v raw c = Some c'" "isPinSet (csys c)" "\<not> authenticated (csys c)"
  shows "(\<exists>rs. told c' = told c @ rs \<and> list_all harmless rs) \<and> vault_kept c c' \<and>
    (authenticated (csys c') \<longrightarrow> (\<exists>input r. parse_request e input = Some r \<and>
      files (csys c) ''/pin.txt'' = Some (hashPin (cplat e) (text_field r ''pin''))))"
proof -
  show ?thesis
    using assms(1)
  proof (cases rule: line_cases)
    case hello
    then show ?thesis
      using handshake_quiet [of e v "drop 8 raw" c] by (auto simp: logged_out_ready vault_kept_def)
  next
    case (asked input r)
    show ?thesis
    proof (cases "named_cmd r [''RESTART_SYSTEM''] \<or> named_cmd r [''DISCONNECT''] \<or> \<not> named_cmd r [''VERIFY_PIN'', ''verify_pin'']")
      case True
      then show ?thesis
        using asked(2) assms(2,3) by (auto simp: request_step_def cmd_restart_def cmd_disconnect_def boot_event_def Let_def
            set_ready_def logged_out_def with_sys_def tell_def clearStorageKey_def vault_kept_def split: if_split_asm)
    next
      case False
      then have "c' = cmd_verify_pin e r c" using asked(2) assms(2,3) by (simp add: request_step_def)
      from pin_line [OF assms(3) this] show ?thesis using asked(1) by blast
    qed
  qed (use assms(3) in \<open>simp_all add: vault_kept_def tell_def\<close>)
qed

section \<open>Releasing and updating\<close>

lemma named_get:
  assumes "text_field r ''cmd'' = ascii ''GET_PASS''"
  shows "named_cmd r ns \<longleftrightarrow> (\<exists>n \<in> set ns. ascii ''GET_PASS'' = ascii n)"
  using assms by (simp add: named_cmd_def)

lemma request_get:
  assumes "isPinSet (csys c)" "authenticated (csys c)" "text_field r ''cmd'' = ascii ''GET_PASS''"
  shows "request_step e v r c = Some (cmd_get_pass e r c)"
  using assms(1,2) by (simp add: request_step_def vault_command_def named_get [OF assms(3)] ascii_def)

text \<open>
  C32: A password asked for is given: in a session with its PIN and a loaded key, \<open>GET_PASS\<close> for a site and
  login that the vault holds is answered by the wait for the finger, and the next touch that counts is
  answered with exactly the password held; nothing else is said, the files are as they were, and the task is
  ready again with the password forgotten.
\<close>

theorem asked_password_is_released:
  assumes "isPinSet (csys c)" "authenticated (csys c)" "isStorageKeyLoaded (csys c)" "text_field r ''cmd'' = ascii ''GET_PASS''"
    and "vault (cplat e) (cjson e) (csys c) (either_text r ''site'' ''website'', text_field r ''login'') = Some pw" "pw \<noteq> []"
    and "released_by f c"
  shows "\<exists>c1 c2. request_step e v r c = Some c1 \<and> finger_turn e v' f c1 = Some c2 \<and>
    told c2 = told c @ [Event ''PASS'' ''AWAITING_HARDWARE_APPROVAL'', Data ''PASS'' ''TRANSMITTED'' (Released pw)] \<and>
    files (csys c2) = files (csys c) \<and> state_ready (csys c2) \<and> pendingPasswordToTransmit c2 = []"
proof -
  define c1 where "c1 = tell (Event ''PASS'' ''AWAITING_HARDWARE_APPROVAL'') (await Transmit (c\<lparr>pendingPasswordToTransmit := pw\<rparr>))"
  have 1: "request_step e v r c = Some c1"
    using request_get [OF assms(1,2,4)] assms(3,5,6) by (simp add: cmd_get_pass_def get_vault c1_def)
  have "released_by f c1" "\<not> state_ready (csys c1)" "awaited c1 = Transmit"
    using assms(7) by (simp_all add: c1_def tell_def await_def with_sys_def released_by_def)
  from finger_released [OF this(1,2)] this(3) have "finger_turn e v' f c1 = Some (set_ready
    ((tell (Data ''PASS'' ''TRANSMITTED'' (Released pw)) (c1\<lparr>score := match_confidence f\<rparr>))\<lparr>pendingPasswordToTransmit := []\<rparr>))"
    by (simp add: c1_def tell_def await_def with_sys_def)
  with 1 show ?thesis
    by (simp add: c1_def tell_def await_def with_sys_def set_ready_def)
qed

text \<open>
  C33: The update of a password: when the finger that an update waits for has counted, the password is either
  replaced by the new one and reported so, or gone from the vault and reported as failed, the old one having
  been deleted first; every other entry is as before, and the three pending texts are wiped.
\<close>

theorem update_replaces:
  assumes "json_ok (cjson e)" "sound (cplat e)" "\<forall>q. can_open (cplat e) q" "storable (pendingPasswordToSave c)"
    and "released_by f c" "\<not> state_ready (csys c)" "awaited c = Update" "finger_turn e v f c = Some c'"
  shows "(told c' = told c @ [Event ''PASS'' ''UPDATED''] \<and> vault (cplat e) (cjson e) (csys c') =
        (vault (cplat e) (cjson e) (csys c))((pendingWebsite c, pendingLogin c) \<mapsto> pendingPasswordToSave c) \<or>
      told c' = told c @ [Error ''PASS'' ''UPDATE_FAILED'' []] \<and> vault (cplat e) (cjson e) (csys c') =
        (vault (cplat e) (cjson e) (csys c))((pendingWebsite c, pendingLogin c) := None)) \<and>
    pendingWebsite c' = [] \<and> pendingLogin c' = [] \<and> pendingPasswordToSave c' = [] \<and> state_ready (csys c')"
proof -
  define s where "s = snd (deletePassword (cplat e) (cjson e) (pendingWebsite c) (pendingLogin c) (csys c))"
  have d: "vault (cplat e) (cjson e) s = (vault (cplat e) (cjson e) (csys c))((pendingWebsite c, pendingLogin c) := None)"
    unfolding s_def using assms(1,3) by (rule deletePassword_vault)
  from assms(5-8) obtain saved s1 n1 where
    save: "savePassword (cplat e) (cjson e) (a_pad v) (pendingWebsite c) (pendingLogin c) (pendingPasswordToSave c) (s, cnonces c) =
      Some (saved, s1, n1)" and
    c': "csys c' = s1\<lparr>state_ready := True\<rparr>" "pendingWebsite c' = []" "pendingLogin c' = []" "pendingPasswordToSave c' = []"
      "told c' = told c @ [if saved then Event ''PASS'' ''UPDATED'' else Error ''PASS'' ''UPDATE_FAILED'' []]"
    by (auto simp: finger_released approved_update_def s_def Let_def bind_eq_Some_conv set_ready_def with_sys_def tell_def)
  have v: "vault (cplat e) (cjson e) (csys c') = vault (cplat e) (cjson e) s1"
    by (rule vault_files) (simp_all add: c')
  show ?thesis
  proof (cases saved)
    case True
    then have "vault (cplat e) (cjson e) s1 =
      (vault (cplat e) (cjson e) s)((pendingWebsite c, pendingLogin c) \<mapsto> pendingPasswordToSave c)"
      using save_vault(2) [OF assms(1,2,4), of "a_pad v" "pendingWebsite c" "pendingLogin c" s "cnonces c" s1 n1] save by simp
    with True show ?thesis by (simp add: v [unfolded c'] c' d)
  next
    case False
    then have "vault (cplat e) (cjson e) s1 = vault (cplat e) (cjson e) s"
      using savePassword_failure [of "cplat e" "cjson e" "a_pad v" "pendingWebsite c" "pendingLogin c"
        "pendingPasswordToSave c" s "cnonces c" s1 n1] save by (intro vault_files) simp_all
    then show ?thesis using False d by (simp add: v [unfolded c'] c')
  qed
qed

text \<open>
  A change of the PIN derives another storage key and leaves the files of the vault as they are: what was
  sealed with the old key is opened with the new one from then on.
\<close>

lemma pin_update_reseals_nothing:
  assumes "told (cmd_update_pin e r c) = told c @ [Event ''AUTH'' ''PIN_UPDATED'']" "q \<in> {''/passwords.json'', ''/totp.json''}"
    and "accel_pbkdf2_sha256 (backend (cplat e)) (text_field r ''new_pin'') (ascii ''VAULT_STORAGE_SALT'') 10000 32 = Some k"
  shows "files (csys (cmd_update_pin e r c)) q = files (csys c) q" "storage_key (csys (cmd_update_pin e r c)) = k"
  using assms
  by (auto simp: cmd_update_pin_def verifyPin_def createPin_def Let_def tell_def with_sys_def resetFailedPinAttempts_def
      deriveStorageKey_def write_file_def remove_file_def split: option.split_asm if_split_asm prod.split_asm)

section \<open>Examples\<close>

definition toy_get :: json_request where
  "toy_get = [''cmd'' \<mapsto> Str (ascii ''GET_PASS''), ''site'' \<mapsto> Str (ascii ''a.org''), ''login'' \<mapsto> Str (ascii ''ann'')]"

definition toy_cli_env :: cli_env where
  "toy_cli_env = \<lparr>base = toy_env, parse_request = (\<lambda>i. Some toy_get), hmac_sha1 = (\<lambda>k x. replicate 20 0),
     ser_archive = (\<lambda>a. []), parse_archive = (\<lambda>x. None), point_ok = (\<lambda>q. True)\<rparr>"

definition toy_seen :: line_seen where
  "toy_seen = \<lparr>random_bytes = (\<lambda>n. replicate n 0), a_pad = 7, import_pads = [], import_pads_totp = [], backup_salt = [],
     backup_nonce = [], fresh_pair = None, enrolled = False\<rparr>"

definition toy_cli :: "system \<Rightarrow> cli" where
  "toy_cli s = \<lparr>csys = s, cnonces = booted, awaited = Transmit, pendingWebsite = [], pendingLogin = [],
     pendingPasswordToTransmit = [], pendingPasswordToSave = [], encryptionActive = False, aesKey = replicate 32 0,
     score = 0, crypto_alg = - 7, import_session = \<lparr>importAccumHex = [], importTotalLen = 0, importExpectedSha256 = [],
       importInProgress = False\<rparr>, told = []\<rparr>"

definition toy_pinned :: system where
  "toy_pinned = open_system\<lparr>files := [''/pin.txt'' \<mapsto> [1]]\<rparr>"

lemma toy_pinned_simps:
  "isPinSet toy_pinned" "authenticated toy_pinned" "state_ready toy_pinned" "isStorageKeyLoaded toy_pinned"
  "vault p j toy_pinned = Map.empty" "logins (passwords_doc j toy_pinned) = 0" "files toy_pinned ''/pin.txt'' = Some [1]"
  by (auto simp: toy_pinned_def open_system_def isPinSet_def vault_def passwords_doc_def member_def logins_def)

lemma toy_get_fields:
  "text_field toy_get ''cmd'' = ascii ''GET_PASS''" "either_text toy_get ''site'' ''website'' = ascii ''a.org''"
  "text_field toy_get ''login'' = ascii ''ann''"
  by (simp_all add: text_field_def either_text_def text_of_def toy_get_def ascii_def cstr_def)

lemma toy_saved:
  obtains s where "isPinSet s" "authenticated s" "state_ready s" "isStorageKeyLoaded s"
    "vault toy_platform toy_json s (ascii ''a.org'', ascii ''ann'') = Some (ascii ''pw'')"
proof -
  have s: "storable (ascii ''pw'')" by (simp add: storable_def ascii_def)
  have e: "vault toy_platform toy_json toy_pinned k = None" for k by (simp add: toy_pinned_simps)
  have l: "length (ascii ''a.org'') \<le> 64" "length (ascii ''ann'') \<le> 64" "length (ascii ''pw'') \<le> 4000"
    by (simp_all add: ascii_def)
  have d: "logins (passwords_doc toy_json toy_pinned) < 1000" by (simp add: toy_pinned_simps)
  obtain s' n' where r: "savePassword toy_platform toy_json 7 (ascii ''a.org'') (ascii ''ann'') (ascii ''pw'')
      (toy_pinned, booted) = Some (True, s', n')"
    by (rule savePassword_ok [OF toy_sound toy_gcm_total toy_json_ok toy_pinned_simps(4) toy_vault(2) s l e d])
  note v = save_vault [OF toy_json_ok toy_sound s r]
  show thesis
    by (rule that [of s']) (use v login_save [OF r] toy_pinned_simps in \<open>auto simp: isPinSet_def same_login_def\<close>)
qed

lemma toy_touch: "score c < 80 \<Longrightarrow> released_by touch c"
  by (auto simp: released_by_def touch_def numeral_3_eq_3)

lemma toy_env_parts: "cplat toy_cli_env = toy_platform" "cjson toy_cli_env = toy_json"
  by (simp_all add: toy_cli_env_def toy_env_def)

theorem asked_password_is_released_witness:
  "\<exists>c c1 c2. request_step toy_cli_env toy_seen toy_get c = Some c1 \<and> finger_turn toy_cli_env toy_seen touch c1 = Some c2 \<and>
    told c2 = [Event ''PASS'' ''AWAITING_HARDWARE_APPROVAL'', Data ''PASS'' ''TRANSMITTED'' (Released (ascii ''pw''))]"
proof -
  obtain s where s: "isPinSet s" "authenticated s" "isStorageKeyLoaded s"
    "vault toy_platform toy_json s (ascii ''a.org'', ascii ''ann'') = Some (ascii ''pw'')" by (rule toy_saved)
  then show ?thesis
    using asked_password_is_released [of "toy_cli s" toy_get toy_cli_env "ascii ''pw''" touch toy_seen toy_seen]
    by (force simp: toy_get_fields toy_env_parts toy_cli_def toy_touch ascii_def)
qed


theorem locked_line_witness:
  "\<exists>c'. serial_line toy_cli_env toy_seen [123] (toy_cli (toy_pinned\<lparr>authenticated := False\<rparr>)) = Some c' \<and>
    told c' = [Error ''AUTH'' ''PIN_REQ'' []] \<and> vault_kept (toy_cli (toy_pinned\<lparr>authenticated := False\<rparr>)) c'"
proof -
  let ?c = "toy_cli (toy_pinned\<lparr>authenticated := False\<rparr>)"
  have p: "isPinSet (csys ?c)" "\<not> authenticated (csys ?c)"
    by (simp_all add: toy_cli_def isPinSet_def toy_pinned_simps)
  have s: "serial_line toy_cli_env toy_seen [123] ?c = Some (tell (Error ''AUTH'' ''PIN_REQ'' []) ?c)"
    using p by (simp add: serial_line_def toy_cli_def toy_cli_env_def ascii_def request_step_def named_cmd_def
        toy_get_fields [unfolded ascii_def])
  from locked_line [OF s p] s show ?thesis by (auto simp: tell_def toy_cli_def)
qed

theorem update_replaces_witness:
  "\<exists>c c'. finger_turn toy_cli_env toy_seen touch c = Some c' \<and> pendingPasswordToSave c = ascii ''pw'' \<and>
    pendingPasswordToSave c' = [] \<and> state_ready (csys c')"
proof -
  define c where "c = (toy_cli (toy_pinned\<lparr>state_ready := False\<rparr>))\<lparr>awaited := Update, pendingWebsite := ascii ''a.org'',
    pendingLogin := ascii ''ann'', pendingPasswordToSave := ascii ''pw''\<rparr>"
  have f: "released_by touch c" "\<not> state_ready (csys c)" "awaited c = Update" "storable (pendingPasswordToSave c)"
    by (simp_all add: toy_touch c_def toy_cli_def storable_def ascii_def)
  have o: "\<forall>q. can_open toy_platform q" by (simp add: toy_platform_def)
  define s where "s = snd (deletePassword toy_platform toy_json (ascii ''a.org'') (ascii ''ann'') (csys c))"
  obtain ok s' n' where "savePassword toy_platform toy_json 7 (ascii ''a.org'') (ascii ''ann'') (ascii ''pw'') (s, booted) =
    Some (ok, s', n')"
    by (rule savePassword_total [OF toy_vault(2)])
  moreover have "pendingWebsite c = ascii ''a.org''" "pendingLogin c = ascii ''ann''" "cnonces c = booted"
    "pendingPasswordToSave c = ascii ''pw''" "a_pad toy_seen = 7"
    by (simp_all add: c_def toy_cli_def toy_seen_def)
  ultimately obtain c' where t: "finger_turn toy_cli_env toy_seen touch c = Some c'" "pendingPasswordToSave c = ascii ''pw''"
    by (simp add: finger_released [OF f(1,2)] f(3) approved_update_def toy_env_parts s_def [symmetric])
  from update_replaces [of toy_cli_env c touch toy_seen c'] toy_json_ok toy_sound o f t show ?thesis
    by (auto simp: toy_env_parts)
qed

end
