(* ===== verification/Provisioning.thy ===== *)
theory Provisioning
  imports Ctap
begin

text \<open>
  Provisioning of the attestation identity over the serial port, \<open>src/AttensationProvisioningCmd.cpp\<close>
  (compiled into bench builds only): the decoding of the hexadecimal texts, the check that key and
  certificate belong together, and the writing of both to flash.
\<close>

section \<open>Hexadecimal texts\<close>

definition hexNibble :: "u8 \<Rightarrow> int" where
  "hexNibble c =
     (if 48 \<le> c \<and> c \<le> 57 then uint c - 48
      else if 97 \<le> c \<and> c \<le> 102 then uint c - 97 + 10
      else if 65 \<le> c \<and> c \<le> 70 then uint c - 65 + 10
      else - 1)"

fun hex_pairs :: "bytes \<Rightarrow> bytes option" where
  "hex_pairs (h # l # src) =
     (if hexNibble h < 0 \<or> hexNibble l < 0 then None
      else map_option ((#) (word_of_int (16 * hexNibble h + hexNibble l))) (hex_pairs src))"
| "hex_pairs src = Some []"

definition hexDecode :: "bytes \<Rightarrow> nat \<Rightarrow> bytes option" where
  "hexDecode src n = (if length src \<noteq> n * 2 then None else hex_pairs src)"

section \<open>Key and certificate\<close>

text \<open>
  The calls into mbedTLS: \<open>crt_parse\<close> is the parsed public key or the error code, a key being of type
  \<open>ECKEY\<close> or \<open>ECDSA\<close> or not, with its point when it can be written; \<open>derive_pub\<close> is the point of a private
  key of the curve.
\<close>

record x509 =
  crt_parse :: "bytes \<Rightarrow> int + bool \<times> bytes option"
  derive_pub :: "bytes \<Rightarrow> bytes option"

datatype mismatch =
    Cert_Parse_Failed int nat | Cert_Pubkey_Not_Ec | Privkey_Derive_Failed | Cert_Pubkey_Read_Failed
  | Point_Mismatch bytes bytes

definition attestationKeyMatchesCert :: "x509 \<Rightarrow> bytes \<Rightarrow> bytes \<Rightarrow> mismatch option" where
  "attestationKeyMatchesCert x privKey certDer =
     (case crt_parse x certDer of
        Inl parseRet \<Rightarrow> Some (Cert_Parse_Failed parseRet (length certDer))
      | Inr (ec, certPub) \<Rightarrow>
          if \<not> ec then Some Cert_Pubkey_Not_Ec
          else case derive_pub x privKey of
            None \<Rightarrow> Some Privkey_Derive_Failed
          | Some ourPub \<Rightarrow>
              (case certPub of
                 None \<Rightarrow> Some Cert_Pubkey_Read_Failed
               | Some q \<Rightarrow> if ourPub = q then None else Some (Point_Mismatch (toHex ourPub) (toHex q))))"

section \<open>The command\<close>

datatype prov_error = BAD_PRIVKEY_LENGTH | BAD_PRIVKEY_HEX | BAD_CERT_LENGTH | BAD_CERT_HEX
  | KEY_CERT_MISMATCH mismatch | OOM | NVS_WRITE

definition MAX_CERT_LEN :: nat where
  "MAX_CERT_LEN = 2000"

definition chain_blob :: "bytes \<Rightarrow> bytes" where
  "chain_blob certDer =
     (let certLen = length certDer in
      [1, of_nat (certLen div 256 mod 256), of_nat (certLen mod 256)] @ certDer)"

definition provisionAttestationFromHex ::
  "x509 \<Rightarrow> platform \<Rightarrow> bool \<Rightarrow> bytes \<Rightarrow> bytes \<Rightarrow> system \<Rightarrow> prov_error option \<times> system" where
  "provisionAttestationFromHex x p nvs privHex certHex s =
     (if length privHex \<noteq> 64 then (Some BAD_PRIVKEY_LENGTH, s)
      else case hexDecode privHex 32 of
        None \<Rightarrow> (Some BAD_PRIVKEY_HEX, s)
      | Some privKey \<Rightarrow>
          let certLen = length certHex div 2 in
          if length certHex mod 2 \<noteq> 0 \<or> certLen = 0 \<or> certLen > MAX_CERT_LEN then (Some BAD_CERT_LENGTH, s)
          else case (if heap p certLen then hexDecode certHex certLen else None) of
            None \<Rightarrow> (Some BAD_CERT_HEX, s)
          | Some certDer \<Rightarrow>
              (case attestationKeyMatchesCert x privKey certDer of
                 Some reason \<Rightarrow> (Some (KEY_CERT_MISMATCH reason), s)
               | None \<Rightarrow>
                   if \<not> heap p (3 + certLen) then (Some OOM, s)
                   else
                     let (_, s) = eraseAttestationProvisioning nvs s;
                         (keyOk, s) = saveAttestationPrivateKey nvs privKey s;
                         (chainOk, s) = saveAttestationCertChain nvs (chain_blob certDer) s in
                     if keyOk \<and> chainOk \<and> isAttestationProvisioned nvs s then (None, s) else (Some NVS_WRITE, s)))"

section \<open>Properties\<close>

lemma nibble_digit:
  "word_of_int (16 * hexNibble (hex_digit (drop_bit 4 b)) + hexNibble (hex_digit (b AND 15))) = b \<and>
    \<not> hexNibble (hex_digit (drop_bit 4 b)) < 0 \<and> \<not> hexNibble (hex_digit (b AND 15)) < 0"
  by (rule all_bytes [of "\<lambda>b. word_of_int (16 * hexNibble (hex_digit (drop_bit 4 b)) + hexNibble (hex_digit (b AND 15))) = b \<and>
    \<not> hexNibble (hex_digit (drop_bit 4 b)) < 0 \<and> \<not> hexNibble (hex_digit (b AND 15)) < 0"]) code_simp

lemma nibble_word:
  "16 * word_of_int (hexNibble (hex_digit (drop_bit 4 b))) + word_of_int (hexNibble (hex_digit (b AND 15))) = (b :: u8)"
  using nibble_digit [of b] by simp

lemma hex_pairs_toHex: "hex_pairs (toHex d) = Some d"
  by (induction d) (simp_all add: toHex_Cons nibble_digit nibble_word)

lemma hexDecode_toHex: "n = length d \<Longrightarrow> hexDecode (toHex d) n = Some d"
  by (simp add: hexDecode_def hex_pairs_toHex)

lemma hex_pairs_length: "hex_pairs src = Some d \<Longrightarrow> length d = length src div 2"
  by (induction src arbitrary: d rule: hex_pairs.induct) (auto split: if_splits)

text \<open>The certificate is read back from the blob.\<close>

lemma leaf_of_blob:
  assumes "attestationChainCache c = chain_blob cert" "length cert \<le> MAX_CERT_LEN"
  shows "getLeafAttestationCert c = Some cert"
proof -
  have "unat (of_nat (length cert div 256 mod 256) :: u8) = length cert div 256"
    "unat (of_nat (length cert mod 256) :: u8) = length cert mod 256"
    using assms(2) by (simp_all add: unat_of_nat MAX_CERT_LEN_def)
  then show ?thesis
    using assms(1) by (simp add: getLeafAttestationCert_def chain_blob_def Let_def nth_Cons numeral_2_eq_2)
qed

text \<open>
  A provisioned identity is the one used: a command that succeeds was given a key of 32 bytes and a
  certificate of at most 2000 whose public key is that of the key, and after the next start the
  authenticator attests with exactly this certificate and this key. A command that fails before the check
  of the pair is passed leaves the stored identity as it was.
\<close>

theorem provisioned_identity_is_used:
  assumes "provisionAttestationFromHex x p nvs (toHex key) (toHex cert) s = (err, s')"
    and "nvs_ok e = nvs" "sys c = s'" "\<not> attestationReady c"
  shows "case err of
      None \<Rightarrow> length key = 32 \<and> attestationKeyMatchesCert x key cert = None \<and>
        isBatchAttestationAvailable (initFidoAttestation e c) \<and>
        getLeafAttestationCert (initFidoAttestation e c) = Some cert \<and>
        attestationPrivKeyCache (initFidoAttestation e c) = key
    | Some f \<Rightarrow> s' = s \<or> f = NVS_WRITE"
proof (cases "length key = 32 \<and> 0 < length cert \<and> length cert \<le> MAX_CERT_LEN \<and> heap p (length cert) \<and>
    attestationKeyMatchesCert x key cert = None \<and> heap p (3 + length cert) \<and> nvs")
  case True
  then have k: "hexDecode (toHex key) 32 = Some key" "hexDecode (toHex cert) (length cert) = Some cert"
    by (simp_all add: hexDecode_toHex)
  have l: "length (chain_blob cert) = 3 + length cert" by (simp add: chain_blob_def Let_def)
  with True have "length (chain_blob cert) \<le> 2048" by (simp add: MAX_CERT_LEN_def)
  with True k l assms(1) have s': "err = None" "attest_chain s' = Some (chain_blob cert)" "attest_privkey s' = Some key"
    by (auto simp: provisionAttestationFromHex_def eraseAttestationProvisioning_def saveAttestationPrivateKey_def
        saveAttestationCertChain_def ATTESTATION_CHAIN_MAX_LEN_def isAttestationProvisioned_def)
  with True l assms(2-4) \<open>length (chain_blob cert) \<le> 2048\<close>
  have i: "attestationChainCache (initFidoAttestation e c) = chain_blob cert"
    "attestationPrivKeyCache (initFidoAttestation e c) = key" "isBatchAttestationAvailable (initFidoAttestation e c)"
    by (simp_all add: initFidoAttestation_def loadAttestationCertChain_def loadAttestationPrivateKey_def
        isBatchAttestationAvailable_def)
  with leaf_of_blob [OF i(1)] True s'(1) show ?thesis by simp
next
  case False
  then have "err \<noteq> None \<and> (s' = s \<or> err = Some NVS_WRITE)"
    using assms(1) by (cases "length key = 32") (auto simp: provisionAttestationFromHex_def hexDecode_toHex Let_def
        eraseAttestationProvisioning_def saveAttestationPrivateKey_def saveAttestationCertChain_def split: if_splits option.splits)
  then show ?thesis by auto
qed

definition toy_x509 :: x509 where
  "toy_x509 = \<lparr>crt_parse = (\<lambda>d. Inr (True, Some (take 1 d))), derive_pub = (\<lambda>k. Some (take 1 k))\<rparr>"

theorem provisioned_identity_is_used_witness:
  "\<exists>s'. provisionAttestationFromHex toy_x509 toy_platform True (toHex (replicate 32 7)) (toHex [7, 9]) open_system = (None, s') \<and>
    getLeafAttestationCert (initFidoAttestation toy_env (toy_ctap\<lparr>sys := s', attestationReady := False\<rparr>)) = Some [7, 9]"
proof -
  have "hexDecode (toHex (replicate 32 7)) 32 = Some (replicate 32 7)" by (rule hexDecode_toHex) simp
  moreover have "hexDecode (toHex [7, 9]) 2 = Some [7, 9]" by (rule hexDecode_toHex) simp
  ultimately obtain s' where s': "provisionAttestationFromHex toy_x509 toy_platform True (toHex (replicate 32 7)) (toHex [7, 9])
      open_system = (None, s')"
    by (simp add: provisionAttestationFromHex_def attestationKeyMatchesCert_def toy_x509_def MAX_CERT_LEN_def chain_blob_def
        eraseAttestationProvisioning_def saveAttestationPrivateKey_def saveAttestationCertChain_def
        ATTESTATION_CHAIN_MAX_LEN_def isAttestationProvisioned_def toy_platform_def)
  from provisioned_identity_is_used [OF s', of toy_env "toy_ctap\<lparr>sys := s', attestationReady := False\<rparr>"] s'
  show ?thesis by (simp add: toy_env_def)
qed

end
