(* ===== verification/Atecc.thy ===== *)
theory Atecc
  imports CryptoAccel
begin

text \<open>
  The driver of the ATECC608 key chip, \<open>src/AteccManager.cpp\<close>, and the mixing of random bytes and the
  wrappers of \<open>CryptoManager.cpp\<close> that use it. The bus is a parameter: a state with the low pulse on SDA,
  the write of a packet and the read of bytes. Times and log lines are left out, and so is the mutex.
\<close>

section \<open>Check sums\<close>

definition atca_shift :: "u16 \<Rightarrow> bool \<Rightarrow> u16" where
  "atca_shift crcRegister dataBit =
     (let crcBit = bit crcRegister 15; c = push_bit 1 crcRegister in if dataBit \<noteq> crcBit then c XOR 0x8005 else c)"

definition atca_register :: "bytes \<Rightarrow> u16" where
  "atca_register d = foldl (\<lambda>c x. foldl (\<lambda>c i. atca_shift c (bit x i)) c [0..<8]) 0 d"

definition atcaCrc :: "bytes \<Rightarrow> bytes" where
  "atcaCrc d = [ucast (atca_register d AND 0x00FF), ucast (drop_bit 8 (atca_register d))]"

section \<open>Bus\<close>

text \<open>
  \<open>send_to\<close> is what \<open>endTransmission\<close> returns, 0 for success; \<open>take_from n\<close> the bytes that \<open>requestFrom\<close> and
  \<open>read\<close> deliver, at most \<open>n\<close>.
\<close>

record 'c i2c =
  pulse :: "'c \<Rightarrow> 'c"
  send_to :: "bytes \<Rightarrow> 'c \<Rightarrow> nat \<times> 'c"
  take_from :: "nat \<Rightarrow> 'c \<Rightarrow> bytes \<times> 'c"

fun wake_attempts :: "'c i2c \<Rightarrow> nat \<Rightarrow> 'c \<Rightarrow> bool \<times> 'c" where
  "wake_attempts w 0 c = (False, c)"
| "wake_attempts w (Suc n) c =
     (case take_from w 4 (pulse w c) of (resp, c) \<Rightarrow>
        if length resp = 4 \<and> resp ! 0 = 0x04 \<and> resp ! 1 = 0x11 \<and> atcaCrc (take 2 resp) = drop 2 resp then (True, c)
        else wake_attempts w n c)"

definition wake :: "'c i2c \<Rightarrow> 'c \<Rightarrow> bool \<times> 'c" where
  "wake w = wake_attempts w 4"

section \<open>One command\<close>

text \<open>The packet, after the word address.\<close>

definition atca_packet :: "u8 \<Rightarrow> u8 \<Rightarrow> u16 \<Rightarrow> bytes \<Rightarrow> bytes" where
  "atca_packet opcode param1 param2 data =
     (let p = [of_nat (length data + 7), opcode, param1, ucast (param2 AND 0xFF), ucast (drop_bit 8 param2)] @ data in
      p @ atcaCrc p)"

fun poll_length :: "'c i2c \<Rightarrow> nat \<Rightarrow> 'c \<Rightarrow> u8 option \<times> 'c" where
  "poll_length w 0 c = (None, c)"
| "poll_length w (Suc n) c =
     (case take_from w 1 c of (got, c) \<Rightarrow> if length got = 1 then (Some (got ! 0), c) else poll_length w n c)"

text \<open>\<open>Inl\<close> is a failure with what it leaves in \<open>errStatus\<close>, if anything.\<close>

definition runCommand ::
  "'c i2c \<Rightarrow> u8 \<Rightarrow> u8 \<Rightarrow> u16 \<Rightarrow> bytes \<Rightarrow> nat \<Rightarrow> 'c \<Rightarrow> (u8 option + bytes) \<times> 'c" where
  "runCommand w opcode param1 param2 data respLen c =
     (if length data > 32 then (Inl None, c)
      else case send_to w (0x03 # atca_packet opcode param1 param2 data) c of (sent, c) \<Rightarrow>
        if sent \<noteq> 0 then (Inl (Some 0xF1), c)
        else case poll_length w 50 c of
          (None, c) \<Rightarrow> (Inl (Some 0xF2), c)
        | (Some len, c) \<Rightarrow>
            let n = unat len in
            if n < 4 then (Inl (Some 0xF3), c)
            else if n > 96 then (Inl (Some 0xF4), c)
            else case take_from w (n - 1) c of (body, c) \<Rightarrow>
              if length body \<noteq> n - 1 then (Inl (Some 0xF5), c)
              else
                let resp = len # body in
                if atcaCrc (take (n - 2) resp) \<noteq> drop (n - 2) resp then (Inl (Some 0xF6), c)
                else if n = 4 \<and> respLen \<noteq> 1 then (Inl (Some (resp ! 1)), c)
                else if n - 3 \<noteq> respLen then (Inl (Some 0xF7), c)
                else (Inr (take (n - 3) (drop 1 resp)), c))"

definition awake_command ::
  "'c i2c \<Rightarrow> u8 \<Rightarrow> u8 \<Rightarrow> u16 \<Rightarrow> bytes \<Rightarrow> nat \<Rightarrow> 'c \<Rightarrow> (u8 option + bytes) \<times> 'c" where
  "awake_command w opcode param1 param2 data respLen c =
     (case wake w c of (ok, c) \<Rightarrow>
        if ok then runCommand w opcode param1 param2 data respLen c else (Inl (Some 0xF8), c))"

section \<open>Operations\<close>

text \<open>The chip with \<open>ateccPresent\<close>.\<close>

definition atecc_init :: "'c i2c \<Rightarrow> 'c \<Rightarrow> bool \<times> 'c" where
  "atecc_init w c = wake w c"

function fill_blocks :: "'c i2c \<Rightarrow> nat \<Rightarrow> 'c \<Rightarrow> bytes option \<times> 'c" where
  "fill_blocks w len c =
     (if len = 0 then (Some [], c)
      else case awake_command w 0x1B 0x00 0x0000 [] 32 c of
        (Inl _, c) \<Rightarrow> (None, c)
      | (Inr scratch, c) \<Rightarrow>
          (case fill_blocks w (len - min 32 len) c of
             (None, c) \<Rightarrow> (None, c)
           | (Some rest, c) \<Rightarrow> (Some (take (min 32 len) scratch @ rest), c)))"
  by pat_completeness auto

termination
  by (relation "measure (\<lambda>(w, len, c). len)") auto

declare fill_blocks.simps [simp del]

definition atecc_fill_random :: "'c i2c \<Rightarrow> bool \<Rightarrow> nat \<Rightarrow> 'c \<Rightarrow> bytes option \<times> 'c" where
  "atecc_fill_random w ateccPresent len c =
     (if \<not> ateccPresent \<or> len = 0 then (None, c) else fill_blocks w len c)"

definition atecc_genkey_p256 :: "'c i2c \<Rightarrow> bool \<Rightarrow> u8 \<Rightarrow> 'c \<Rightarrow> bytes option \<times> 'c" where
  "atecc_genkey_p256 w ateccPresent slot c =
     (if \<not> ateccPresent then (None, c)
      else case awake_command w 0x40 0x04 (ucast slot) [] 64 c of
        (Inl _, c) \<Rightarrow> (None, c)
      | (Inr pub, c) \<Rightarrow> (Some pub, c))"

definition atecc_sign_p256 :: "'c i2c \<Rightarrow> bool \<Rightarrow> u8 \<Rightarrow> bytes \<Rightarrow> 'c \<Rightarrow> bytes option \<times> 'c" where
  "atecc_sign_p256 w ateccPresent slot digest32 c =
     (if \<not> ateccPresent then (None, c)
      else case awake_command w 0x16 0x03 0x0000 digest32 1 c of
        (Inl _, c) \<Rightarrow> (None, c)
      | (Inr ack, c) \<Rightarrow>
          if ack ! 0 \<noteq> 0x00 then (None, c)
          else (case runCommand w 0x41 0x80 (ucast slot) [] 64 c of
              (Inl _, c) \<Rightarrow> (None, c)
            | (Inr sig, c) \<Rightarrow> (Some sig, c)))"

definition atecc_lock_config_zone :: "'c i2c \<Rightarrow> bool \<Rightarrow> 'c \<Rightarrow> bool \<times> 'c" where
  "atecc_lock_config_zone w ateccPresent c =
     (if \<not> ateccPresent then (False, c)
      else case awake_command w 0x17 0x80 0x0000 [] 1 c of
        (Inl _, c) \<Rightarrow> (False, c)
      | (Inr ack, c) \<Rightarrow> (ack ! 0 = 0x00, c))"

fun read_blocks :: "'c i2c \<Rightarrow> nat list \<Rightarrow> 'c \<Rightarrow> bytes option \<times> 'c" where
  "read_blocks w [] c = (Some [], c)"
| "read_blocks w (block # blocks) c =
     (case awake_command w 0x02 0x80 (of_nat block * 8) [] 32 c of
        (Inl _, c) \<Rightarrow> (None, c)
      | (Inr b, c) \<Rightarrow>
          (case read_blocks w blocks c of
             (None, c) \<Rightarrow> (None, c)
           | (Some rest, c) \<Rightarrow> (Some (b @ rest), c)))"

definition atecc_read_config_zone :: "'c i2c \<Rightarrow> bool \<Rightarrow> 'c \<Rightarrow> bytes option \<times> 'c" where
  "atecc_read_config_zone w ateccPresent c =
     (if \<not> ateccPresent then (None, c) else read_blocks w [0..<4] c)"

definition atecc_read_lock_state :: "'c i2c \<Rightarrow> bool \<Rightarrow> 'c \<Rightarrow> (u8 \<times> u8) option \<times> 'c" where
  "atecc_read_lock_state w ateccPresent c =
     (if \<not> ateccPresent then (None, c)
      else case awake_command w 0x02 0x80 (2 * 8) [] 32 c of
        (Inl _, c) \<Rightarrow> (None, c)
      | (Inr block2, c) \<Rightarrow> (Some (block2 ! 22, block2 ! 23), c))"

section \<open>Users\<close>

text \<open>
  \<open>secureFillRandom\<close>: \<open>esp\<close> are the bytes of the ESP32, \<open>room\<close> and \<open>room'\<close> say whether the two allocations
  succeed.
\<close>

definition secureFillRandom ::
  "backends \<Rightarrow> 'c i2c \<Rightarrow> bool \<Rightarrow> bool \<Rightarrow> bool \<Rightarrow> bytes \<Rightarrow> 'c \<Rightarrow> bytes \<times> 'c" where
  "secureFillRandom b w ateccPresent room room' esp c =
     (let out = accel_mix_random b room esp in
      if \<not> ateccPresent \<or> \<not> room' then (out, c)
      else case atecc_fill_random w ateccPresent (length esp) c of
        (None, c) \<Rightarrow> (out, c)
      | (Some ateccBytes, c) \<Rightarrow> (map2 (XOR) out ateccBytes, c))"

definition generateKeypairP256_ATECC :: "'c i2c \<Rightarrow> bool \<Rightarrow> u8 \<Rightarrow> 'c \<Rightarrow> bytes option \<times> 'c" where
  "generateKeypairP256_ATECC w ateccPresent slot c =
     (case atecc_genkey_p256 w ateccPresent slot c of (pub64, c) \<Rightarrow> (map_option ((#) 0x04) pub64, c))"

text \<open>\<open>der\<close> is \<open>derEncodeSignature\<close> on two numbers of 32 bytes: calls into mbedTLS.\<close>

definition signECDSA_P256_ATECC ::
  "(bytes \<Rightarrow> bytes \<Rightarrow> bytes option) \<Rightarrow> 'c i2c \<Rightarrow> bool \<Rightarrow> u8 \<Rightarrow> bytes \<Rightarrow> 'c \<Rightarrow> bytes option \<times> 'c" where
  "signECDSA_P256_ATECC der w ateccPresent slot digest c =
     (if length digest \<noteq> 32 then (None, c)
      else case atecc_sign_p256 w ateccPresent slot digest c of
        (None, c) \<Rightarrow> (None, c)
      | (Some rawSig, c) \<Rightarrow> (der (take 32 rawSig) (drop 32 rawSig), c))"

section \<open>A chip that follows the protocol\<close>

text \<open>
  \<open>exec\<close> is what the chip does with a command; it answers a packet whose length and check sum are right, and
  keeps the reply until it is read.
\<close>

definition framed :: "bytes \<Rightarrow> bytes" where
  "framed p = (let r = of_nat (length p + 3) # p in r @ atcaCrc r)"

fun unpacked :: "bytes \<Rightarrow> (u8 \<times> u8 \<times> u16 \<times> bytes) option" where
  "unpacked (a # n # opcode # param1 # lo # hi # rest) =
     (let d = take (length rest - 2) rest in
      if a = 0x03 \<and> unat n = 5 + length rest \<and> atcaCrc ([n, opcode, param1, lo, hi] @ d) = drop (length rest - 2) rest
      then Some (opcode, param1, ucast lo OR push_bit 8 (ucast hi), d) else None)"
| "unpacked x = None"

definition chip_bus :: "(u8 \<Rightarrow> u8 \<Rightarrow> u16 \<Rightarrow> bytes \<Rightarrow> 's \<Rightarrow> bytes \<times> 's) \<Rightarrow> ('s \<times> bytes) i2c" where
  "chip_bus exec = \<lparr>pulse = (\<lambda>(s, out). (s, framed [0x11])),
     send_to = (\<lambda>x (s, out). case unpacked x of
         None \<Rightarrow> (1, (s, out))
       | Some (opcode, param1, param2, d) \<Rightarrow> (case exec opcode param1 param2 d s of (p, s) \<Rightarrow> (0, (s, framed p)))),
     take_from = (\<lambda>n (s, out). (take n out, (s, drop n out)))\<rparr>"

lemma length_atcaCrc [simp]: "length (atcaCrc d) = 2"
  by (simp add: atcaCrc_def)

lemma length_framed [simp]: "length (framed p) = length p + 3"
  by (simp add: framed_def Let_def)

lemma chip_wakes: "wake (chip_bus exec) (s, out) = (True, (s, []))"
  by (simp add: wake_def chip_bus_def framed_def Let_def numeral_eq_Suc atcaCrc_def)

lemma unpacked_packet:
  assumes "length d \<le> 32"
  shows "unpacked (0x03 # atca_packet opcode param1 param2 d) = Some (opcode, param1, param2, d)"
proof -
  have n: "unat (of_nat (length d + 7) :: u8) = length d + 7"
    using assms by (simp only: unat_of_nat) simp
  have w: "ucast (ucast (param2 AND 0xFF) :: u8) OR push_bit 8 (ucast (ucast (drop_bit 8 param2) :: u8)) = param2"
  proof -
    have m: "(0xFF :: u16) = mask 8" by (simp add: mask_eq_exp_minus_1)
    show ?thesis unfolding m by (rule bit_eqI) (auto simp: bit_simps)
  qed
  show ?thesis using n w by (simp add: atca_packet_def Let_def)
qed

lemma poll_ready: "out \<noteq> [] \<Longrightarrow> poll_length (chip_bus exec) (Suc n) (s, out) = (Some (hd out), (s, tl out))"
  by (cases out) (simp_all add: chip_bus_def)

text \<open>A command is executed as it was given, and its payload comes back.\<close>

lemma command_runs:
  assumes "length d \<le> 32" "exec opcode param1 param2 d s = (p, s')" "p \<noteq> []" "length p \<le> 93"
  shows "runCommand (chip_bus exec) opcode param1 param2 d n (s, out) =
    (if length p = n then Inr p else if length p = 1 then Inl (Some (hd p)) else Inl (Some 0xF7), (s', []))"
proof -
  let ?w = "chip_bus exec"
  have sent: "send_to ?w (0x03 # atca_packet opcode param1 param2 d) (s, out) = (0, (s', framed p))"
    by (simp add: chip_bus_def unpacked_packet [OF assms(1)] assms(2))
  define L where "L = (of_nat (length p + 3) :: u8)"
  have n: "unat L = length p + 3"
    using assms(4) by (simp only: L_def unat_of_nat) simp
  have f: "framed p = L # p @ atcaCrc (L # p)"
    by (simp add: framed_def Let_def L_def)
  have "framed p \<noteq> []" by (simp add: f)
  from poll_ready [OF this, of exec 49 s'] have poll: "poll_length ?w 50 (s', framed p) = (Some L, (s', p @ atcaCrc (L # p)))"
    by (simp add: f)
  have body: "take_from ?w (length p + 2) (s', p @ atcaCrc (L # p)) = (p @ atcaCrc (L # p), (s', []))"
    by (simp add: chip_bus_def)
  have arith: "length p + 3 - 1 = length p + 2" "length p + 3 - 2 = Suc (length p)" "length p + 3 - 3 = length p"
    "\<not> length p + 3 < 4" "\<not> length p + 3 > 96" "length p + 3 = 4 \<longleftrightarrow> length p = 1" "\<not> length d > 32"
    "length (p @ atcaCrc (L # p)) = length p + 2"
    using assms(1,3,4) by (auto simp: Suc_le_eq)
  have parts: "take (Suc (length p)) (L # p @ atcaCrc (L # p)) = L # p" "drop (Suc (length p)) (L # p @ atcaCrc (L # p)) = atcaCrc (L # p)"
    "take (length p) (drop 1 (L # p @ atcaCrc (L # p))) = p" "(L # p @ atcaCrc (L # p)) ! 1 = hd p"
    using assms(3) by (cases p, simp_all)+
  show ?thesis
    unfolding runCommand_def Let_def
    by (simp only: sent prod.case poll option.case n arith body parts if_False refl not_True_eq_False simp_thms split: if_split)
      auto
qed

lemma awake_runs:
  assumes "length d \<le> 32" "exec opcode param1 param2 d s = (p, s')" "p \<noteq> []" "length p \<le> 93"
  shows "awake_command (chip_bus exec) opcode param1 param2 d n (s, out) =
    (if length p = n then Inr p else if length p = 1 then Inl (Some (hd p)) else Inl (Some 0xF7), (s', []))"
  by (simp add: awake_command_def chip_wakes command_runs [of d exec opcode param1 param2 s p s' n, OF assms])

text \<open>
  C35: The driver and the chip agree: with a chip that follows the protocol, a signature is the chip's for
  exactly the digest given. The digest is loaded first, a refusal of it ends the command without a
  signature, and what the second command answers is returned when it is a signature of 64 bytes and
  reported as a failure otherwise; in each case the chip has executed exactly these commands.
\<close>

theorem chip_signs_digest:
  assumes "length digest = 32" "exec 0x16 0x03 0 digest s = ([ack], s1)"
    and "exec 0x41 0x80 (ucast slot) [] s1 = (sig, s2)" "sig \<noteq> []" "length sig \<le> 93"
  shows "atecc_sign_p256 (chip_bus exec) True slot digest (s, out) =
    (if ack \<noteq> 0 then (None, (s1, [])) else if length sig = 64 then (Some sig, (s2, [])) else (None, (s2, [])))"
proof -
  note nonce = awake_runs [of digest exec "0x16" "0x03" 0 s "[ack]" s1 1 out]
  note sign = command_runs [of "[]" exec "0x41" "0x80" "ucast slot" s1 sig s2 64 "[]"]
  show ?thesis
    using nonce sign assms by (simp add: atecc_sign_p256_def)
qed

definition toy_exec :: "u8 \<Rightarrow> u8 \<Rightarrow> u16 \<Rightarrow> bytes \<Rightarrow> bytes \<Rightarrow> bytes \<times> bytes" where
  "toy_exec opcode param1 param2 d s = (if opcode = 0x16 then ([0], d) else (s @ s, s))"

theorem chip_signs_digest_witness:
  "fst (atecc_sign_p256 (chip_bus toy_exec) True 3 (replicate 32 7) ([], [])) = Some (replicate 64 7)"
  using chip_signs_digest [of "replicate 32 7" toy_exec "[]" 0 "replicate 32 7" 3 "replicate 64 7" "replicate 32 7" "[]"]
  by (simp add: toy_exec_def replicate_add [symmetric])

text \<open>Random bytes fill the buffer, or nothing is delivered.\<close>

lemma command_length:
  "runCommand w opcode param1 param2 d n c = (Inr r, c') \<Longrightarrow> length r = n"
  by (auto simp: runCommand_def Let_def split: if_splits prod.splits option.splits)

lemma awake_length:
  "awake_command w opcode param1 param2 d n c = (Inr r, c') \<Longrightarrow> length r = n"
  by (auto simp: awake_command_def split: if_splits prod.splits dest: command_length)

lemma fill_blocks_length: "fill_blocks w len c = (Some r, c') \<Longrightarrow> length r = len"
proof (induction len arbitrary: c r c' rule: less_induct)
  case (less len)
  show ?case
  proof (cases "len = 0")
    case True
    then show ?thesis using less.prems by (simp add: fill_blocks.simps)
  next
    case False
    obtain scratch c1 rest where b: "awake_command w 0x1B 0x00 0x0000 [] 32 c = (Inr scratch, c1)"
      "fill_blocks w (len - min 32 len) c1 = (Some rest, c')" "r = take (min 32 len) scratch @ rest"
    proof (cases "awake_command w 0x1B 0x00 0x0000 [] 32 c")
      case (Pair res c1)
      show ?thesis
      proof (cases res)
        case (Inr scratch)
        obtain r1 c2 where f: "fill_blocks w (len - min 32 len) c1 = (r1, c2)" by fastforce
        have "fill_blocks w len c = (case r1 of None \<Rightarrow> (None, c2) | Some rest \<Rightarrow> (Some (take (min 32 len) scratch @ rest), c2))"
          by (subst fill_blocks.simps) (simp add: False Pair Inr f)
        with less.prems obtain rest where "r1 = Some rest" "c2 = c'" "r = take (min 32 len) scratch @ rest"
          by (cases r1) simp_all
        with Pair Inr f that show ?thesis by blast
      next
        case (Inl x)
        have "fill_blocks w len c = (None, c1)" by (subst fill_blocks.simps) (simp add: False Pair Inl)
        with less.prems show ?thesis by simp
      qed
    qed
    have "length rest = len - min 32 len" using less.IH [OF _ b(2)] False by simp
    with awake_length [OF b(1)] b(3) show ?thesis by simp
  qed
qed

text \<open>
  The chip can only add to the randomness of the buffer: whatever it delivers, two different outputs of the
  other sources stay different.
\<close>

lemma map2_xor_inj:
  fixes u v r :: bytes
  assumes "length u = length r" "length v = length r" "map2 (XOR) u r = map2 (XOR) v r"
  shows "u = v"
proof (rule nth_equalityI)
  fix i assume i: "i < length u"
  have "map2 (XOR) u r ! i = map2 (XOR) v r ! i" by (simp only: assms(3))
  then have "u ! i XOR r ! i = v ! i XOR r ! i" using i assms(1,2) by simp
  then have "(u ! i XOR r ! i) XOR r ! i = (v ! i XOR r ! i) XOR r ! i" by simp
  then show "u ! i = v ! i" by (simp only: xor.assoc xor_self_eq xor.right_neutral)
qed (use assms in simp)

lemma mixing_is_injective:
  assumes "length (accel_mix_random b room x) = length x" "length (accel_mix_random b room y) = length y" "length x = length y"
    and "secureFillRandom b w present room room' x c = secureFillRandom b w present room room' y c"
  shows "accel_mix_random b room x = accel_mix_random b room y"
proof (cases "atecc_fill_random w present (length x) c")
  case (Pair r c')
  have s: "fst (secureFillRandom b w present room room' z c) =
    (if present \<and> room' \<and> r \<noteq> None then map2 (XOR) (accel_mix_random b room z) (the r) else accel_mix_random b room z)"
    if "length z = length x" for z
    using that Pair by (cases r; cases present; cases room') (simp_all add: secureFillRandom_def Let_def)
  define P where "P = (present \<and> room' \<and> r \<noteq> None)"
  have e: "(if P then map2 (XOR) (accel_mix_random b room x) (the r) else accel_mix_random b room x) =
    (if P then map2 (XOR) (accel_mix_random b room y) (the r) else accel_mix_random b room y)"
    unfolding P_def by (rule trans [OF s [OF refl, symmetric] trans [OF arg_cong [OF assms(4), of fst] s [OF assms(3) [symmetric]]]])
  show ?thesis
  proof (cases P)
    case True
    then have "length (the r) = length x"
      using Pair fill_blocks_length by (auto simp: P_def atecc_fill_random_def split: if_splits)
    then have "length (accel_mix_random b room x) = length (the r)" "length (accel_mix_random b room y) = length (the r)"
      using assms(1-3) by (simp_all only:)
    then show ?thesis by (rule map2_xor_inj) (rule e [unfolded if_P [OF True]])
  next
    case False
    show ?thesis by (rule e [unfolded if_not_P [OF False]])
  qed
qed

end
