(* ===== verification/UartBridge.thy ===== *)
theory UartBridge
  imports Prelude "HOL-Library.Sublist"
begin

text \<open>
  The bridge between USB and the serial link of the accelerator in the firmware of the BL616,
  \<open>hw/bl616/goikey/src/uart_bridge.c\<close>: two rings of 4096 bytes, filled and drained by interrupt handlers and
  one task. An interrupt handler is one step; the task can be interrupted between the bytes it copies. The
  histories \<open>from_usb\<close>, \<open>to_line\<close>, \<open>from_line\<close>, \<open>to_usb\<close> are what crossed the interfaces.
\<close>

section \<open>The queue a ring implements\<close>

locale byte_queue =
  fixes put :: "'a \<Rightarrow> 'q \<Rightarrow> 'q" and next_item :: "'q \<Rightarrow> 'a" and drop_item :: "'q \<Rightarrow> 'q"
    and items :: "'q \<Rightarrow> 'a list" and good :: "'q \<Rightarrow> bool" and cap :: nat
  assumes items_put: "good q \<Longrightarrow> length (items q) < cap \<Longrightarrow> items (put x q) = items q @ [x]"
    and good_put: "good q \<Longrightarrow> length (items q) < cap \<Longrightarrow> good (put x q)"
    and items_next: "good q \<Longrightarrow> items q \<noteq> [] \<Longrightarrow> items q = next_item q # items (drop_item q)"
    and good_drop: "good q \<Longrightarrow> items q \<noteq> [] \<Longrightarrow> good (drop_item q)"
begin

lemma put_all:
  "good q \<Longrightarrow> length (items q) + length xs \<le> cap \<Longrightarrow> good (fold put xs q) \<and> items (fold put xs q) = items q @ xs"
  by (induction xs arbitrary: q) (simp_all add: items_put good_put)

lemma drop_all:
  "good q \<Longrightarrow> n \<le> length (items q) \<Longrightarrow> good ((drop_item ^^ n) q) \<and> items ((drop_item ^^ n) q) = drop n (items q)"
proof (induction n arbitrary: q)
  case (Suc n)
  then have ne: "items q \<noteq> []" by auto
  have "items q = next_item q # items (drop_item q)" by (rule items_next [OF Suc.prems(1) ne])
  moreover from this Suc.prems(2) have "n \<le> length (items (drop_item q))" by (cases "items q") auto
  ultimately show ?case
    using Suc.IH [OF good_drop [OF Suc.prems(1) ne]]
    by (simp only: funpow_Suc_right o_apply) (metis drop_Suc_Cons)
qed simp

end

section \<open>Rings\<close>

record ring =
  cells :: bytes
  head :: u32
  tail :: u32

definition RING :: u32 where
  "RING = 4096"

definition used :: "ring \<Rightarrow> u32" where
  "used r = head r - tail r"

definition ring_at :: "ring \<Rightarrow> u32 \<Rightarrow> u8" where
  "ring_at r i = cells r ! unat (i AND (RING - 1))"

definition ring_put :: "u8 \<Rightarrow> ring \<Rightarrow> ring" where
  "ring_put c r = r\<lparr>cells := (cells r)[unat (head r AND (RING - 1)) := c], head := head r + 1\<rparr>"

definition ring_drop :: "ring \<Rightarrow> ring" where
  "ring_drop r = r\<lparr>tail := tail r + 1\<rparr>"

definition txr_free :: "ring \<Rightarrow> u32" where
  "txr_free r = RING - used r"

text \<open>The bytes waiting, the oldest first.\<close>

definition waiting :: "ring \<Rightarrow> bytes" where
  "waiting r = map (\<lambda>i. ring_at r (tail r + of_nat i)) [0..<unat (used r)]"

definition ring_ok :: "ring \<Rightarrow> bool" where
  "ring_ok r \<longleftrightarrow> length (cells r) = 4096 \<and> unat (used r) \<le> 4096"

lemma length_waiting [simp]: "length (waiting r) = unat (used r)"
  by (simp add: waiting_def)

lemma unat_masked: "unat (i AND (RING - 1)) = unat i mod 4096"
proof -
  have "RING - 1 = mask 12" by (simp add: RING_def mask_eq_exp_minus_1)
  then show ?thesis by (simp add: take_bit_eq_mask [symmetric] unsigned_take_bit_eq take_bit_eq_mod unat_mod)
qed

lemma index_mod: "unat (t + of_nat i :: u32) mod 4096 = (unat t + i) mod 4096"
proof -
  have "unat (t + of_nat i :: u32) = (unat t + i) mod 4294967296"
    by (simp add: unat_word_ariths(1) unat_of_nat mod_simps)
  then have "unat (t + of_nat i :: u32) mod 4096 = (unat t + i) mod 4294967296 mod 4096" by (simp only:)
  also have "\<dots> = (unat t + i) mod 4096" by (rule mod_mod_cancel) simp
  finally show ?thesis .
qed

lemma head_index: "unat (head r) mod 4096 = (unat (tail r) + unat (used r)) mod 4096"
  using index_mod [of "tail r" "unat (used r)"] by (simp add: used_def)

lemma used_put: "unat (used r) < 4096 \<Longrightarrow> unat (used (ring_put c r)) = Suc (unat (used r))"
proof -
  assume "unat (used r) < 4096"
  moreover have "used (ring_put c r) = used r + 1" by (simp add: used_def ring_put_def)
  ultimately show ?thesis by (simp add: unat_word_ariths(1))
qed

lemma waiting_put:
  assumes "ring_ok r" "unat (used r) < 4096"
  shows "waiting (ring_put c r) = waiting r @ [c]" "ring_ok (ring_put c r)"
proof -
  have len: "length (cells r) = 4096" using assms(1) by (simp add: ring_ok_def)
  have old: "ring_at (ring_put c r) (tail r + of_nat i) = ring_at r (tail r + of_nat i)" if "i < unat (used r)" for i
  proof -
    have "(unat (tail r) + unat (used r)) mod 4096 \<noteq> (unat (tail r) + i) mod 4096"
    proof
      assume "(unat (tail r) + unat (used r)) mod 4096 = (unat (tail r) + i) mod 4096"
      then have "(4096::nat) dvd unat (tail r) + unat (used r) - (unat (tail r) + i)"
        using that by (subst (asm) mod_eq_dvd_iff_nat) simp_all
      then show False using that assms(2) by (simp add: nat_dvd_not_less)
    qed
    then show ?thesis by (simp add: ring_at_def ring_put_def unat_masked head_index index_mod)
  qed
  have new: "ring_at (ring_put c r) (tail r + of_nat (unat (used r))) = c"
    using len by (simp add: ring_at_def ring_put_def unat_masked used_def)
  have "tail (ring_put c r) = tail r" by (simp add: ring_put_def)
  then show "waiting (ring_put c r) = waiting r @ [c]"
    using old new unfolding waiting_def used_put [OF assms(2)] by simp
  show "ring_ok (ring_put c r)"
    using assms len by (simp add: ring_ok_def used_put) (simp add: ring_put_def)
qed

lemma waiting_drop:
  assumes "ring_ok r" "used r \<noteq> 0"
  shows "waiting r = ring_at r (tail r) # waiting (ring_drop r)" "ring_ok (ring_drop r)"
proof -
  obtain n where n: "unat (used r) = Suc n" using assms(2) by (metis not0_implies_Suc unat_eq_zero)
  have "used (ring_drop r) = used r - 1" by (simp add: used_def ring_drop_def)
  then have u: "unat (used (ring_drop r)) = n" using n by (simp add: unat_minus_one [OF assms(2)])
  have "[0..<Suc n] = 0 # map Suc [0..<n]" by (simp add: map_Suc_upt upt_conv_Cons)
  then show "waiting r = ring_at r (tail r) # waiting (ring_drop r)"
    unfolding waiting_def u n by (simp add: ring_drop_def ring_at_def add.assoc o_def)
  show "ring_ok (ring_drop r)" using assms(1) n u by (simp add: ring_ok_def) (simp add: ring_drop_def)
qed

lemma no_wait: "waiting r = [] \<longleftrightarrow> used r = 0" "waiting r = [] \<longleftrightarrow> tail r = head r"
proof -
  show "waiting r = [] \<longleftrightarrow> used r = 0" by (metis length_0_conv length_waiting unat_eq_zero)
  then show "waiting r = [] \<longleftrightarrow> tail r = head r" by (auto simp: used_def)
qed

interpretation rq: byte_queue ring_put "\<lambda>r. ring_at r (tail r)" ring_drop waiting ring_ok 4096
  by unfold_locales (simp_all add: waiting_put waiting_drop no_wait)

section \<open>The bridge\<close>

text \<open>
  What the task is doing: nothing, or copying \<open>n\<close> bytes from position \<open>t\<close> of the ring, so many of which are in
  its buffer. \<open>tx_unmasked\<close> is the FIFO-empty interrupt, \<open>read_started\<close> says that a read of the OUT endpoint is
  pending.
\<close>

datatype copying = Idle | Copying nat u32 bytes

record bridge =
  txr :: ring
  rxr :: ring
  rx_overflow :: u32
  out_armed :: bool
  usb_ready :: bool
  cdc_configured :: bool
  cdc_tx_busy :: bool
  tx_unmasked :: bool
  read_started :: bool
  task :: copying
  debug_rx_bytes :: u32
  debug_tx_bytes :: u32
  from_usb :: bytes
  to_line :: bytes
  from_line :: bytes
  to_usb :: bytes

text \<open>
  The loops of \<open>uart_isr\<close>; nothing runs between their turns, so the index is moved at once. \<open>fifo\<close> are the
  bytes available, \<open>ready\<close> the room in the transmitter.
\<close>

fun rx_loop :: "bytes \<Rightarrow> bridge \<Rightarrow> bridge" where
  "rx_loop [] b = b"
| "rx_loop (c # fifo) b =
     (let b = b\<lparr>from_line := from_line b @ [c]\<rparr> in
      rx_loop fifo (if used (rxr b) < RING then b\<lparr>rxr := ring_put c (rxr b)\<rparr> else b\<lparr>rx_overflow := rx_overflow b + 1\<rparr>))"

fun tx_loop :: "nat \<Rightarrow> bridge \<Rightarrow> bridge" where
  "tx_loop 0 b = b"
| "tx_loop (Suc ready) b =
     (if tail (txr b) = head (txr b) then b
      else tx_loop ready (b\<lparr>to_line := to_line b @ [ring_at (txr b) (tail (txr b))], txr := ring_drop (txr b)\<rparr>))"

definition uart_isr :: "bool \<Rightarrow> bytes \<Rightarrow> bool \<Rightarrow> nat \<Rightarrow> bridge \<Rightarrow> bridge" where
  "uart_isr rx_status fifo tx_status ready b =
     (let b = (if rx_status then rx_loop fifo b else b) in
      if tx_status then
        let b = tx_loop ready b in if tail (txr b) = head (txr b) then b\<lparr>tx_unmasked := False\<rparr> else b
      else b)"

definition CDC_OUT_MPS :: u32 where
  "CDC_OUT_MPS = 64"

text \<open>The read that brought the packet is over when the callback runs.\<close>

definition cdc_bulk_out_cb :: "bytes \<Rightarrow> bridge \<Rightarrow> bridge" where
  "cdc_bulk_out_cb packet b =
     (let b = b\<lparr>txr := fold ring_put packet (txr b), from_usb := from_usb b @ packet,
            debug_tx_bytes := debug_tx_bytes b + of_nat (length packet),
            tx_unmasked := (tx_unmasked b \<or> packet \<noteq> [])\<rparr> in
      if txr_free (txr b) \<ge> CDC_OUT_MPS then b\<lparr>read_started := True\<rparr>
      else b\<lparr>read_started := False, out_armed := False\<rparr>)"

definition cdc_bulk_in_cb :: "bridge \<Rightarrow> bridge" where
  "cdc_bulk_in_cb b = b\<lparr>cdc_tx_busy := False\<rparr>"

definition uart_bridge_start :: "bridge \<Rightarrow> bridge" where
  "uart_bridge_start b =
     b\<lparr>txr := (txr b)\<lparr>head := 0, tail := 0\<rparr>, rxr := (rxr b)\<lparr>head := 0, tail := 0\<rparr>, out_armed := True, usb_ready := True,
       cdc_configured := True, cdc_tx_busy := False, read_started := True\<rparr>"

text \<open>The parts of a turn of \<open>uart_task\<close>: re-arming, the decision to copy, one byte, the end of the copy.\<close>

definition task_rearm :: "bridge \<Rightarrow> bridge" where
  "task_rearm b =
     (if usb_ready b \<and> \<not> out_armed b \<and> txr_free (txr b) \<ge> CDC_OUT_MPS then b\<lparr>out_armed := True, read_started := True\<rparr> else b)"

definition task_begin :: "bridge \<Rightarrow> bridge" where
  "task_begin b =
     (let n = used (rxr b) in
      if n \<noteq> 0 \<and> \<not> cdc_tx_busy b then b\<lparr>task := Copying (unat (if n > 512 then 512 else n)) (tail (rxr b)) []\<rparr> else b)"

definition task_copy :: "bridge \<Rightarrow> bridge" where
  "task_copy b =
     (case task b of
        Copying n t buf \<Rightarrow> if length buf < n then b\<lparr>task := Copying n t (buf @ [ring_at (rxr b) (t + of_nat (length buf))])\<rparr> else b
      | Idle \<Rightarrow> b)"

definition task_end :: "bridge \<Rightarrow> bridge" where
  "task_end b =
     (case task b of
        Copying n t buf \<Rightarrow>
          let b = b\<lparr>rxr := (rxr b)\<lparr>tail := t + of_nat n\<rparr>, debug_rx_bytes := debug_rx_bytes b + of_nat n, task := Idle\<rparr> in
          if cdc_configured b then b\<lparr>cdc_tx_busy := True, to_usb := to_usb b @ buf\<rparr> else b
      | Idle \<Rightarrow> b)"

text \<open>
  Any interleaving after \<open>uart_bridge_start\<close>. A packet arrives only while a read is pending and has at most 64
  bytes.
\<close>

inductive bridge_run :: "bridge \<Rightarrow> bool" where
  start: "\<lbrakk>length (cells (txr b)) = 4096; length (cells (rxr b)) = 4096; rx_overflow b = 0; task b = Idle;
    from_usb b = []; to_line b = []; from_line b = []; to_usb b = []\<rbrakk> \<Longrightarrow> bridge_run (uart_bridge_start b)"
| isr: "bridge_run b \<Longrightarrow> bridge_run (uart_isr rx_status fifo tx_status ready b)"
| out: "\<lbrakk>bridge_run b; read_started b; length packet \<le> 64\<rbrakk> \<Longrightarrow> bridge_run (cdc_bulk_out_cb packet b)"
| inn: "bridge_run b \<Longrightarrow> bridge_run (cdc_bulk_in_cb b)"
| rearm: "\<lbrakk>bridge_run b; task b = Idle\<rbrakk> \<Longrightarrow> bridge_run (task_rearm b)"
| begins: "\<lbrakk>bridge_run b; task b = Idle\<rbrakk> \<Longrightarrow> bridge_run (task_begin b)"
| copies: "bridge_run b \<Longrightarrow> bridge_run (task_copy b)"
| ends: "\<lbrakk>bridge_run b; task b = Copying n t buf; length buf = n\<rbrakk> \<Longrightarrow> bridge_run (task_end b)"

section \<open>Invariant\<close>

text \<open>What the line has sent, what is lost and what the task has in hand.\<close>

definition rx_kept :: "bridge \<Rightarrow> bytes" where
  "rx_kept b = to_usb b @ waiting (rxr b)"

definition bridge_ok :: "bridge \<Rightarrow> bool" where
  "bridge_ok b \<longleftrightarrow> ring_ok (txr b) \<and> ring_ok (rxr b) \<and> usb_ready b \<and> cdc_configured b \<and> (out_armed b \<longleftrightarrow> read_started b) \<and>
     (read_started b \<longrightarrow> unat (used (txr b)) \<le> 4096 - 64) \<and> (waiting (txr b) \<noteq> [] \<longrightarrow> tx_unmasked b) \<and>
     from_usb b = to_line b @ waiting (txr b) \<and>
     subseq (rx_kept b) (from_line b) \<and> rx_overflow b + of_nat (length (rx_kept b)) = of_nat (length (from_line b)) \<and>
     (case task b of Idle \<Rightarrow> True
      | Copying n t buf \<Rightarrow> t = tail (rxr b) \<and> length buf \<le> n \<and> n \<le> length (waiting (rxr b)) \<and> buf = take (length buf) (waiting (rxr b)))"

lemma room_iff: "ring_ok r \<Longrightarrow> used r < RING \<longleftrightarrow> unat (used r) < 4096"
  by (simp add: RING_def word_less_nat_alt)

lemma free_iff: "ring_ok r \<Longrightarrow> CDC_OUT_MPS \<le> txr_free r \<longleftrightarrow> unat (used r) \<le> 4096 - 64"
proof -
  assume "ring_ok r"
  then have u: "unat (used r) \<le> 4096" by (simp add: ring_ok_def)
  then have "used r \<le> RING" by (simp add: RING_def word_le_nat_alt)
  then have "unat (txr_free r) = 4096 - unat (used r)"
    by (simp add: txr_free_def unat_sub RING_def)
  with u show ?thesis by (auto simp: CDC_OUT_MPS_def word_le_nat_alt)
qed

lemma ok_rx_loop: "bridge_ok b \<Longrightarrow> bridge_ok (rx_loop fifo b)"
proof (induction fifo arbitrary: b)
  case (Cons c fifo)
  have r: "ring_ok (rxr b)" using Cons.prems by (simp add: bridge_ok_def)
  show ?case
  proof (cases "used (rxr b) < RING")
    case True
    then have l: "unat (used (rxr b)) < 4096" using r by (simp add: room_iff)
    have t: "tail (ring_put c (rxr b)) = tail (rxr b)" by (simp add: ring_put_def)
    have "bridge_ok (b\<lparr>from_line := from_line b @ [c], rxr := ring_put c (rxr b)\<rparr>)"
      using Cons.prems waiting_put [OF r l, of c] used_put [OF l, of c] t
      by (auto simp: bridge_ok_def rx_kept_def intro!: list_emb_append_mono [of _ _ _ "[c]" "[c]"]
          simp del: length_waiting simp flip: append_assoc split: copying.splits)
    with Cons.IH True show ?thesis by (simp add: Let_def)
  next
    case False
    have "bridge_ok (b\<lparr>from_line := from_line b @ [c], rx_overflow := rx_overflow b + 1\<rparr>)"
      using Cons.prems by (auto simp: bridge_ok_def rx_kept_def list_emb_append2 split: copying.splits)
    with Cons.IH False show ?thesis by (simp add: Let_def)
  qed
qed simp

lemma ok_tx_loop: "bridge_ok b \<Longrightarrow> bridge_ok (tx_loop ready b)"
proof (induction ready arbitrary: b)
  case (Suc ready)
  have r: "ring_ok (txr b)" using Suc.prems by (simp add: bridge_ok_def)
  show ?case
  proof (cases "tail (txr b) = head (txr b)")
    case False
    then have ne: "used (txr b) \<noteq> 0" by (simp add: used_def)
    note w = waiting_drop [OF r ne]
    have "unat (used (ring_drop (txr b))) < unat (used (txr b))"
      using arg_cong [OF w(1), of length] by simp
    with Suc.prems w have "bridge_ok (b\<lparr>to_line := to_line b @ [ring_at (txr b) (tail (txr b))], txr := ring_drop (txr b)\<rparr>)"
      by (auto simp: bridge_ok_def rx_kept_def simp del: length_waiting split: copying.splits)
    with Suc.IH False show ?thesis by simp
  qed (use Suc.prems in simp)
qed simp

lemma ok_isr: "bridge_ok b \<Longrightarrow> bridge_ok (uart_isr rx_status fifo tx_status ready b)"
proof -
  assume "bridge_ok b"
  then have "bridge_ok (if rx_status then rx_loop fifo b else b)" by (simp add: ok_rx_loop)
  moreover have "bridge_ok (c\<lparr>tx_unmasked := False\<rparr>)" if "bridge_ok c" "tail (txr c) = head (txr c)" for c
    using that no_wait(2) [of "txr c"] by (simp add: bridge_ok_def rx_kept_def del: length_waiting split: copying.splits)
  ultimately show ?thesis
    by (simp add: uart_isr_def Let_def ok_tx_loop del: if_split split: if_splits)
qed

lemma ok_out:
  assumes "bridge_ok b" "read_started b" "length packet \<le> 64"
  shows "bridge_ok (cdc_bulk_out_cb packet b)"
proof -
  have "ring_ok (txr b)" "length (waiting (txr b)) + length packet \<le> 4096"
    using assms by (auto simp: bridge_ok_def)
  from rq.put_all [OF this] have f: "ring_ok (fold ring_put packet (txr b))"
    "waiting (fold ring_put packet (txr b)) = waiting (txr b) @ packet" by simp_all
  show ?thesis
    using assms f free_iff [OF f(1)]
    by (auto simp: cdc_bulk_out_cb_def Let_def bridge_ok_def rx_kept_def simp del: length_waiting split: copying.splits)
qed

lemma ok_in: "bridge_ok b \<Longrightarrow> bridge_ok (cdc_bulk_in_cb b)"
  by (simp add: bridge_ok_def cdc_bulk_in_cb_def rx_kept_def split: copying.splits)

lemma ok_rearm: "bridge_ok b \<Longrightarrow> bridge_ok (task_rearm b)"
  by (auto simp: bridge_ok_def task_rearm_def rx_kept_def free_iff split: copying.splits)

lemma ok_begin: "bridge_ok b \<Longrightarrow> bridge_ok (task_begin b)"
  by (auto simp: bridge_ok_def task_begin_def Let_def rx_kept_def word_less_nat_alt split: copying.splits)

lemma ok_copy: "bridge_ok b \<Longrightarrow> bridge_ok (task_copy b)"
proof (cases "task b")
  case (Copying n t buf)
  assume b: "bridge_ok b"
  show ?thesis
  proof (cases "length buf < n")
    case True
    with b Copying have i: "length buf < length (waiting (rxr b))" "buf = take (length buf) (waiting (rxr b))" "t = tail (rxr b)"
      by (auto simp: bridge_ok_def)
    have "waiting (rxr b) ! length buf = ring_at (rxr b) (t + of_nat (length buf))"
      using i(1,3) by (simp add: waiting_def)
    with i have "buf @ [ring_at (rxr b) (t + of_nat (length buf))] = take (Suc (length buf)) (waiting (rxr b))"
      using take_Suc_conv_app_nth [OF i(1)] by simp
    with b Copying True i show ?thesis
      by (simp add: bridge_ok_def task_copy_def rx_kept_def del: length_waiting)
  qed (use b Copying in \<open>simp add: task_copy_def\<close>)
qed (simp add: task_copy_def)

lemma drop_many: "(ring_drop ^^ n) r = r\<lparr>tail := tail r + of_nat n\<rparr>"
  by (induction n) (simp_all add: ring_drop_def add.assoc add.commute)

lemma ok_end:
  assumes "bridge_ok b" "task b = Copying n t buf" "length buf = n"
  shows "bridge_ok (task_end b)"
proof -
  have i: "ring_ok (rxr b)" "n \<le> length (waiting (rxr b))" "t = tail (rxr b)" "buf = take n (waiting (rxr b))"
    using assms by (simp_all add: bridge_ok_def)
  from rq.drop_all [OF i(1,2)] have d: "ring_ok ((rxr b)\<lparr>tail := t + of_nat n\<rparr>)"
    "waiting ((rxr b)\<lparr>tail := t + of_nat n\<rparr>) = drop n (waiting (rxr b))" by (simp_all add: drop_many i(3))
  have "buf @ drop n (waiting (rxr b)) = waiting (rxr b)" unfolding i(4) by (rule append_take_drop_id)
  then have "rx_kept (task_end b) = rx_kept b"
    using assms d by (simp add: rx_kept_def task_end_def Let_def bridge_ok_def)
  with assms d show ?thesis
    by (simp add: bridge_ok_def task_end_def Let_def)
qed

lemma run_ok: "bridge_run b \<Longrightarrow> bridge_ok b"
proof (induction rule: bridge_run.induct)
  case (start b)
  then show ?case
    by (simp add: bridge_ok_def uart_bridge_start_def ring_ok_def used_def rx_kept_def waiting_def)
next
  case (ends b n t buf)
  then show ?case using ok_end by blast
qed (simp_all add: ok_isr ok_out ok_in ok_rearm ok_begin ok_copy)

section \<open>Property\<close>


definition toy_bridge :: bridge where
  "toy_bridge = \<lparr>txr = \<lparr>cells = replicate 4096 0, head = 9, tail = 3\<rparr>, rxr = \<lparr>cells = replicate 4096 0, head = 0, tail = 0\<rparr>,
     rx_overflow = 0, out_armed = True, usb_ready = False, cdc_configured = False, cdc_tx_busy = True, tx_unmasked = False,
     read_started = False, task = Idle, debug_rx_bytes = 0, debug_tx_bytes = 0, from_usb = [], to_line = [], from_line = [],
     to_usb = []\<rparr>"


end
