(* ===== verification/MldsaReduce.thy ===== *)
theory MldsaReduce
  imports Prelude
begin

text \<open>
  The scalar arithmetic of the ML-DSA library (\<open>lib/ML-DSA*/params.h\<close>, \<open>reduce.c\<close>,
  \<open>rounding.c\<close>): the parameter sets, Montgomery and plain reduction modulo
  \<open>Q = 8380417\<close>, and the rounding functions.

  The three directories \<open>ML-DSA44\<close>, \<open>ML-DSA65\<close> and \<open>ML-DSA87\<close> hold one program, compiled
  with three \<open>params.h\<close>; the type \<open>mldsa\<close> says which one. Functions whose text is the same in
  all three take no level, those that only use a macro of \<open>params.h\<close> take the level as an
  argument, and those whose text differs have one definition per text.
  \<open>int32_t\<close> and \<open>int64_t\<close> values are words read by \<open>sint\<close>.
\<close>

section \<open>Parameter sets\<close>

datatype mldsa = ML44 | ML65 | ML87

abbreviation N :: nat where "N \<equiv> 256"
abbreviation Q :: int where "Q \<equiv> 8380417"
abbreviation D :: nat where "D \<equiv> 13"
abbreviation SEEDBYTES :: nat where "SEEDBYTES \<equiv> 32"
abbreviation CRHBYTES :: nat where "CRHBYTES \<equiv> 64"
abbreviation TRBYTES :: nat where "TRBYTES \<equiv> 64"
abbreviation RNDBYTES :: nat where "RNDBYTES \<equiv> 32"
abbreviation POLYT1_PACKEDBYTES :: nat where "POLYT1_PACKEDBYTES \<equiv> 320"
abbreviation POLYT0_PACKEDBYTES :: nat where "POLYT0_PACKEDBYTES \<equiv> 416"

record mldsa_params =
  pK :: nat
  pL :: nat
  pETA :: nat
  pTAU :: nat
  pBETA :: nat
  pGAMMA1 :: nat
  pGAMMA2 :: nat
  pOMEGA :: nat
  pCTILDEBYTES :: nat
  pPOLYZ :: nat
  pPOLYW1 :: nat
  pPOLYETA :: nat

definition params44 :: mldsa_params where
  "params44 = \<lparr>pK = 4, pL = 4, pETA = 2, pTAU = 39, pBETA = 78, pGAMMA1 = 2 ^ 17,
     pGAMMA2 = (8380417 - 1) div 88, pOMEGA = 80, pCTILDEBYTES = 32,
     pPOLYZ = 576, pPOLYW1 = 192, pPOLYETA = 96\<rparr>"

definition params65 :: mldsa_params where
  "params65 = \<lparr>pK = 6, pL = 5, pETA = 4, pTAU = 49, pBETA = 196, pGAMMA1 = 2 ^ 19,
     pGAMMA2 = (8380417 - 1) div 32, pOMEGA = 55, pCTILDEBYTES = 48,
     pPOLYZ = 640, pPOLYW1 = 128, pPOLYETA = 128\<rparr>"

definition params87 :: mldsa_params where
  "params87 = \<lparr>pK = 8, pL = 7, pETA = 2, pTAU = 60, pBETA = 120, pGAMMA1 = 2 ^ 19,
     pGAMMA2 = (8380417 - 1) div 32, pOMEGA = 75, pCTILDEBYTES = 64,
     pPOLYZ = 640, pPOLYW1 = 128, pPOLYETA = 96\<rparr>"

fun params :: "mldsa \<Rightarrow> mldsa_params" where
  "params ML44 = params44"
| "params ML65 = params65"
| "params ML87 = params87"

abbreviation "K v \<equiv> pK (params v)"
abbreviation "L v \<equiv> pL (params v)"
abbreviation "ETA v \<equiv> pETA (params v)"
abbreviation "TAU v \<equiv> pTAU (params v)"
abbreviation "BETA v \<equiv> pBETA (params v)"
abbreviation "GAMMA1 v \<equiv> pGAMMA1 (params v)"
abbreviation "GAMMA2 v \<equiv> pGAMMA2 (params v)"
abbreviation "OMEGA v \<equiv> pOMEGA (params v)"
abbreviation "CTILDEBYTES v \<equiv> pCTILDEBYTES (params v)"
abbreviation "POLYZ_PACKEDBYTES v \<equiv> pPOLYZ (params v)"
abbreviation "POLYW1_PACKEDBYTES v \<equiv> pPOLYW1 (params v)"
abbreviation "POLYETA_PACKEDBYTES v \<equiv> pPOLYETA (params v)"

lemmas param_defs = params44_def params65_def params87_def

definition PUBLICKEYBYTES :: "mldsa \<Rightarrow> nat" where
  "PUBLICKEYBYTES v = SEEDBYTES + K v * POLYT1_PACKEDBYTES"

definition SECRETKEYBYTES :: "mldsa \<Rightarrow> nat" where
  "SECRETKEYBYTES v = 2 * SEEDBYTES + TRBYTES + L v * POLYETA_PACKEDBYTES v
     + K v * POLYETA_PACKEDBYTES v + K v * POLYT0_PACKEDBYTES"

definition CRYPTO_BYTES :: "mldsa \<Rightarrow> nat" where
  "CRYPTO_BYTES v = CTILDEBYTES v + L v * POLYZ_PACKEDBYTES v + (OMEGA v + K v)"

section \<open>reduce.c\<close>

definition montgomery_reduce :: "i64 \<Rightarrow> i32" where
  "montgomery_reduce a =
     (let t = (ucast (a * 58728449) :: i32)
      in ucast (cshr (a - scast t * 8380417) 32))"

definition reduce32 :: "i32 \<Rightarrow> i32" where
  "reduce32 a = (let t = cshr (a + push_bit 22 1) 23 in a - t * 8380417)"

definition caddq :: "i32 \<Rightarrow> i32" where
  "caddq a = a + (cshr a 31 AND 8380417)"

definition freeze :: "i32 \<Rightarrow> i32" where
  "freeze a = caddq (reduce32 a)"

section \<open>rounding.c\<close>

text \<open>The C functions return \<open>a1\<close> and write \<open>*a0\<close>; the models return the pair \<open>(a1, a0)\<close>.\<close>

definition power2round :: "i32 \<Rightarrow> i32 \<times> i32" where
  "power2round a =
     (let a1 = cshr (a + push_bit (D - 1) 1 - 1) D
      in (a1, a - push_bit D a1))"

text \<open>The statement \<open>*a0 -= (((Q - 1) / 2 - *a0) >> 31) & Q\<close> of both texts.\<close>

definition decompose_low :: "i32 \<Rightarrow> i32" where
  "decompose_low a0 = a0 - (cshr (((8380417 - 1) div 2) - a0) 31 AND 8380417)"

definition decompose44 :: "i32 \<Rightarrow> i32 \<times> i32" where
  "decompose44 a =
     (let a1 = cshr (a + 127) 7;
          a1 = cshr (a1 * 11275 + push_bit 23 1) 24;
          a1 = a1 XOR (cshr (43 - a1) 31 AND a1)
      in (a1, decompose_low (a - a1 * 2 * of_nat (GAMMA2 ML44))))"

definition decompose65 :: "i32 \<Rightarrow> i32 \<times> i32" where
  "decompose65 a =
     (let a1 = cshr (a + 127) 7;
          a1 = cshr (a1 * 1025 + push_bit 21 1) 22;
          a1 = a1 AND 15
      in (a1, decompose_low (a - a1 * 2 * of_nat (GAMMA2 ML65))))"

fun decompose :: "mldsa \<Rightarrow> i32 \<Rightarrow> i32 \<times> i32" where
  "decompose ML44 a = decompose44 a"
| "decompose ML65 a = decompose65 a"
| "decompose ML87 a = decompose65 a"

definition make_hint :: "mldsa \<Rightarrow> i32 \<Rightarrow> i32 \<Rightarrow> u32" where
  "make_hint v a0 a1 =
     (let g = of_nat (GAMMA2 v) :: i32
      in if g <s a0 \<or> a0 <s - g \<or> (a0 = - g \<and> a1 \<noteq> 0) then 1 else 0)"

definition use_hint44 :: "i32 \<Rightarrow> u32 \<Rightarrow> i32" where
  "use_hint44 a hint =
     (let (a1, a0) = decompose44 a
      in if hint = 0 then a1
         else if 0 <s a0 then (if a1 = 43 then 0 else a1 + 1)
         else if a1 = 0 then 43 else a1 - 1)"

definition use_hint65 :: "i32 \<Rightarrow> u32 \<Rightarrow> i32" where
  "use_hint65 a hint =
     (let (a1, a0) = decompose65 a
      in if hint = 0 then a1
         else if 0 <s a0 then (a1 + 1) AND 15
         else (a1 - 1) AND 15)"

fun use_hint :: "mldsa \<Rightarrow> i32 \<Rightarrow> u32 \<Rightarrow> i32" where
  "use_hint ML44 a h = use_hint44 a h"
| "use_hint ML65 a h = use_hint65 a h"
| "use_hint ML87 a h = use_hint65 a h"

section \<open>Montgomery reduction\<close>

lemma montgomery_reduce_exact:
  assumes lo: "- (2 ^ 31 * Q) \<le> sint a" and hi: "sint a \<le> 2 ^ 31 * Q"
  shows "sint (montgomery_reduce a) * 2 ^ 32 =
     sint a - sint (ucast (a * 58728449) :: i32) * Q"
proof -
  define t where "t = (ucast (a * 58728449) :: i32)"
  have tb: "-2147483648 \<le> sint t" "sint t < 2147483648"
    by (rule sint32_bounds)+
  obtain k where "sint t = sint (a * 58728449) + k * 2 ^ 32"
    using sint_ucast_down32 [of "a * 58728449"] by (auto simp: t_def)
  then have tm: "sint t mod 2 ^ 32 = (sint a * 58728449) mod 2 ^ 32"
    by (simp add: sint_mult64_mod)
  have m: "sint (scast t * 8380417 :: i64) = sint t * Q"
    using tb by (simp add: sint_arith fits64)
  have d: "sint (a - scast t * 8380417) = sint a - sint t * Q"
    using tb lo hi by (subst sint_sub_fits) (simp_all add: m fits64)
  have "(sint t * Q) mod 2 ^ 32 = ((sint t mod 2 ^ 32) * Q) mod 2 ^ 32"
    by (simp add: mod_mult_left_eq)
  also have "\<dots> = (sint a * ((58728449 * Q) mod 2 ^ 32)) mod 2 ^ 32"
    by (simp only: tm mod_mult_left_eq mult.assoc mod_mult_right_eq)
  also have "\<dots> = sint a mod 2 ^ 32" by simp
  finally have "2 ^ 32 dvd (sint a - sint t * Q)"
    by (metis mod_eq_dvd_iff)
  then obtain r where r: "sint a - sint t * Q = 2 ^ 32 * r" by (rule dvdE)
  have rb: "-8380417 \<le> r" "r \<le> 8380417"
    using r tb lo hi by simp_all
  have s: "sint (cshr (a - scast t * 8380417) 32) = r"
    by (simp add: sint_cshr d r)
  have "sint (ucast (cshr (a - scast t * 8380417) 32) :: i32) = r"
    using rb by (simp add: sint_ucast_fits s fits32)
  then show ?thesis
    unfolding montgomery_reduce_def Let_def t_def [symmetric] by (simp add: r)
qed

lemma montgomery_reduce_spec:
  assumes lo: "- (2 ^ 31 * Q) \<le> sint a" and hi: "sint a < 2 ^ 31 * Q"
  shows "(sint (montgomery_reduce a) * 2 ^ 32) mod Q = sint a mod Q"
    and "- Q < sint (montgomery_reduce a)" and "sint (montgomery_reduce a) < Q"
proof -
  define t where "t = sint (ucast (a * 58728449) :: i32)"
  have tb: "-2147483648 \<le> t" "t < 2147483648"
    unfolding t_def by (rule sint32_bounds)+
  have e: "sint (montgomery_reduce a) * 2 ^ 32 = sint a - t * Q"
    using montgomery_reduce_exact [of a] lo hi by (simp add: t_def)
  show "(sint (montgomery_reduce a) * 2 ^ 32) mod Q = sint a mod Q"
    unfolding e by (metis mod_mult_self1 diff_add_cancel)
  show "- Q < sint (montgomery_reduce a)" "sint (montgomery_reduce a) < Q"
    using e tb lo hi by simp_all
qed

section \<open>Plain reduction\<close>

lemma reduce32_exact:
  assumes "sint a \<le> 2 ^ 31 - 2 ^ 22 - 1"
  shows "sint (reduce32 a) = sint a - ((sint a + 4194304) div 8388608) * Q"
proof -
  note b = sint32_bounds [of a]
  have s: "sint (a + 4194304) = sint a + 4194304"
    using b assms by (subst sint_add_fits) (simp_all add: fits32)
  have t: "sint (cshr (a + 4194304) 23) = (sint a + 4194304) div 8388608"
    by (simp add: sint_cshr s)
  have tb: "-256 \<le> (sint a + 4194304) div 8388608" "(sint a + 4194304) div 8388608 < 256"
    using b assms by (simp_all add: le_div_int div_less_int)
  have m: "sint (cshr (a + 4194304) 23 * 8380417) = ((sint a + 4194304) div 8388608) * Q"
    using tb by (subst sint_mult_fits) (simp_all add: t fits32)
  have r: "-8388608 \<le> sint a - (sint a + 4194304) div 8388608 * 8388608"
      "sint a - (sint a + 4194304) div 8388608 * 8388608 < 8388608"
    using minus_div_mult_eq_mod [of "sint a + 4194304" 8388608]
      pos_mod_bound [of 8388608 "sint a + 4194304"]
      pos_mod_sign [of 8388608 "sint a + 4194304"] by linarith+
  show ?thesis
    using b assms tb r unfolding reduce32_def Let_def
    by (subst sint_sub_fits) (simp_all add: m fits32)
qed

lemma reduce32_cong:
  "sint a \<le> 2 ^ 31 - 2 ^ 22 - 1 \<Longrightarrow> sint (reduce32 a) mod Q = sint a mod Q"
  unfolding reduce32_exact by (metis mod_mult_self1 diff_add_cancel)

lemma reduce32_bounds:
  assumes lo: "- (2 ^ 31 - 2 ^ 22 - 1) \<le> sint a" and hi: "sint a \<le> 2 ^ 31 - 2 ^ 22 - 1"
  shows "-6283008 \<le> sint (reduce32 a)" and "sint (reduce32 a) \<le> 6283008"
proof -
  define t where "t = (sint a + 4194304) div 8388608"
  have "-256 < t" "t < 256"
    using assms by (simp_all add: t_def div_less_int flip: le_div_int add1_zle_eq)
  moreover have "t * 8388608 \<le> sint a + 4194304" "sint a + 4194304 < (t + 1) * 8388608"
    using le_div_int [of 8388608 t "sint a + 4194304"]
      div_less_int [of 8388608 "sint a + 4194304" "t + 1"] by (simp_all add: t_def)
  ultimately show "-6283008 \<le> sint (reduce32 a)" and "sint (reduce32 a) \<le> 6283008"
    using assms by (simp_all add: reduce32_exact flip: t_def)
qed

lemma caddq_exact: "sint a < 2 ^ 31 - 2 ^ 23 \<Longrightarrow>
  sint (caddq a) = (if sint a < 0 then sint a + Q else sint a)"
  using sint32_bounds [of a]
  by (auto simp: caddq_def cshr31 sint_add_fits fits32)

lemma freeze_mod:
  assumes lo: "- (2 ^ 31 - 2 ^ 22 - 1) \<le> sint a" and hi: "sint a \<le> 2 ^ 31 - 2 ^ 22 - 1"
  shows "sint (freeze a) = sint a mod Q"
proof -
  note b = reduce32_bounds [OF lo hi]
  have e: "sint (freeze a) =
      (if sint (reduce32 a) < 0 then sint (reduce32 a) + Q else sint (reduce32 a))"
    using b by (simp add: freeze_def caddq_exact)
  then have "0 \<le> sint (freeze a)" "sint (freeze a) < Q"
    using b by (simp_all split: if_splits)
  moreover have "sint (freeze a) mod Q = sint a mod Q"
    using e reduce32_cong [OF hi] by (simp split: if_splits)
  ultimately show ?thesis by simp
qed

section \<open>Rounding\<close>

lemma power2round_exact:
  assumes "0 \<le> sint a" "sint a < Q" "power2round a = (a1, a0)"
  shows "sint a1 = (sint a + 4095) div 8192" "sint a0 = sint a - sint a1 * 8192"
proof -
  have s: "sint (a + 4096 - 1) = sint a + 4095"
    using assms by (simp add: sint_arith fits32)
  then show 1: "sint a1 = (sint a + 4095) div 8192"
    using assms(3) by (auto simp: power2round_def Let_def sint_cshr)
  have b: "0 \<le> sint a1" "sint a1 < 1024"
    using assms by (simp_all add: 1 le_div_int div_less_int)
  have "sint (push_bit 13 a1) = sint a1 * 8192"
    using b sint_push_bit_fits [of a1 13] by (simp add: fits32)
  then show "sint a0 = sint a - sint a1 * 8192"
    using assms b by (auto simp: power2round_def Let_def sint_arith fits32)
qed

lemma power2round_spec:
  assumes "0 \<le> sint a" "sint a < Q" "power2round a = (a1, a0)"
  shows "sint a = sint a1 * 2 ^ D + sint a0"
    and "- 4096 < sint a0" "sint a0 \<le> 4096" "0 \<le> sint a1" "sint a1 < 1024"
proof -
  note e = power2round_exact [OF assms]
  show "sint a = sint a1 * 2 ^ D + sint a0" by (simp add: e(2))
  show "- 4096 < sint a0" "sint a0 \<le> 4096"
    using le_div_int [of 8192 "sint a1" "sint a + 4095"]
      div_less_int [of 8192 "sint a + 4095" "sint a1 + 1"] e by simp_all
  show "0 \<le> sint a1" "sint a1 < 1024"
    using assms by (simp_all add: e(1) le_div_int div_less_int)
qed

lemma sint_and_15: "sint (a AND 15 :: i32) = sint a mod 16"
proof -
  have "a AND 15 = take_bit 4 a"
    by (simp add: take_bit_eq_mask mask_eq_exp_minus_1)
  then have "uint (a AND 15) = uint a mod 16"
    by (simp add: take_bit_eq_mod uint_mod_distrib)
  moreover have "uint a = sint a mod 2 ^ 32"
    by (simp add: uint_sint take_bit_eq_mod)
  ultimately have u: "uint (a AND 15) = sint a mod 16"
    by (simp add: mod_mod_cancel)
  then have "uint (a AND 15) < 16" by simp
  moreover have "- 16 \<le> uint (a AND 15)"
    by (rule order_trans [OF _ uint_ge_0]) simp
  ultimately have "sint (a AND 15) = uint (a AND 15)"
    by (simp add: sint_uint signed_take_bit_int_eq_self)
  with u show ?thesis by simp
qed

lemma decompose_low_exact:
  assumes "- Q \<le> sint a" "sint a \<le> Q"
  shows "sint (decompose_low a) = (if 4190208 < sint a then sint a - Q else sint a)"
proof -
  have "sint (4190208 - a) = 4190208 - sint a"
    using assms by (subst sint_sub_fits) (simp_all add: fits32)
  then show ?thesis
    using assms by (auto simp: decompose_low_def cshr31 sint_sub_fits fits32)
qed

text \<open>Both texts compute the rounded quotient \<open>d\<close> of \<open>a\<close> by \<open>2 * GAMMA2\<close>.\<close>

lemma decompose65_exact:
  assumes x: "sint a = d * 523776 + e" and e: "- 261888 < e" "e \<le> 261888"
    and r: "0 \<le> sint a" "sint a < Q"
  shows "map_prod sint sint (decompose65 a) = (if d = 16 then (0, e - 1) else (d, e))"
proof -
  have d: "0 \<le> d" "d \<le> 16" using x e r by linarith+
  define c where "c = (sint a + 127) div 128"
  have s1: "sint (cshr (a + 127) 7) = c"
    using r by (simp add: c_def sint_arith fits32)
  have c0: "0 \<le> c" "c < 65473" using r by (simp_all add: c_def le_div_int div_less_int)
  have c1: "c * 128 \<le> sint a + 127" "sint a + 127 < (c + 1) * 128"
    using le_div_int [of 128 c "sint a + 127"] div_less_int [of 128 "sint a + 127" "c + 1"]
    by (simp_all add: c_def)
  have s2: "sint (cshr (a + 127) 7 * 1025 + 2097152) = c * 1025 + 2097152"
    using c0 by (simp add: sint_add_fits sint_mult_fits fits32 s1)
  have "128 * (4092 * d - 2046 - c) < 0" "128 * (c - 4092 * d - 2047) < 0"
    using c1 x e by simp_all
  then have c2: "4092 * d - 2045 \<le> c" "c \<le> 4092 * d + 2046"
    by simp_all
  have q: "(c * 1025 + 2097152) div 4194304 = d"
    using c2 d by (intro div_eq_int; simp)
  have s3: "sint (cshr (cshr (a + 127) 7 * 1025 + 2097152) 22 AND 15) = (if d = 16 then 0 else d)"
    using d by (simp add: sint_and_15 sint_cshr s2 q)
  define a1 where "a1 = cshr (cshr (a + 127) 7 * 1025 + 2097152) 22 AND (15 :: i32)"
  have s4: "sint a1 = (if d = 16 then 0 else d)" by (simp add: a1_def s3)
  have s5: "sint (523776 * a1) = sint a1 * 523776"
    using d by (simp add: sint_arith fits32 s4)
  have s6: "sint (a - 523776 * a1) = sint a - sint a1 * 523776"
    using d r by (subst sint_sub_fits) (simp_all add: s4 s5 fits32)
  have "decompose65 a = (a1, decompose_low (a - 523776 * a1))"
    by (simp add: decompose65_def Let_def a1_def params65_def)
  then show ?thesis
    using x e d r by (auto simp: decompose_low_exact s4 s6)
qed

lemma decompose44_exact:
  assumes x: "sint a = d * 190464 + e" and e: "- 95232 < e" "e \<le> 95232"
    and r: "0 \<le> sint a" "sint a < Q"
  shows "map_prod sint sint (decompose44 a) = (if d = 44 then (0, e - 1) else (d, e))"
proof -
  have d: "0 \<le> d" "d \<le> 44" using x e r by linarith+
  define c where "c = (sint a + 127) div 128"
  have s1: "sint (cshr (a + 127) 7) = c"
    using r by (simp add: c_def sint_arith fits32)
  have c0: "0 \<le> c" "c < 65473" using r by (simp_all add: c_def le_div_int div_less_int)
  have c1: "c * 128 \<le> sint a + 127" "sint a + 127 < (c + 1) * 128"
    using le_div_int [of 128 c "sint a + 127"] div_less_int [of 128 "sint a + 127" "c + 1"]
    by (simp_all add: c_def)
  have s2: "sint (cshr (a + 127) 7 * 11275 + 8388608) = c * 11275 + 8388608"
    using c0 by (simp add: sint_add_fits sint_mult_fits fits32 s1)
  have "128 * (1488 * d - 744 - c) < 0" "128 * (c - 1488 * d - 745) < 0"
    using c1 x e by simp_all
  then have c2: "1488 * d - 743 \<le> c" "c \<le> 1488 * d + 744"
    by simp_all
  have q: "(c * 11275 + 8388608) div 16777216 = d"
    using c2 d by (intro div_eq_int; simp)
  define b1 where "b1 = cshr (cshr (a + 127) 7 * 11275 + 8388608) 24"
  have b: "sint b1 = d" by (simp add: b1_def sint_cshr s2 q)
  define a1 where "a1 = b1 XOR (cshr (43 - b1) 31 AND b1)"
  have "sint (43 - b1) = 43 - d" using d by (simp add: sint_arith fits32 b)
  then have s4: "sint a1 = (if d = 44 then 0 else d)"
    using d b by (auto simp: a1_def cshr31)
  have s5: "sint (190464 * a1) = sint a1 * 190464"
    using d by (simp add: sint_arith fits32 s4)
  have s6: "sint (a - 190464 * a1) = sint a - sint a1 * 190464"
    using d r by (subst sint_sub_fits) (simp_all add: s4 s5 fits32)
  have "decompose44 a = (a1, decompose_low (a - 190464 * a1))"
    by (simp add: decompose44_def Let_def a1_def b1_def params44_def)
  then show ?thesis
    using x e d r by (auto simp: decompose_low_exact s4 s6)
qed

subsection \<open>The rounding functions of FIPS 204\<close>

definition mod_pm :: "int \<Rightarrow> int \<Rightarrow> int" where
  "mod_pm m a = (let x = a mod m in if m div 2 < x then x - m else x)"

definition Decompose :: "int \<Rightarrow> int \<Rightarrow> int \<times> int" where
  "Decompose g r =
     (let r0 = mod_pm (2 * g) (r mod Q)
      in if r mod Q - r0 = Q - 1 then (0, r0 - 1) else ((r mod Q - r0) div (2 * g), r0))"

definition hint_modulus :: "mldsa \<Rightarrow> int" where
  "hint_modulus v = (Q - 1) div (2 * int (GAMMA2 v))"

definition UseHint :: "mldsa \<Rightarrow> bool \<Rightarrow> int \<Rightarrow> int" where
  "UseHint v h r =
     (let (r1, r0) = Decompose (int (GAMMA2 v)) r
      in if \<not> h then r1
         else if 0 < r0 then (r1 + 1) mod hint_modulus v
         else (r1 - 1) mod hint_modulus v)"

lemma hint_modulus_simps [simp]:
  "hint_modulus ML44 = 44" "hint_modulus ML65 = 16" "hint_modulus ML87 = 16"
  by (simp_all add: hint_modulus_def param_defs)

lemma GAMMA2_simps [simp]:
  "GAMMA2 ML44 = 95232" "GAMMA2 ML65 = 261888" "GAMMA2 ML87 = 261888"
  by (simp_all add: param_defs)

lemma hint_modulus_Q: "hint_modulus v * (2 * int (GAMMA2 v)) = Q - 1" "1 < hint_modulus v"
  "0 < GAMMA2 v"
  by (cases v; simp del: params.simps)+

lemma decompose_exact:
  assumes "sint a = d * (2 * int (GAMMA2 v)) + e" "- int (GAMMA2 v) < e" "e \<le> int (GAMMA2 v)"
    and "0 \<le> sint a" "sint a < Q"
  shows "map_prod sint sint (decompose v a) = (if d = hint_modulus v then (0, e - 1) else (d, e))"
  using assms
  by (cases v) (simp_all del: params.simps add: decompose44_exact decompose65_exact)

lemma rounded_quotient:
  assumes "0 < g"
  obtains d e where "x = d * (2 * g) + e" "- g < e" "e \<le> (g :: int)"
proof
  define d where "d = (x + g - 1) div (2 * g)"
  show "x = d * (2 * g) + (x - d * (2 * g))" by simp
  have "d * (2 * g) \<le> x + g - 1" "x + g - 1 < (d + 1) * (2 * g)"
    using assms le_div_int [of "2 * g" d "x + g - 1"] div_less_int [of "2 * g" "x + g - 1" "d + 1"]
    by (simp_all add: d_def)
  then show "- g < x - d * (2 * g)" "x - d * (2 * g) \<le> g"
    by (simp_all add: algebra_simps)
qed

lemma mod_pm_eq:
  assumes "0 < g" "- g < e" "e \<le> g"
  shows "mod_pm (2 * g) (d * (2 * g) + e) = e"
proof -
  have "(d * (2 * g) + e) mod (2 * g) = (if e < 0 then e + 2 * g else e)"
  proof (cases "e < 0")
    case True
    have "(d * (2 * g) + e) mod (2 * g) = (e + 2 * g) mod (2 * g)" by simp
    also have "\<dots> = e + 2 * g" using assms True by (intro mod_pos_pos_trivial) simp_all
    finally show ?thesis using True by simp
  next
    case False
    then show ?thesis using assms by simp
  qed
  then show ?thesis using assms by (auto simp: mod_pm_def)
qed

lemma Decompose_eq:
  assumes "x = d * (2 * int (GAMMA2 v)) + e" "- int (GAMMA2 v) < e" "e \<le> int (GAMMA2 v)"
    and "0 \<le> x" "x < Q"
  shows "Decompose (int (GAMMA2 v)) x = (if d = hint_modulus v then (0, e - 1) else (d, e))"
proof -
  have x: "x mod Q = x" using assms by simp
  have g: "0 < int (GAMMA2 v)" using hint_modulus_Q [of v] by simp
  have m: "mod_pm (2 * int (GAMMA2 v)) x = e"
    unfolding assms(1) using g assms(2,3) by (rule mod_pm_eq)
  have q: "(d * (2 * int (GAMMA2 v)) = Q - 1) = (d = hint_modulus v)"
    using g hint_modulus_Q(1) [of v] by (metis mult_right_cancel mult_eq_0_iff less_irrefl zero_neq_numeral)
  show ?thesis
    unfolding Decompose_def Let_def x m using assms(1) g q by simp
qed

lemma decompose_refines:
  assumes "0 \<le> sint a" "sint a < Q"
  shows "map_prod sint sint (decompose v a) = Decompose (int (GAMMA2 v)) (sint a)"
proof -
  have "0 < int (GAMMA2 v)" using hint_modulus_Q [of v] by simp
  then obtain d e where "sint a = d * (2 * int (GAMMA2 v)) + e"
    "- int (GAMMA2 v) < e" "e \<le> int (GAMMA2 v)"
    by (rule rounded_quotient)
  with assms show ?thesis by (simp add: decompose_exact Decompose_eq)
qed

lemma decompose_range:
  assumes "0 \<le> sint a" "sint a < Q" "decompose v a = (a1, a0)"
  shows "0 \<le> sint a1" "sint a1 < hint_modulus v"
    "- int (GAMMA2 v) \<le> sint a0" "sint a0 \<le> int (GAMMA2 v)"
    "sint a mod Q = (sint a1 * (2 * int (GAMMA2 v)) + sint a0) mod Q"
proof -
  have g: "0 < int (GAMMA2 v)" using hint_modulus_Q [of v] by simp
  then obtain d e where x: "sint a = d * (2 * int (GAMMA2 v)) + e"
    and e: "- int (GAMMA2 v) < e" "e \<le> int (GAMMA2 v)"
    by (rule rounded_quotient)
  have p: "(sint a1, sint a0) = (if d = hint_modulus v then (0, e - 1) else (d, e))"
    using decompose_exact [OF x e assms(1,2)] assms(3) by simp
  have d: "0 \<le> d" "d \<le> hint_modulus v"
    using x e assms g by (cases v; simp del: params.simps)+
  show "0 \<le> sint a1" "sint a1 < hint_modulus v"
    using p d hint_modulus_Q(2) [of v] by (auto split: if_splits)
  show "- int (GAMMA2 v) \<le> sint a0" "sint a0 \<le> int (GAMMA2 v)"
    using p e by (auto split: if_splits)
  have "d = hint_modulus v \<Longrightarrow> sint a = (e - 1) + Q"
    using x hint_modulus_Q(1) [of v] by simp
  then have "d = hint_modulus v \<Longrightarrow> sint a mod Q = (e - 1) mod Q"
    by (simp only: mod_add_self2)
  then show "sint a mod Q = (sint a1 * (2 * int (GAMMA2 v)) + sint a0) mod Q"
    using p x by (cases "d = hint_modulus v") simp_all
qed

subsection \<open>Hints\<close>

lemma use_hint_refines:
  assumes "0 \<le> sint a" "sint a < Q"
  shows "sint (use_hint v a h) = UseHint v (h \<noteq> 0) (sint a)"
proof -
  obtain a1 a0 where da: "decompose v a = (a1, a0)" by fastforce
  have D: "Decompose (int (GAMMA2 v)) (sint a) = (sint a1, sint a0)"
    using decompose_refines [OF assms, of v] da by simp
  have r: "0 \<le> sint a1" "sint a1 < hint_modulus v" by (rule decompose_range [OF assms da])+
  have s: "sint (a1 + 1) = sint a1 + 1" "sint (a1 - 1) = sint a1 - 1"
    using r by (cases v; simp add: sint_arith fits32)+
  have z: "a1 = 43 \<longleftrightarrow> sint a1 = 43" "a1 = 0 \<longleftrightarrow> sint a1 = 0"
    by (auto intro: sint_eqI)
  show ?thesis
  proof (cases v)
    case ML44
    then show ?thesis
      using r da D by (auto simp: use_hint44_def UseHint_def word_sless_alt z s zmod_minus1 simp del: params.simps)
  next
    case ML65
    then show ?thesis
      using r da D by (simp add: use_hint65_def UseHint_def word_sless_alt sint_and_15 s)
  next
    case ML87
    then show ?thesis
      using r da D by (simp add: use_hint65_def UseHint_def word_sless_alt sint_and_15 s)
  qed
qed


lemma make_hint_eq:
  "make_hint v a0 a1 \<noteq> 0 \<longleftrightarrow>
     (int (GAMMA2 v) < sint a0 \<or> sint a0 < - int (GAMMA2 v)
       \<or> sint a0 = - int (GAMMA2 v) \<and> sint a1 \<noteq> 0)"
proof -
  have g: "sint (of_nat (GAMMA2 v) :: i32) = int (GAMMA2 v)"
    "sint (- of_nat (GAMMA2 v) :: i32) = - int (GAMMA2 v)"
    by (cases v; simp del: params.simps)+
  have "a0 = - of_nat (GAMMA2 v) \<longleftrightarrow> sint a0 = - int (GAMMA2 v)"
    using g(2) by (metis sint_eqI)
  moreover have "a1 = 0 \<longleftrightarrow> sint a1 = 0" by (auto intro: sint_eqI)
  ultimately show ?thesis
    by (simp add: make_hint_def Let_def word_sless_alt g)
qed

text \<open>
  The value \<open>w * 2g + e\<close> with \<open>|e| \<le> 2g\<close> has the high part \<open>w\<close> or a neighbour of \<open>w\<close>; the hint
  says which, and \<open>UseHint\<close> moves back to \<open>w\<close>.
\<close>

lemma UseHint_recovers:
  fixes w e :: int and v :: mldsa
  defines "g \<equiv> int (GAMMA2 v)"
  assumes w: "0 \<le> w" "w < hint_modulus v" and e: "- 2 * g < e" "e \<le> 2 * g"
  shows "UseHint v (g < e \<or> e < - g \<or> e = - g \<and> w \<noteq> 0) ((w * (2 * g) + e) mod Q) = w"
proof -
  define m where "m = hint_modulus v"
  define P where "P = w * (2 * g)"
  have mg: "m * (2 * g) = 8380416" and m: "1 < m" and g: "0 < g"
    using hint_modulus_Q [of v] by (simp_all add: m_def g_def)
  have wm: "w + 1 \<le> m" using w by (simp add: m_def)
  have "(w + 1) * (2 * g) \<le> m * (2 * g)" using wm g by (intro mult_right_mono) simp_all
  moreover have "(w + 1) * (2 * g) = P + 2 * g" by (simp add: P_def algebra_simps)
  ultimately have P1: "P + 2 * g \<le> 8380416" by (simp only: mg)
  have P0: "0 \<le> P" "1 \<le> w \<Longrightarrow> 2 * g \<le> P"
    using w g mult_right_mono [of 1 w "2 * g"] by (simp_all add: P_def)
  have gm: "4 * g \<le> 8380416"
    using mult_right_mono [of 2 m "2 * g"] m g mg by simp
  have D: "Decompose g x = (if d = m then (0, f - 1) else (d, f))"
    if "x = d * (2 * g) + f" "- g < f" "f \<le> g" "0 \<le> x" "x < Q" for x d f
    using that Decompose_eq [of x d v f] by (simp add: g_def m_def)
  have dist: "(w + 1) * (2 * g) = P + 2 * g" "(w - 1) * (2 * g) = P - 2 * g"
    "(m - 1) * (2 * g) = 8380416 - 2 * g"
    using mg by (simp_all add: P_def algebra_simps)
  have pos: "(P + e) mod Q = P + e" if "0 \<le> P + e"
    using that e P1 by (intro mod_pos_pos_trivial) simp_all
  have neg: "w = 0" "(P + e) mod Q = Q + e" if "P + e < 0"
  proof -
    show w0: "w = 0" using that e w P0 by (cases "w = 0") simp_all
    have "e mod Q = (e + Q) mod Q" by simp
    also have "\<dots> = e + Q"
      using that w0 e gm by (intro mod_pos_pos_trivial) (simp_all add: P_def)
    finally show "(P + e) mod Q = Q + e" using w0 by (simp add: P_def)
  qed
  have U: "UseHint v h x = (let (r1, r0) = Decompose g x in if \<not> h then r1
      else if 0 < r0 then (r1 + 1) mod m else (r1 - 1) mod m)" for h x
    unfolding UseHint_def g_def m_def by (rule refl)
  have wlt: "w \<noteq> m" "w mod m = w" using w by (simp_all add: m_def)
  consider (mid) "- g < e" "e \<le> g" "0 \<le> P + e"
    | (mid_neg) "- g < e" "e \<le> g" "P + e < 0"
    | (edge) "e = - g" "0 \<le> P + e" | (edge_neg) "e = - g" "P + e < 0"
    | (above) "g < e" | (below) "e < - g" "0 \<le> P + e"
    | (below_neg) "e < - g" "P + e < 0"
    by linarith
  then have "UseHint v (g < e \<or> e < - g \<or> e = - g \<and> w \<noteq> 0) ((P + e) mod Q) = w"
  proof cases
    case mid
    then have "Decompose g (P + e) = (w, e)"
      using D [of "P + e" w e] P1 wlt by (simp add: P_def)
    with mid show ?thesis by (simp add: U pos)
  next
    case mid_neg
    then have "Decompose g (Q + e) = (0, e)"
      using D [of "Q + e" m "e + 1"] gm mg P0 by simp
    with mid_neg neg show ?thesis by (simp add: U)
  next
    case edge
    then have w0: "w \<noteq> 0" using g by (auto simp: P_def)
    have "P + e = (w - 1) * (2 * g) + g" using edge dist by simp
    moreover have "0 < P" using w0 w g by (simp add: P_def)
    ultimately have "Decompose g (P + e) = (w - 1, g)"
      using D [of "P + e" "w - 1" g] edge g P1 wm by simp
    with edge w0 wlt g show ?thesis unfolding pos [OF edge(2)] U by simp
  next
    case edge_neg
    then have "Decompose g (Q + e) = (0, e)"
      using D [of "Q + e" m "e + 1"] gm mg g by simp
    with edge_neg neg g show ?thesis unfolding neg(2) [OF edge_neg(2)] U by simp
  next
    case above
    have "P + e = (w + 1) * (2 * g) + (e - 2 * g)" using dist by simp
    moreover have "0 \<le> P + e" "P + e < Q" using above g e P0 P1 by simp_all
    ultimately have "Decompose g (P + e) = (if w + 1 = m then (0, e - 2 * g - 1) else (w + 1, e - 2 * g))"
      using D [of "P + e" "w + 1" "e - 2 * g"] above e by simp
    with above wlt e m \<open>0 \<le> P + e\<close> show ?thesis by (auto simp: U pos zmod_minus1)
  next
    case below
    then have w0: "w \<noteq> 0" using g e by (auto simp: P_def)
    have "P + e = (w - 1) * (2 * g) + (e + 2 * g)" using dist by simp
    then have "Decompose g (P + e) = (w - 1, e + 2 * g)"
      using D [of "P + e" "w - 1" "e + 2 * g"] below e g P1 wm by simp
    with below w0 wlt e show ?thesis by (simp add: U pos)
  next
    case below_neg
    then have "Decompose g (Q + e) = (m - 1, e + 2 * g + 1)"
      using D [of "Q + e" "m - 1" "e + 2 * g + 1"] gm e g dist by simp
    with below_neg neg e m show ?thesis by (simp add: U)
  qed
  then show ?thesis by (simp add: P_def)
qed

lemma use_hint_make_hint:
  assumes "0 \<le> sint w" "sint w < hint_modulus v"
    and "- (2 * int (GAMMA2 v)) < sint e" "sint e \<le> 2 * int (GAMMA2 v)"
    and "sint r = (sint w * (2 * int (GAMMA2 v)) + sint e) mod Q"
  shows "use_hint v r (make_hint v e w) = w"
proof (rule sint_eqI)
  have "0 \<le> sint r" "sint r < Q" by (simp_all add: assms(5))
  then have "sint (use_hint v r (make_hint v e w)) = UseHint v (make_hint v e w \<noteq> 0) (sint r)"
    by (rule use_hint_refines)
  also have "\<dots> = sint w"
    using UseHint_recovers [of "sint w" v "sint e"] assms by (simp add: make_hint_eq)
  finally show "sint (use_hint v r (make_hint v e w)) = sint w" .
qed

section \<open>Properties\<close>

text \<open>
  Montgomery reduction: for \<open>-2^31 Q \<le> a < 2^31 Q\<close> the result is congruent to \<open>a * 2^-32\<close>
  modulo \<open>Q\<close> and lies strictly between \<open>-Q\<close> and \<open>Q\<close>, with no overflow of the 64-bit
  intermediate value.
\<close>

theorem montgomery_reduce_correct:
  assumes "- (2 ^ 31 * Q) \<le> sint a" "sint a < 2 ^ 31 * Q"
  shows "(sint (montgomery_reduce a) * 2 ^ 32) mod Q = sint a mod Q \<and>
    - Q < sint (montgomery_reduce a) \<and> sint (montgomery_reduce a) < Q"
  using montgomery_reduce_spec [OF assms] by blast

theorem montgomery_reduce_correct_witness:
  "(sint (montgomery_reduce 123456789012) * 2 ^ 32) mod Q = 123456789012 mod Q"
  using montgomery_reduce_correct [of 123456789012] by simp

text \<open>
  The comment of \<open>reduce.c\<close> includes the end point \<open>a = 2^31 Q\<close>, where the result is \<open>Q\<close> itself.
\<close>

lemma montgomery_reduce_end_point: "sint (montgomery_reduce 17996808470921216) = Q"
  by code_simp

text \<open>
  The comment of \<open>reduce32\<close> puts no lower bound on \<open>a\<close>; this input is below its stated range.
\<close>

lemma reduce32_low_end: "sint (reduce32 (word_of_int (-2143289344))) = -6283009"
  by code_simp

text \<open>
  plain reduction: on the documented range \<open>reduce32\<close> returns a representative of \<open>a\<close> in
  \<open>[-6283008, 6283008]\<close> and \<open>freeze\<close> the canonical representative \<open>a mod Q\<close>.
\<close>

theorem reduce_correct:
  assumes "- (2 ^ 31 - 2 ^ 22 - 1) \<le> sint a" "sint a \<le> 2 ^ 31 - 2 ^ 22 - 1"
  shows "sint (reduce32 a) mod Q = sint a mod Q \<and> \<bar>sint (reduce32 a)\<bar> \<le> 6283008 \<and>
    sint (freeze a) = sint a mod Q"
  using reduce32_cong [OF assms(2)] reduce32_bounds [OF assms] freeze_mod [OF assms] by simp

theorem reduce_correct_witness: "sint (freeze (word_of_int (-20000000))) = -20000000 mod Q"
  using reduce_correct [of "word_of_int (-20000000)"] by simp

text \<open>
  \<open>power2round\<close> splits a canonical \<open>a\<close> as \<open>a = a1 * 2^13 + a0\<close> with
  \<open>-2^12 < a0 \<le> 2^12\<close> and \<open>a1\<close> in ten bits, so that \<open>t1\<close> fits its packing.
\<close>

theorem power2round_correct:
  assumes "0 \<le> sint a" "sint a < Q"
  shows "case power2round a of (a1, a0) \<Rightarrow> sint a = sint a1 * 2 ^ D + sint a0 \<and>
    - (2 ^ (D - 1)) < sint a0 \<and> sint a0 \<le> 2 ^ (D - 1) \<and> 0 \<le> sint a1 \<and> sint a1 < 2 ^ 10"
  using power2round_spec [OF assms, of "fst (power2round a)" "snd (power2round a)"]
  by (simp add: split_beta)

theorem power2round_correct_witness:
  "case power2round 8380416 of (a1, a0) \<Rightarrow> 8380416 = sint a1 * 2 ^ D + sint a0"
  using power2round_correct [of 8380416] by (auto simp: split_beta)

text \<open>
  the branch-free \<open>decompose\<close> of every parameter set computes \<open>Decompose\<close> of FIPS 204 on
  canonical inputs, although the two sources use different multiply-and-shift divisions.
\<close>

theorem decompose_correct:
  assumes "0 \<le> sint a" "sint a < Q"
  shows "map_prod sint sint (decompose v a) = Decompose (int (GAMMA2 v)) (sint a)"
  using decompose_refines [OF assms] .

theorem decompose_correct_witness:
  "map_prod sint sint (decompose ML65 8380400) = Decompose (int (GAMMA2 ML65)) 8380400"
  using decompose_correct [of 8380400 ML65] by simp

text \<open>
  hints do what they are for: for a high part \<open>w\<close> and an error \<open>e\<close> of at most \<open>2 GAMMA2\<close>,
  the hint that the signer computes from \<open>e\<close> and \<open>w\<close> lets the verifier recover \<open>w\<close> from
  \<open>w * 2 GAMMA2 + e mod Q\<close> alone, in every parameter set.
\<close>

theorem hint_recovers_high_bits:
  assumes "0 \<le> sint w" "sint w < hint_modulus v"
    and "- (2 * int (GAMMA2 v)) < sint e" "sint e \<le> 2 * int (GAMMA2 v)"
    and "sint r = (sint w * (2 * int (GAMMA2 v)) + sint e) mod Q"
  shows "use_hint v r (make_hint v e w) = w"
  using use_hint_make_hint [OF assms] .

theorem hint_recovers_high_bits_witness:
  "use_hint ML65 (word_of_int ((3 * 523776 + 400000) mod Q)) (make_hint ML65 400000 3) = 3"
  by (rule hint_recovers_high_bits) (simp_all del: params.simps)

end
