(* ===== verification/Spec2Isabelle.thy ===== *)
theory Spec2Isabelle
  imports Device SerialCli Provisioning Atecc UartBridge MldsaReduce Backup
begin

text \<open>
  A verification library for the firmware of the security key in this repository: an ESP32-S3 that is a FIDO2
  and U2F authenticator and a password and TOTP vault, with an optional FPGA accelerator, an optional ATECC608
  key chip and a fingerprint sensor. The theories model the C and C++ sources; the theorems say what the
  sources do.

  \<^bold>\<open>The program and how its parts interact.\<close> Two tasks run after start-up. \<open>fidoTask\<close> polls the HID device:
  reports of 64 bytes are assembled to CTAPHID messages, a message is a U2F or a CTAP2 command, the command
  reads its CBOR parameters, waits for the user at the sensor, and uses credentials that are stored in
  \<open>/passkeys.bin\<close> or wrapped in their own identifier; the reply is cut into reports again. \<open>cliTask\<close> reads
  JSON lines from the serial port, through an encrypted tunnel once a handshake was made, and works on the
  vault; a password is released or replaced when the finger says so. Both share the files, the storage key,
  the PIN and the sensor. All symmetric cryptography goes through a dispatcher that prefers the FPGA to
  mbedTLS.

  \<^bold>\<open>Theories and sources\<close> (paths below \<open>src/\<close>; functions keep their names).

  \<^item> \<open>Prelude\<close>, \<open>Text\<close>: integers of fixed width, the \<open>String\<close> members and conversions used everywhere
    (\<open>toHex\<close>, \<open>fromHex\<close> of \<open>src/CryptoManager.cpp\<close>).
  \<^item> \<open>Cbor\<close> (\<open>src/CborEngine.cpp\<close>): encoder and parser. A buffer is a list with a capacity, \<open>None\<close> an access
    outside of it. Lemmas and theorems: encoder sessions stay in the buffer and write the concatenation of
    what was asked; \<open>skipValue\<close> always returns, never leaves the buffer, and skips exactly one value of any
    nesting; the readers invert the writers. Interfaces: the locales \<open>skip_contract\<close> and \<open>write_op\<close>.
  \<^item> \<open>CtapParse\<close>: the loops of \<open>processCborCommand\<close> that read the request maps; they end and stay in the
    message.
  \<^item> \<open>CryptoAccel\<close> (\<open>src/CryptoAccel.cpp\<close>): the dispatch, which a consistent accelerator does not change.
    \<open>FpgaDriver\<close> (\<open>src/FpgaAccel.cpp\<close>): CRC, frames, transport and commands; a reply with a damaged byte is
    rejected. \<open>Atecc\<close> (\<open>src/AteccManager.cpp\<close>): the key chip, against a chip that follows its protocol, and
    the mixing of random sources. \<open>UartBridge\<close> (\<open>hw/bl616/goikey/src/uart_bridge.c\<close>): the rings between USB
    and the accelerator, as an interpretation of the locale \<open>byte_queue\<close>, with every interleaving of
    interrupts and task.
  \<^item> \<open>VaultCrypto\<close> (\<open>src/CryptoManager.cpp\<close>): nonces, sealed payloads and lines, base32, TOTP, generated
    passwords. \<open>CredKeys\<close> (same file): key generation and signing for the four algorithms in software and in
    the FPGA. \<open>MldsaReduce\<close> (\<open>lib/ML-DSA*\<close>): the reductions and roundings of the ML-DSA library.
  \<^item> \<open>Passkeys\<close>, \<open>PinStore\<close>, \<open>Vault\<close>, \<open>StatelessCred\<close> (\<open>src/StorageManager.cpp\<close>): the record file and its
    refinement to a list of credentials; PIN, counters, settings, secrets and both resets; the vault as a
    map from site and login to password; credentials wrapped in their identifier.
    \<open>Backup\<close> (\<open>src/BackupManager.cpp\<close>): export and import of the vault.
  \<^item> \<open>CtapHid\<close> (\<open>src/FIDO2Manager.cpp\<close>): packets, channels, reassembly and fragmentation. \<open>Ctap\<close>: the
    static variables of that file as the record \<open>ctap\<close>, user verification, the locale \<open>enumeration\<close>. Then
    one theory for each group of commands: \<open>CtapPin\<close>, \<open>CtapBlob\<close>, \<open>CtapManage\<close>, \<open>CtapAssert\<close>, \<open>CtapMake\<close>,
    \<open>CtapBio\<close>, \<open>U2f\<close>. \<open>CtapDispatch\<close>: the dispatch, authenticatorGetInfo, what every command keeps (rules
    for \<open>post\<close>), runs of messages. \<open>Device\<close>: transport and commands together.
  \<^item> \<open>SerialCli\<close> (\<open>src/main.cpp\<close>, \<open>src/CommsManager.cpp\<close>, \<open>src/FingerprintManager.cpp\<close>, handshake and
    terminal of \<open>src/CryptoManager.cpp\<close>): the serial task with all its commands, the approving finger, and
    the buffered encrypted terminal. \<open>Provisioning\<close> (\<open>src/AttensationProvisioningCmd.cpp\<close>): the attestation
    identity of bench builds.

  \<^bold>\<open>State.\<close> Files and NVS are the fields of \<open>PinStore.system\<close> (\<open>files\<close> maps a path to its content; \<open>sl_secret\<close>,
  \<open>attest_chain\<close>, \<open>attest_privkey\<close> are NVS keys), with the storage key and the session flags of
  \<open>src/Globals.cpp\<close>; \<open>Ctap.ctap\<close> adds the static variables of \<open>FIDO2Manager.cpp\<close> and the replies \<open>sent\<close>,
  \<open>SerialCli.cli\<close> those of the serial task and the reports \<open>told\<close>, \<open>CtapHid\<close> has the transport's. An
  operation takes the state and returns it; \<open>None\<close> is undefined behaviour or \<open>abort()\<close>, a sum or an option
  inside it the failure a caller sees. Random bytes, times, sensor answers and what a task observes of the
  outside are arguments (\<open>reading\<close>, \<open>turn\<close>, \<open>wait_turn\<close>, \<open>line_seen\<close>, \<open>making\<close>, ...).

  \<^bold>\<open>What the groups of theorems show.\<close> Memory: parser, encoder, transport, large-blob writes and request
  readers stay in their buffers for every input. Authentication: no assertion, registration or U2F signature
  without an accepted reading of the sensor, PIN guesses are bounded by ten and sensor failures by eight, a
  set PIN changes only for who knows it, a locked serial session gives nothing away and a password leaves
  only by the finger. Correctness: registrations are attested and later signed for with the registered key,
  for stored, stateless and U2F credentials; enumerations are complete; backup, vault, large blobs, tunnel
  and transport give back what they were given; TOTP is RFC 6238; counters and nonces only advance. Where a
  theorem shows that the code falls short of this (tokens handed out without the PIN, the second credential
  asserted after a timed-out verification, a vault stranded by a change of the PIN), the behaviour is stated
  as it is, as a lemma, and listed among the findings of the manifest.

  \<^bold>\<open>Bounds and fuel.\<close> \<open>skipValue\<close> recurses on what is left of the depth limit of the source, and for the loops over
  indefinite items the bytes left, each turn consuming one. Loops of \<open>FpgaDriver\<close> and \<open>Atecc\<close> count down the
  attempts of the source (50 polls, 4 wake pulses). The waits for a finger run over the list of turns that are
  observed, and the clock of each turn decides as in the source when the limit of 15 seconds ends them; \<open>uv_loop\<close> is
  proved to end within it. \<open>rounds n\<close> runs an enumeration \<open>n\<close> times, one more than there are items. Other recursions are on the
  data or have a measure; none is partial.

  \<^bold>\<open>Assumptions\<close>, each a named predicate with a witness that satisfies it. The FPGA agrees with mbedTLS
  (\<open>consistent\<close>); AES-GCM and AES-CBC open what they sealed, and their lengths (\<open>gcm_ok\<close>, \<open>gcm_total\<close>,
  \<open>primitives_ok\<close>); signatures of generated keys verify and have the length of their format
  (\<open>primitives_sign\<close>, \<open>key_lengths\<close>, \<open>short_signatures\<close>, \<open>short_der\<close>); ArduinoJson parses what it
  serialized (\<open>json_ok\<close>); memory can be allocated and files opened where a theorem needs success (\<open>roomy\<close>,
  \<open>sound\<close>). Writes to an open file are complete, the tasks that generate keys and sign are created and end,
  and the mutexes do their work: a command of either task is one step.

  \<^bold>\<open>Not modelled.\<close> The display and log output; delays; the simulator builds; the enrolment of a finger over
  serial (waiting loops around the sensor library, whose outcome is observed); self tests and bench programs;
  start-up; elliptic-curve, RSA and hash routines of mbedTLS and the vendored PQClean code of \<open>lib/\<close> beyond
  its scalar arithmetic, which are parameters; the JTAG half of the USB firmware, a port of DirtyJTAG; the
  Verilog of the accelerator, its host tools and the browser plug-in, which are in other languages; the
  interleaving of the two ESP32 tasks inside a command.
\<close>

end
